(* ===== verification/Prelude.thy ===== *)
theory Prelude
  imports Main "HOL-Library.Word"
begin

text \<open>
  What every component shares: the machine integers the crate uses, the outcome of a Rust
  computation (a value, an \<open>Err\<close>, a panic, or a loop that never ends), the state-passing
  combinators that stand for sequencing and \<open>?\<close>, a weakest-precondition calculus for them, the
  alignment arithmetic on natural numbers, and little-endian bytes.

  Addresses and sizes (\<open>u32\<close>, \<open>usize\<close>) are naturals. A subtraction that underflows, an index
  out of range and an \<open>unwrap\<close> of \<open>None\<close> are the outcome \<open>Panic\<close>, as in a build with
  overflow checks. Values on which the code computes bit by bit are words of their width.
\<close>

unbundle bit_operations_syntax

section \<open>Machine integers\<close>

type_synonym u8 = "8 word"
type_synonym u16 = "16 word"
type_synonym u32 = "32 word"

abbreviation u16_MAX :: nat where "u16_MAX \<equiv> 65535"
abbreviation u32_MAX :: nat where "u32_MAX \<equiv> 4294967295"

section \<open>Outcomes and state passing\<close>

text \<open>
  \<open>Ok\<close> and \<open>Err\<close> are the constructors of Rust's \<open>Result\<close>; \<open>Panic\<close> is an unwinding or
  aborting panic, \<open>Diverge\<close> a loop that does not end.
\<close>

datatype ('e, 'a) outcome = Ok 'a | Err 'e | Panic | Diverge

type_synonym ('s, 'e, 'a) m = "'s \<Rightarrow> ('e, 'a) outcome \<times> 's"

definition ret :: "'a \<Rightarrow> ('s, 'e, 'a) m" where
  "ret a = (\<lambda>s. (Ok a, s))"

definition fail :: "'e \<Rightarrow> ('s, 'e, 'a) m" where
  "fail e = (\<lambda>s. (Err e, s))"

definition panic :: "('s, 'e, 'a) m" where
  "panic = (\<lambda>s. (Panic, s))"

definition diverge :: "('s, 'e, 'a) m" where
  "diverge = (\<lambda>s. (Diverge, s))"

text \<open>Sequencing with the early return of \<open>?\<close>: the state reached so far is kept on an error.\<close>

definition bnd :: "('s, 'e, 'a) m \<Rightarrow> ('a \<Rightarrow> ('s, 'e, 'b) m) \<Rightarrow> ('s, 'e, 'b) m" where
  "bnd x f = (\<lambda>s. case x s of
      (Ok a, s') \<Rightarrow> f a s'
    | (Err e, s') \<Rightarrow> (Err e, s')
    | (Panic, s') \<Rightarrow> (Panic, s')
    | (Diverge, s') \<Rightarrow> (Diverge, s'))"

definition sq :: "('s, 'e, 'a) m \<Rightarrow> ('s, 'e, 'b) m \<Rightarrow> ('s, 'e, 'b) m" where
  "sq x y = bnd x (\<lambda>_. y)"

definition gets :: "('s \<Rightarrow> 'a) \<Rightarrow> ('s, 'e, 'a) m" where
  "gets f = (\<lambda>s. (Ok (f s), s))"

definition modify :: "('s \<Rightarrow> 's) \<Rightarrow> ('s, 'e, unit) m" where
  "modify f = (\<lambda>s. (Ok (), f s))"

text \<open>Looking at a \<open>Result\<close> as a value, as \<open>match\<close> on it does.\<close>

definition attempt :: "('s, 'e, 'a) m \<Rightarrow> ('s, 'f, 'e + 'a) m" where
  "attempt x = (\<lambda>s. case x s of
      (Ok a, s') \<Rightarrow> (Ok (Inr a), s')
    | (Err e, s') \<Rightarrow> (Ok (Inl e), s')
    | (Panic, s') \<Rightarrow> (Panic, s')
    | (Diverge, s') \<Rightarrow> (Diverge, s'))"

text \<open>\<open>map_err\<close>, and the lifting of an outcome that does not touch the state.\<close>

definition map_err :: "('e \<Rightarrow> 'f) \<Rightarrow> ('e, 'a) outcome \<Rightarrow> ('f, 'a) outcome" where
  "map_err g r = (case r of Ok a \<Rightarrow> Ok a | Err e \<Rightarrow> Err (g e) | Panic \<Rightarrow> Panic | Diverge \<Rightarrow> Diverge)"

definition lift_outcome :: "('e, 'a) outcome \<Rightarrow> ('s, 'e, 'a) m" where
  "lift_outcome r = (\<lambda>s. (r, s))"

text \<open>A debug assertion, an index check, a checked subtraction.\<close>

definition assert_that :: "bool \<Rightarrow> ('s, 'e, unit) m" where
  "assert_that b = (if b then ret () else panic)"

definition checked_minus :: "nat \<Rightarrow> nat \<Rightarrow> ('s, 'e, nat) m" where
  "checked_minus a b = (if b \<le> a then ret (a - b) else panic)"

text \<open>An operation of a part of the state: \<open>get\<close> reads the part, \<open>put\<close> writes it back.\<close>

definition zoom :: "('t \<Rightarrow> 's) \<Rightarrow> ('s \<Rightarrow> 't \<Rightarrow> 't) \<Rightarrow> ('s, 'e, 'a) m \<Rightarrow> ('t, 'e, 'a) m" where
  "zoom get put x = (\<lambda>t. case x (get t) of (r, s') \<Rightarrow> (r, put s' t))"

text \<open>
  A computation with a local object beside the state (an iterator): lifting one that does not see
  the object, and running with an object that is dropped at the end.
\<close>

definition lift_local :: "('s, 'e, 'a) m \<Rightarrow> ('s \<times> 'i, 'e, 'a) m" where
  "lift_local x = (\<lambda>(s, i). case x s of (r, s') \<Rightarrow> (r, (s', i)))"

definition with_local :: "'i \<Rightarrow> ('s \<times> 'i, 'e, 'a) m \<Rightarrow> ('s, 'e, 'a) m" where
  "with_local i x = (\<lambda>s. case x (s, i) of (r, (s', _)) \<Rightarrow> (r, s'))"

lemma bnd_cong [fundef_cong]:
  assumes "x s = x' s'"
    and "\<And>a t. x' s' = (Ok a, t) \<Longrightarrow> f a t = f' a t"
    and "s = s'"
  shows "bnd x f s = bnd x' f' s'"
  using assms by (auto simp: bnd_def split: prod.splits outcome.splits)

lemma sq_cong [fundef_cong]:
  assumes "x s = x' s'"
    and "\<And>a t. x' s' = (Ok a, t) \<Longrightarrow> y t = y' t"
    and "s = s'"
  shows "sq x y s = sq x' y' s'"
  using assms by (auto simp: sq_def intro: bnd_cong)

section \<open>Weakest preconditions\<close>

text \<open>
  \<open>wp x Q E s\<close>: run from \<open>s\<close>, \<open>x\<close> ends, does not panic, and its value satisfies \<open>Q\<close> or its
  error satisfies \<open>E\<close>, in the state it leaves. So a \<open>wp\<close> fact is a statement of total
  correctness that rules out panics and endless loops.
\<close>

definition wp :: "('s, 'e, 'a) m \<Rightarrow> ('a \<Rightarrow> 's \<Rightarrow> bool) \<Rightarrow> ('e \<Rightarrow> 's \<Rightarrow> bool) \<Rightarrow> 's \<Rightarrow> bool" where
  "wp x Q E s = (case x s of
      (Ok a, s') \<Rightarrow> Q a s'
    | (Err e, s') \<Rightarrow> E e s'
    | (Panic, _) \<Rightarrow> False
    | (Diverge, _) \<Rightarrow> False)"

text \<open>The error part of a specification of a computation that does not fail.\<close>

abbreviation no_err :: "'e \<Rightarrow> 's \<Rightarrow> bool" where
  "no_err \<equiv> (\<lambda>_ _. False)"

named_theorems wp_simps \<open>weakest preconditions of the combinators\<close>

lemma wp_ret [wp_simps, simp]: "wp (ret a) Q E = Q a"
  by (simp add: wp_def ret_def fun_eq_iff)

lemma wp_fail [wp_simps, simp]: "wp (fail e) Q E = E e"
  by (simp add: wp_def fail_def fun_eq_iff)

lemma wp_panic [wp_simps, simp]: "wp panic Q E s = False"
  by (simp add: wp_def panic_def)

lemma wp_diverge [wp_simps, simp]: "wp diverge Q E s = False"
  by (simp add: wp_def diverge_def)

lemma wp_bnd [wp_simps, simp]: "wp (bnd x f) Q E = wp x (\<lambda>a. wp (f a) Q E) E"
  by (auto simp: wp_def bnd_def fun_eq_iff split: prod.splits outcome.splits)

lemma wp_sq [wp_simps, simp]: "wp (sq x y) Q E = wp x (\<lambda>_. wp y Q E) E"
  by (simp add: sq_def)

lemma wp_gets [wp_simps, simp]: "wp (gets f) Q E s = Q (f s) s"
  by (simp add: wp_def gets_def)

lemma wp_modify [wp_simps, simp]: "wp (modify f) Q E s = Q () (f s)"
  by (simp add: wp_def modify_def)

lemma wp_attempt [wp_simps, simp]:
  "wp (attempt x) Q E s = wp x (\<lambda>a. Q (Inr a)) (\<lambda>e. Q (Inl e)) s"
  by (auto simp: wp_def attempt_def split: prod.splits outcome.splits)

lemma wp_assert_that [wp_simps, simp]: "wp (assert_that b) Q E s \<longleftrightarrow> b \<and> Q () s"
  by (simp add: assert_that_def)

lemma wp_checked_minus [wp_simps, simp]:
  "wp (checked_minus a b) Q E s \<longleftrightarrow> b \<le> a \<and> Q (a - b) s"
  by (simp add: checked_minus_def)

lemma wp_zoom [wp_simps, simp]:
  "wp (zoom get put x) Q E t = wp x (\<lambda>a s'. Q a (put s' t)) (\<lambda>e s'. E e (put s' t)) (get t)"
  by (auto simp: wp_def zoom_def split: prod.splits outcome.splits)

lemma wp_lift_local [wp_simps, simp]:
  "wp (lift_local x) Q E t = wp x (\<lambda>a s'. Q a (s', snd t)) (\<lambda>e s'. E e (s', snd t)) (fst t)"
  by (auto simp: wp_def lift_local_def split: prod.splits outcome.splits)

lemma wp_with_local [wp_simps, simp]:
  "wp (with_local i x) Q E s = wp x (\<lambda>a t. Q a (fst t)) (\<lambda>e t. E e (fst t)) (s, i)"
  by (auto simp: wp_def with_local_def split: prod.splits outcome.splits)

lemma wp_if [wp_simps]: "wp (if b then x else y) Q E s = (if b then wp x Q E s else wp y Q E s)"
  by simp

lemma wp_mono:
  assumes "wp x Q E s"
    and "\<And>a s'. Q a s' \<Longrightarrow> Q' a s'" and "\<And>e s'. E e s' \<Longrightarrow> E' e s'"
  shows "wp x Q' E' s"
  using assms by (auto simp: wp_def split: prod.splits outcome.splits)

lemma wp_Ok_D: "wp x Q no_err s \<Longrightarrow> \<exists>a s'. x s = (Ok a, s') \<and> Q a s'"
  by (auto simp: wp_def split: prod.splits outcome.splits)

lemma wp_run_D:
  "wp x Q E s \<Longrightarrow> x s = (Ok a, s') \<Longrightarrow> Q a s'" "wp x Q E s \<Longrightarrow> x s = (Err e, s') \<Longrightarrow> E e s'"
  "wp x Q E s \<Longrightarrow> x s \<noteq> (Panic, s')" "wp x Q E s \<Longrightarrow> x s \<noteq> (Diverge, s')"
  by (auto simp: wp_def)

lemma wp_OkI: "x s = (Ok a, s') \<Longrightarrow> Q a s' \<Longrightarrow> wp x Q E s"
  by (simp add: wp_def)

lemma wp_conj:
  "wp x Q E s \<Longrightarrow> wp x Q' E' s \<Longrightarrow> wp x (\<lambda>a s'. Q a s' \<and> Q' a s') (\<lambda>e s'. E e s' \<and> E' e s') s"
  by (auto simp: wp_def split: prod.splits outcome.splits)

text \<open>What a run that returned says about its parts, for termination proofs.\<close>

lemma bnd_Ok_iff:
  "bnd x f s = (Ok b, s'') \<longleftrightarrow> (\<exists>a s'. x s = (Ok a, s') \<and> f a s' = (Ok b, s''))"
  by (auto simp: bnd_def split: prod.splits outcome.splits)

lemma bnd_Err_iff:
  "bnd x f s = (Err e, s'') \<longleftrightarrow>
     x s = (Err e, s'') \<or> (\<exists>a s'. x s = (Ok a, s') \<and> f a s' = (Err e, s''))"
  by (auto simp: bnd_def split: prod.splits outcome.splits)

lemma ret_Ok_iff [simp]: "ret a s = (r, s') \<longleftrightarrow> r = Ok a \<and> s' = s"
  by (auto simp: ret_def)

lemma fail_iff [simp]: "fail e s = (r, s') \<longleftrightarrow> r = Err e \<and> s' = s"
  by (auto simp: fail_def)

lemma panic_iff [simp]: "panic s = (r, s') \<longleftrightarrow> r = Panic \<and> s' = s"
  by (auto simp: panic_def)

lemma gets_iff [simp]: "gets f s = (r, s') \<longleftrightarrow> r = Ok (f s) \<and> s' = s"
  by (auto simp: gets_def)

lemma modify_iff [simp]: "modify f s = (r, s') \<longleftrightarrow> r = Ok () \<and> s' = f s"
  by (auto simp: modify_def)

section \<open>Alignment arithmetic\<close>

text \<open>Rust's \<open>next_multiple_of\<close> and rounding down, on naturals.\<close>

definition next_multiple_of :: "nat \<Rightarrow> nat \<Rightarrow> nat" where
  "next_multiple_of v w = (if v mod w = 0 then v else v + (w - v mod w))"

lemma next_multiple_of_ge: "v \<le> next_multiple_of v w"
  by (simp add: next_multiple_of_def)

lemma next_multiple_of_dvd: "0 < w \<Longrightarrow> w dvd next_multiple_of v w"
proof -
  assume w: "0 < w"
  have "v + (w - v mod w) = (v div w) * w + w"
    using w div_mult_mod_eq [of v w] mod_less_divisor [OF w, of v] by linarith
  then show ?thesis by (auto simp: next_multiple_of_def mod_eq_0_iff_dvd)
qed

lemma next_multiple_of_less: "0 < w \<Longrightarrow> next_multiple_of v w < v + w"
  by (simp add: next_multiple_of_def)

lemma next_multiple_of_le: "next_multiple_of v w \<le> v + w"
  by (simp add: next_multiple_of_def)

lemma next_multiple_of_0 [simp]: "next_multiple_of 0 w = 0"
  by (simp add: next_multiple_of_def)

lemma next_multiple_of_id: "w dvd v \<Longrightarrow> next_multiple_of v w = v"
  by (simp add: next_multiple_of_def)

lemma next_multiple_of_least:
  assumes "w dvd m" and "v \<le> m"
  shows "next_multiple_of v w \<le> m"
proof (cases "v mod w = 0")
  case True
  then show ?thesis using assms(2) by (simp add: next_multiple_of_def)
next
  case False
  then have w: "0 < w" using assms by (cases "w = 0") auto
  obtain k where m: "m = w * k" using assms(1) by blast
  have v: "v = w * (v div w) + v mod w" by simp
  have "w * (v div w) < w * k" using v False assms(2) m by linarith
  then have "v div w < k" using w by simp
  then have "w * (v div w) + w \<le> w * k"
    by (metis add.commute mult_Suc_right Suc_leI mult_le_mono2)
  moreover have "v + (w - v mod w) = w * (v div w) + w"
    using v mod_less_divisor [OF w, of v] by linarith
  ultimately show ?thesis using False m by (simp add: next_multiple_of_def)
qed

section \<open>Positions on a ring\<close>

lemma ring_inj:
  fixes n :: nat
  assumes "(y + i) mod n = (y + j) mod n" "i \<le> j" "j < i + n"
  shows "i = j"
proof -
  have "n dvd (y + j) - (y + i)"
    using assms(1,2) by (metis add_le_cancel_left mod_eq_dvd_iff_nat)
  then have "n dvd j - i" by simp
  then show ?thesis using assms(2,3) by (cases "j = i") (auto dest: dvd_imp_le)
qed

lemma ring_inj_iff:
  fixes n :: nat
  assumes "i < j + n" "j < i + n"
  shows "(y + i) mod n = (y + j) mod n \<longleftrightarrow> i = j"
  using ring_inj [of y i n j] ring_inj [of y j n i] assms by (metis nat_le_linear)

section \<open>Words\<close>

lemma word_xor_left_cancel [simp]: "(a :: 'a::len word) XOR b = a XOR c \<longleftrightarrow> b = c"
proof
  assume "a XOR b = a XOR c"
  then have "a XOR (a XOR b) = a XOR (a XOR c)" by simp
  then show "b = c" by (simp add: xor.assoc [symmetric])
qed simp

lemma word_xor_right_cancel [simp]: "(b :: 'a::len word) XOR a = c XOR a \<longleftrightarrow> b = c"
  by (metis xor.commute word_xor_left_cancel)

lemma word_not_inject [simp]: "NOT (a :: 'a::len word) = NOT b \<longleftrightarrow> a = b"
  by (metis bit.double_compl)

lemma ucast_byte_inject [simp]:
  fixes b b' :: u8
  assumes "8 \<le> LENGTH('a::len)"
  shows "(ucast b :: 'a word) = ucast b' \<longleftrightarrow> b = b'"
proof
  assume eq: "(ucast b :: 'a word) = ucast b'"
  show "b = b'"
  proof (rule bit_word_eqI)
    fix n assume "n < LENGTH(8)"
    then have "n < LENGTH('a)" using assms by simp
    with arg_cong [OF eq, of "\<lambda>w. bit w n"] show "bit b n = bit b' n" by (simp add: bit_simps)
  qed
qed simp

section \<open>Little-endian bytes\<close>

definition to_le_bytes :: "nat \<Rightarrow> 'a::len word \<Rightarrow> u8 list" where
  "to_le_bytes n w = map (\<lambda>i. ucast (drop_bit (8 * i) w)) [0..<n]"

fun from_le_bytes :: "u8 list \<Rightarrow> 'a::len word" where
  "from_le_bytes [] = 0"
| "from_le_bytes (b # bs) = ucast b OR push_bit 8 (from_le_bytes bs)"

lemma length_to_le_bytes [simp]: "length (to_le_bytes n w) = n"
  by (simp add: to_le_bytes_def)

lemma to_le_bytes_Suc: "to_le_bytes (Suc n) w = ucast w # to_le_bytes n (drop_bit 8 w)"
  by (simp add: to_le_bytes_def upt_conv_Cons map_Suc_upt [symmetric] drop_bit_drop_bit add.commute
      del: upt_Suc map_Suc_upt)

lemma from_to_le_bytes_take:
  fixes w :: "'a::len word"
  shows "from_le_bytes (to_le_bytes n w) = take_bit (8 * n) w"
proof (induction n arbitrary: w)
  case 0
  then show ?case by (simp add: to_le_bytes_def)
next
  case (Suc n)
  show ?case
    by (rule bit_word_eqI)
      (auto simp: to_le_bytes_Suc Suc bit_simps)
qed

lemma from_to_le_bytes:
  fixes w :: "'a::len word"
  assumes "LENGTH('a) \<le> 8 * n"
  shows "from_le_bytes (to_le_bytes n w) = w"
  using assms by (simp add: from_to_le_bytes_take take_bit_word_eq_self)

section \<open>Slices\<close>

text \<open>\<open>sub_list a n xs\<close>: the bytes \<open>xs[a..a + n]\<close>; \<open>overwrite a ys xs\<close> copies \<open>ys\<close> to offset \<open>a\<close>.\<close>

definition sub_list :: "nat \<Rightarrow> nat \<Rightarrow> 'a list \<Rightarrow> 'a list" where
  "sub_list a n xs = take n (drop a xs)"

definition overwrite :: "nat \<Rightarrow> 'a list \<Rightarrow> 'a list \<Rightarrow> 'a list" where
  "overwrite a ys xs = take a xs @ ys @ drop (a + length ys) xs"

lemma length_sub_list [simp]: "a + n \<le> length xs \<Longrightarrow> length (sub_list a n xs) = n"
  by (simp add: sub_list_def)

lemma length_overwrite [simp]: "a + length ys \<le> length xs \<Longrightarrow> length (overwrite a ys xs) = length xs"
  by (simp add: overwrite_def)

lemma sub_list_0 [simp]: "sub_list a 0 xs = []"
  by (simp add: sub_list_def)

lemma sub_list_append_exact:
  "length p = a \<Longrightarrow> length m = n \<Longrightarrow> sub_list a n (p @ m @ s) = m"
  by (simp add: sub_list_def)

lemma overwrite_append_exact:
  "length p = a \<Longrightarrow> length old = length ys \<Longrightarrow> overwrite a ys (p @ old @ s) = p @ ys @ s"
  by (simp add: overwrite_def)

lemma nth_sub_list [simp]: "a + n \<le> length xs \<Longrightarrow> i < n \<Longrightarrow> sub_list a n xs ! i = xs ! (a + i)"
  by (simp add: sub_list_def)

lemma nth_overwrite:
  assumes "a + length ys \<le> length xs" "i < length xs"
  shows "overwrite a ys xs ! i = (if a \<le> i \<and> i < a + length ys then ys ! (i - a) else xs ! i)"
  using assms by (auto simp: overwrite_def nth_append min_def)

end
