(* ===== verification/NorFlash.thy ===== *)
theory NorFlash
  imports Prelude
begin

text \<open>
  The flash driver. \<open>NorFlash\<close> and \<open>MultiwriteNorFlash\<close> are traits of the third-party crate
  \<open>embedded-storage-async\<close>; the storage is generic in them. Here a driver is a record of its three
  size constants and its three operations on a driver state, an argument of every definition that
  uses it, and the contract of the traits is a locale: \<open>mem\<close> reads the bytes the chip holds and
  \<open>inv\<close> is what the driver keeps of its own state.

  Reads return what the chip holds, erasing sets bytes to \<open>0xFF\<close>, and where the bytes are erased a
  \<open>NorFlash\<close> can be written; a \<open>MultiwriteNorFlash\<close> can be written anywhere, which leaves the logical
  AND of the old bytes and the new ones. Aligned operations inside the chip succeed. As in the code
  only the operations that erase items in place need the second trait. Theorems that need the chip assume the contract; the mock
  flash of the repository is shown to satisfy it in \<open>MockFlash\<close>.
\<close>

section \<open>Drivers\<close>

record ('s, 'e) nor_flash =
  READ_SIZE :: nat
  WRITE_SIZE :: nat
  ERASE_SIZE :: nat
  nf_read :: "nat \<Rightarrow> nat \<Rightarrow> ('s, 'e, u8 list) m"
  nf_write :: "nat \<Rightarrow> u8 list \<Rightarrow> ('s, 'e, unit) m"
  nf_erase :: "nat \<Rightarrow> nat \<Rightarrow> ('s, 'e, unit) m"

text \<open>\<open>NorFlashExt::WORD_SIZE\<close>: the larger of the read and the write size, and its assertion.\<close>

definition assert_read_write_sizes :: "nat \<Rightarrow> nat \<Rightarrow> bool" where
  "assert_read_write_sizes write_size read_size \<longleftrightarrow> read_size dvd write_size \<or> write_size dvd read_size"

definition WORD_SIZE :: "('s, 'e) nor_flash \<Rightarrow> nat" where
  "WORD_SIZE F = (if WRITE_SIZE F > READ_SIZE F then WRITE_SIZE F else READ_SIZE F)"

text \<open>The biggest word size supported.\<close>

definition MAX_WORD_SIZE :: nat where
  "MAX_WORD_SIZE = 32"

lemma READ_SIZE_le_WORD_SIZE: "READ_SIZE F \<le> WORD_SIZE F"
  by (simp add: WORD_SIZE_def)

lemma WORD_SIZE_dvd:
  assumes "assert_read_write_sizes (WRITE_SIZE F) (READ_SIZE F)"
    and "0 < READ_SIZE F" "0 < WRITE_SIZE F"
  shows "READ_SIZE F dvd WORD_SIZE F" "WRITE_SIZE F dvd WORD_SIZE F"
proof -
  consider "READ_SIZE F dvd WRITE_SIZE F" | "WRITE_SIZE F dvd READ_SIZE F"
    using assms(1) by (auto simp: assert_read_write_sizes_def)
  then have "READ_SIZE F dvd WORD_SIZE F \<and> WRITE_SIZE F dvd WORD_SIZE F"
    using assms(2,3) by cases (auto simp: WORD_SIZE_def dest: dvd_imp_le)
  then show "READ_SIZE F dvd WORD_SIZE F" "WRITE_SIZE F dvd WORD_SIZE F" by simp_all
qed

section \<open>The contract\<close>

text \<open>What a write leaves: bits can only be cleared.\<close>

definition program :: "nat \<Rightarrow> u8 list \<Rightarrow> u8 list \<Rightarrow> u8 list" where
  "program a bs mem = overwrite a (map2 (AND) (sub_list a (length bs) mem) bs) mem"

definition erased :: "nat \<Rightarrow> u8 list" where
  "erased n = replicate n 0xFF"

locale nor_flash =
  fixes F :: "('s, 'e) nor_flash"
    and inv :: "'s \<Rightarrow> bool"
    and mem :: "'s \<Rightarrow> u8 list"
  assumes read_pos: "0 < READ_SIZE F"
    and write_pos: "0 < WRITE_SIZE F"
    and erase_pos: "0 < ERASE_SIZE F"
    and sizes: "assert_read_write_sizes (WRITE_SIZE F) (READ_SIZE F)"
    and word_dvd_erase: "WORD_SIZE F dvd ERASE_SIZE F"
    and read_bytes: "\<lbrakk>inv s; READ_SIZE F dvd a; READ_SIZE F dvd n; 0 < n; a + n \<le> length (mem s)\<rbrakk> \<Longrightarrow>
      wp (nf_read F a n) (\<lambda>bs s'. bs = sub_list a n (mem s) \<and> inv s' \<and> mem s' = mem s) no_err s"
    and erase_bytes: "\<lbrakk>inv s; ERASE_SIZE F dvd a; ERASE_SIZE F dvd b; a \<le> b; b \<le> length (mem s)\<rbrakk> \<Longrightarrow>
      wp (nf_erase F a b) (\<lambda>_ s'. inv s' \<and> mem s' = overwrite a (erased (b - a)) (mem s)) no_err s"
    and write_erased: "\<lbrakk>inv s; WRITE_SIZE F dvd a; WRITE_SIZE F dvd length bs; bs \<noteq> [];
      a + length bs \<le> length (mem s); sub_list a (length bs) (mem s) = erased (length bs)\<rbrakk> \<Longrightarrow>
      wp (nf_write F a bs) (\<lambda>_ s'. inv s' \<and> mem s' = program a bs (mem s)) no_err s"

locale multiwrite_nor_flash = nor_flash +
  assumes write_bytes: "\<lbrakk>inv s; WRITE_SIZE F dvd a; WRITE_SIZE F dvd length bs; bs \<noteq> [];
      a + length bs \<le> length (mem s)\<rbrakk> \<Longrightarrow>
      wp (nf_write F a bs) (\<lambda>_ s'. inv s' \<and> mem s' = program a bs (mem s)) no_err s"

context nor_flash
begin

lemma word_pos: "0 < WORD_SIZE F"
  using read_pos READ_SIZE_le_WORD_SIZE [of F] by linarith

lemmas word_multiples = WORD_SIZE_dvd [OF sizes read_pos write_pos]

lemma word_le_erase: "WORD_SIZE F \<le> ERASE_SIZE F"
  using word_dvd_erase erase_pos by (rule dvd_imp_le)

end

section \<open>Programming erased bytes\<close>

lemma length_erased [simp]: "length (erased n) = n"
  by (simp add: erased_def)

lemma length_program [simp]:
  "a + length bs \<le> length mem \<Longrightarrow> length (program a bs mem) = length mem"
  by (simp add: program_def)

lemma and_255 [simp]: "255 AND (b :: u8) = b"
proof -
  have eq: "(255 :: u8) = - 1" by simp
  show ?thesis unfolding eq by simp
qed

lemma map2_and_erased: "map2 (AND) (erased (length bs)) bs = bs"
  by (rule nth_equalityI) (simp_all add: erased_def)

lemma map2_and_self: "map2 (AND) bs bs = (bs :: u8 list)"
  by (rule nth_equalityI) simp_all

lemma program_append:
  assumes "length p = a" "length old = length bs"
  shows "program a bs (p @ old @ s) = p @ map2 (AND) old bs @ s"
  using assms by (simp add: program_def sub_list_append_exact overwrite_append_exact)

lemma program_blank:
  assumes "length p = a" "length bs = n"
  shows "program a bs (p @ erased n @ s) = p @ bs @ s"
  using assms map2_and_erased [of bs] by (simp add: program_append)

lemma erased_append: "erased (m + n) = erased m @ erased n"
  by (simp add: erased_def replicate_add)

lemma nth_program:
  assumes "a + length bs \<le> length mem" "i < length mem"
  shows "program a bs mem ! i
    = (if a \<le> i \<and> i < a + length bs then (mem ! i) AND (bs ! (i - a)) else mem ! i)"
  using assms by (auto simp: program_def nth_overwrite)

lemma program_Cons:
  assumes "a + length (b # bs) \<le> length mem"
  shows "program (Suc a) bs (mem[a := (mem ! a) AND b]) = program a (b # bs) mem"
  using assms by (intro nth_equalityI) (auto simp: nth_program nth_list_update nth_Cons')

lemma program_append2:
  assumes "a + length (xs @ ys) \<le> length m"
  shows "program (a + length xs) ys (program a xs m) = program a (xs @ ys) m"
  using assms by (intro nth_equalityI) (auto simp: nth_program nth_append)

end
