(* ===== verification/Layout.thy ===== *)
theory Layout
  imports NorFlash
begin

text \<open>
  Where things are: the address arithmetic of \<open>src/src/lib.rs\<close>, the states of a page, the header of
  an item and the places it implies (\<open>src/src/item.rs\<close>), and the checks of \<open>MapConfig::try_new\<close>
  and \<open>QueueConfig::try_new\<close>. A flash range is the pair of its start and its exclusive end.

  Addresses are naturals: on a range that ends far enough below \<open>2^32\<close> no sum the code forms
  leaves \<open>u32\<close> (\<open>item_addresses_fit_u32\<close>). \<open>calculate_page_index\<close> is only asked for addresses
  at or after the start of the range; below it the code panics.
\<close>

section \<open>Alignment and pages\<close>

type_synonym flash_range = "nat \<times> nat"

definition round_up_to_alignment :: "('s, 'e) nor_flash \<Rightarrow> nat \<Rightarrow> nat" where
  "round_up_to_alignment F value = next_multiple_of value (WORD_SIZE F)"

definition round_down_to_alignment :: "('s, 'e) nor_flash \<Rightarrow> nat \<Rightarrow> nat" where
  "round_down_to_alignment F value = (value div WORD_SIZE F) * WORD_SIZE F"

definition calculate_page_address :: "('s, 'e) nor_flash \<Rightarrow> flash_range \<Rightarrow> nat \<Rightarrow> nat" where
  "calculate_page_address F rng page_index = fst rng + ERASE_SIZE F * page_index"

definition calculate_page_end_address :: "('s, 'e) nor_flash \<Rightarrow> flash_range \<Rightarrow> nat \<Rightarrow> nat" where
  "calculate_page_end_address F rng page_index = fst rng + ERASE_SIZE F * (page_index + 1)"

definition calculate_page_index :: "('s, 'e) nor_flash \<Rightarrow> flash_range \<Rightarrow> nat \<Rightarrow> nat" where
  "calculate_page_index F rng address = (address - fst rng) div ERASE_SIZE F"

definition calculate_page_size :: "('s, 'e) nor_flash \<Rightarrow> nat" where
  "calculate_page_size F = ERASE_SIZE F - WORD_SIZE F * 2"

text \<open>\<open>page_count\<close>, \<open>get_pages\<close>, \<open>next_page\<close> and \<open>previous_page\<close> of \<open>GenericStorage\<close>.\<close>

definition page_count :: "('s, 'e) nor_flash \<Rightarrow> flash_range \<Rightarrow> nat" where
  "page_count F rng = max ((snd rng - fst rng) div ERASE_SIZE F) 1"

definition get_pages :: "('s, 'e) nor_flash \<Rightarrow> flash_range \<Rightarrow> nat \<Rightarrow> nat list" where
  "get_pages F rng starting_page_index =
     map (\<lambda>index. (index + starting_page_index) mod page_count F rng) [0..<page_count F rng]"

definition next_page :: "('s, 'e) nor_flash \<Rightarrow> flash_range \<Rightarrow> nat \<Rightarrow> nat" where
  "next_page F rng page_index = (page_index + 1) mod page_count F rng"

definition previous_page :: "('s, 'e) nor_flash \<Rightarrow> flash_range \<Rightarrow> nat \<Rightarrow> nat" where
  "previous_page F rng page_index =
     (if 1 \<le> page_index then page_index - 1 else page_count F rng - 1)"

text \<open>The state of a page.\<close>

datatype page_state = Closed | PartialOpen | Open

definition is_closed :: "page_state \<Rightarrow> bool" where
  "is_closed s \<longleftrightarrow> s = Closed"

definition is_partial_open :: "page_state \<Rightarrow> bool" where
  "is_partial_open s \<longleftrightarrow> s = PartialOpen"

definition is_open :: "page_state \<Rightarrow> bool" where
  "is_open s \<longleftrightarrow> s = Open"

definition MARKER :: u8 where
  "MARKER = 0"

section \<open>Item headers\<close>

record item_header =
  ih_length :: u16
  ih_crc :: "u32 option"

definition ItemHeader_LENGTH :: nat where
  "ItemHeader_LENGTH = 8"

definition data_address :: "('s, 'e) nor_flash \<Rightarrow> nat \<Rightarrow> nat" where
  "data_address F address = address + round_up_to_alignment F ItemHeader_LENGTH"

definition next_item_address :: "('s, 'e) nor_flash \<Rightarrow> item_header \<Rightarrow> nat \<Rightarrow> nat" where
  "next_item_address F h address =
     data_address F address + round_up_to_alignment F (unat (ih_length h))"

definition available_data_bytes :: "('s, 'e) nor_flash \<Rightarrow> nat \<Rightarrow> nat option" where
  "available_data_bytes F total_available =
     (let data_start = data_address F 0; data_end = round_down_to_alignment F total_available
      in if data_start \<le> data_end then Some (data_end - data_start) else None)"

definition item_overhead_size :: "('s, 'e) nor_flash \<Rightarrow> nat" where
  "item_overhead_size F = data_address F 0"

section \<open>Configurations\<close>

text \<open>
  A configuration is the flash range it holds. The subtraction of the two ends panics when they
  are the wrong way round; \<open>new\<close> panics where \<open>try_new\<close> gives \<open>None\<close>.
\<close>

definition config_try_new :: "('s, 'e) nor_flash \<Rightarrow> nat \<Rightarrow> nat \<Rightarrow> flash_range \<Rightarrow> (unit, flash_range option) outcome" where
  "config_try_new F min_pages min_words rng =
     (if \<not> ERASE_SIZE F dvd fst rng then Ok None
      else if \<not> ERASE_SIZE F dvd snd rng then Ok None
      else if snd rng < fst rng then Panic
      else if snd rng - fst rng < ERASE_SIZE F * min_pages then Ok None
      else if ERASE_SIZE F < WORD_SIZE F * min_words then Ok None
      else if WORD_SIZE F > MAX_WORD_SIZE then Ok None
      else Ok (Some rng))"

definition map_config_try_new :: "('s, 'e) nor_flash \<Rightarrow> flash_range \<Rightarrow> (unit, flash_range option) outcome" where
  "map_config_try_new F rng = config_try_new F 2 3 rng"

definition queue_config_try_new :: "('s, 'e) nor_flash \<Rightarrow> flash_range \<Rightarrow> (unit, flash_range option) outcome" where
  "queue_config_try_new F rng = config_try_new F 1 4 rng"

definition config_expect :: "(unit, flash_range option) outcome \<Rightarrow> (unit, flash_range) outcome" where
  "config_expect r = (case r of Ok (Some rng) \<Rightarrow> Ok rng | Ok None \<Rightarrow> Panic
     | Err e \<Rightarrow> Err e | Panic \<Rightarrow> Panic | Diverge \<Rightarrow> Diverge)"

definition map_config_new :: "('s, 'e) nor_flash \<Rightarrow> flash_range \<Rightarrow> (unit, flash_range) outcome" where
  "map_config_new F rng = config_expect (map_config_try_new F rng)"

definition queue_config_new :: "('s, 'e) nor_flash \<Rightarrow> flash_range \<Rightarrow> (unit, flash_range) outcome" where
  "queue_config_new F rng = config_expect (queue_config_try_new F rng)"

section \<open>Lemmas on addresses\<close>

lemma round_up_ge: "v \<le> round_up_to_alignment F v"
  by (simp add: round_up_to_alignment_def next_multiple_of_ge)

lemma round_up_0 [simp]: "round_up_to_alignment F 0 = 0"
  by (simp add: round_up_to_alignment_def)

lemma round_up_dvd: "0 < WORD_SIZE F \<Longrightarrow> WORD_SIZE F dvd round_up_to_alignment F v"
  by (simp add: round_up_to_alignment_def next_multiple_of_dvd)

lemma round_up_id: "WORD_SIZE F dvd v \<Longrightarrow> round_up_to_alignment F v = v"
  by (simp add: round_up_to_alignment_def next_multiple_of_id)

lemma round_down_dvd: "WORD_SIZE F dvd round_down_to_alignment F v"
  by (simp add: round_down_to_alignment_def)

lemma round_down_le: "round_down_to_alignment F v \<le> v"
  by (simp add: round_down_to_alignment_def)

lemma round_down_less: "0 < WORD_SIZE F \<Longrightarrow> v < round_down_to_alignment F v + WORD_SIZE F"
  unfolding round_down_to_alignment_def
  by (metis add.commute div_mult_mod_eq mod_less_divisor nat_add_left_cancel_less)

lemma round_down_greatest:
  assumes "WORD_SIZE F dvd m" "m \<le> v"
  shows "m \<le> round_down_to_alignment F v"
  using assms unfolding round_down_to_alignment_def
  by (metis div_le_mono dvd_div_mult_self mult_le_mono1)

lemma round_down_up:
  assumes "0 < WORD_SIZE F"
  shows "round_up_to_alignment F v = round_down_to_alignment F v \<or>
    round_up_to_alignment F v = round_down_to_alignment F v + WORD_SIZE F"
proof -
  have "v = round_down_to_alignment F v + v mod WORD_SIZE F"
    by (simp add: round_down_to_alignment_def)
  then show ?thesis
    using mod_less_divisor [OF assms, of v]
    by (auto simp: round_up_to_alignment_def next_multiple_of_def)
qed

lemma data_address_gt: "address + 8 \<le> data_address F address"
  using round_up_ge [of ItemHeader_LENGTH F] by (simp add: data_address_def ItemHeader_LENGTH_def)

lemma next_item_address_gt: "address < next_item_address F h address"
  using data_address_gt [of address F] by (simp add: next_item_address_def)

lemma data_address_add: "data_address F (a + b) = a + data_address F b"
  by (simp add: data_address_def)

lemma next_item_address_add: "next_item_address F h (a + b) = a + next_item_address F h b"
  by (simp add: next_item_address_def data_address_add)

end
