(* ===== verification/PageStatesCache.thy ===== *)
theory PageStatesCache
  imports Layout
begin

text \<open>
  \<open>src/src/cache/page_states.rs\<close>: the cache of page states, absent or an array with one optional
  state per page. The interface is the trait \<open>PageStatesCache\<close>; its contract says that a cached
  answer is the state last noticed for that page.
\<close>

datatype page_states_cache =
    UncachedPageStates
  | CachedPageStates "page_state option list"

fun ps_get_page_state :: "page_states_cache \<Rightarrow> nat \<Rightarrow> page_state option" where
  "ps_get_page_state UncachedPageStates page_index = None"
| "ps_get_page_state (CachedPageStates pages) page_index =
     (if page_index < length pages then pages ! page_index else None)"

fun ps_notice_page_state :: "page_states_cache \<Rightarrow> nat \<Rightarrow> page_state \<Rightarrow> page_states_cache" where
  "ps_notice_page_state UncachedPageStates page_index new_state = UncachedPageStates"
| "ps_notice_page_state (CachedPageStates pages) page_index new_state =
     (if page_index < length pages then CachedPageStates (pages[page_index := Some new_state])
      else CachedPageStates pages)"

fun ps_invalidate :: "page_states_cache \<Rightarrow> page_states_cache" where
  "ps_invalidate UncachedPageStates = UncachedPageStates"
| "ps_invalidate (CachedPageStates pages) = CachedPageStates (map (\<lambda>_. None) pages)"

section \<open>The contract\<close>

locale page_states =
  fixes get :: "'c \<Rightarrow> nat \<Rightarrow> page_state option"
    and notice :: "'c \<Rightarrow> nat \<Rightarrow> page_state \<Rightarrow> 'c"
    and invalidate :: "'c \<Rightarrow> 'c"
  assumes get_notice_same: "get (notice c i s) i = Some t \<Longrightarrow> t = s"
    and get_notice_other: "j \<noteq> i \<Longrightarrow> get (notice c i s) j = get c j"
    and get_invalidate: "get (invalidate c) i = None"
begin

text \<open>A cache agrees with the actual states when every cached answer is right.\<close>

lemma notice_agrees:
  assumes "\<And>i t. get c i = Some t \<Longrightarrow> actual i = t"
    and "get (notice c i s) j = Some t"
  shows "(actual(i := s)) j = t"
proof (cases "j = i")
  case True
  then show ?thesis using get_notice_same [of c i s t] assms(2) by simp
next
  case False
  then show ?thesis using assms by (simp add: get_notice_other)
qed

lemma invalidate_agrees: "get (invalidate c) i = Some t \<Longrightarrow> actual i = t"
  by (simp add: get_invalidate)

end

interpretation psc: page_states ps_get_page_state ps_notice_page_state ps_invalidate
proof
  fix c i s t j
  show "ps_get_page_state (ps_notice_page_state c i s) i = Some t \<Longrightarrow> t = s"
    by (cases c) (auto split: if_splits)
  show "j \<noteq> i \<Longrightarrow> ps_get_page_state (ps_notice_page_state c i s) j = ps_get_page_state c j"
    by (cases c) auto
  show "ps_get_page_state (ps_invalidate c) i = None"
    by (cases c) auto
qed

lemma ps_get_notice_in_range:
  "i < length pages \<Longrightarrow>
   ps_get_page_state (ps_notice_page_state (CachedPageStates pages) i s) i = Some s"
  by simp

end
