(* ===== verification/PagePointersCache.thy ===== *)
theory PagePointersCache
  imports Layout
begin

text \<open>
  \<open>src/src/cache/page_pointers.rs\<close>: per page the address of the first item that is not erased
  and of the first free spot. An entry is a \<open>NonZeroU32\<close>, so 0 is never stored. The contract
  follows the two pointers through the items written and erased on the pages.
\<close>

datatype page_pointers_cache =
    UncachedPagePointers
  | CachedPagePointers (after_erased_pointers: "nat option list")
      (after_written_pointers: "nat option list")

definition non_zero :: "nat \<Rightarrow> nat option" where
  "non_zero n = (if n = 0 then None else Some n)"

fun pp_first_item_after_erased :: "page_pointers_cache \<Rightarrow> nat \<Rightarrow> nat option" where
  "pp_first_item_after_erased UncachedPagePointers page_index = None"
| "pp_first_item_after_erased (CachedPagePointers erased_ptrs written_ptrs) page_index =
     (if page_index < length erased_ptrs then erased_ptrs ! page_index else None)"

fun pp_first_item_after_written :: "page_pointers_cache \<Rightarrow> nat \<Rightarrow> nat option" where
  "pp_first_item_after_written UncachedPagePointers page_index = None"
| "pp_first_item_after_written (CachedPagePointers erased_ptrs written_ptrs) page_index =
     (if page_index < length written_ptrs then written_ptrs ! page_index else None)"

text \<open>Only the furthest written item counts.\<close>

fun pp_notice_item_written ::
  "('s, 'e) nor_flash \<Rightarrow> flash_range \<Rightarrow> nat \<Rightarrow> item_header \<Rightarrow> page_pointers_cache \<Rightarrow> page_pointers_cache"
where
  "pp_notice_item_written F rng item_address h UncachedPagePointers = UncachedPagePointers"
| "pp_notice_item_written F rng item_address h (CachedPagePointers erased_ptrs written_ptrs) =
     (let page_index = calculate_page_index F rng item_address;
          next_address = next_item_address F h item_address
      in case pp_first_item_after_written (CachedPagePointers erased_ptrs written_ptrs) page_index of
           Some first_free \<Rightarrow>
             if next_address \<le> first_free then CachedPagePointers erased_ptrs written_ptrs
             else CachedPagePointers erased_ptrs (written_ptrs[page_index := non_zero next_address])
         | None \<Rightarrow> CachedPagePointers erased_ptrs (written_ptrs[page_index := non_zero next_address]))"

text \<open>Either the item we point to or the first item on the page.\<close>

fun pp_notice_item_erased ::
  "('s, 'e) nor_flash \<Rightarrow> flash_range \<Rightarrow> nat \<Rightarrow> item_header \<Rightarrow> page_pointers_cache \<Rightarrow> page_pointers_cache"
where
  "pp_notice_item_erased F rng item_address h UncachedPagePointers = UncachedPagePointers"
| "pp_notice_item_erased F rng item_address h (CachedPagePointers erased_ptrs written_ptrs) =
     (let page_index = calculate_page_index F rng item_address;
          next_unerased_item =
            (case pp_first_item_after_erased (CachedPagePointers erased_ptrs written_ptrs) page_index of
               Some a \<Rightarrow> a
             | None \<Rightarrow> calculate_page_address F rng page_index + WORD_SIZE F)
      in if item_address = next_unerased_item
         then CachedPagePointers
                (erased_ptrs[page_index := non_zero (next_item_address F h item_address)]) written_ptrs
         else CachedPagePointers erased_ptrs written_ptrs)"

fun pp_notice_page_state :: "nat \<Rightarrow> page_state \<Rightarrow> page_pointers_cache \<Rightarrow> page_pointers_cache" where
  "pp_notice_page_state page_index new_state UncachedPagePointers = UncachedPagePointers"
| "pp_notice_page_state page_index new_state (CachedPagePointers erased_ptrs written_ptrs) =
     (if is_open new_state
      then CachedPagePointers (erased_ptrs[page_index := None]) (written_ptrs[page_index := None])
      else CachedPagePointers erased_ptrs written_ptrs)"

fun pp_invalidate :: "page_pointers_cache \<Rightarrow> page_pointers_cache" where
  "pp_invalidate UncachedPagePointers = UncachedPagePointers"
| "pp_invalidate (CachedPagePointers erased_ptrs written_ptrs) =
     CachedPagePointers (map (\<lambda>_. None) erased_ptrs) (map (\<lambda>_. None) written_ptrs)"

section \<open>The contract\<close>

text \<open>
  The laws the storage relies on, per page: an open page has no pointers; writing an item moves
  the free-spot pointer of its page to the end of the item, unless it is further already, and
  touches nothing else; erasing the first unerased item moves the other pointer past it.
\<close>

locale page_pointers =
  fixes F :: "('s, 'e) nor_flash" and rng :: flash_range
    and erased_ptr :: "'c \<Rightarrow> nat \<Rightarrow> nat option"
    and written_ptr :: "'c \<Rightarrow> nat \<Rightarrow> nat option"
    and item_written :: "nat \<Rightarrow> item_header \<Rightarrow> 'c \<Rightarrow> 'c"
    and item_erased :: "nat \<Rightarrow> item_header \<Rightarrow> 'c \<Rightarrow> 'c"
    and page_noticed :: "nat \<Rightarrow> page_state \<Rightarrow> 'c \<Rightarrow> 'c"
    and invalidate :: "'c \<Rightarrow> 'c"
  assumes written_own:
      "written_ptr (item_written a h c) (calculate_page_index F rng a) = Some b \<Longrightarrow>
       b = next_item_address F h a \<or>
       written_ptr c (calculate_page_index F rng a) = Some b \<and> next_item_address F h a \<le> b"
    and written_other:
      "i \<noteq> calculate_page_index F rng a \<Longrightarrow> written_ptr (item_written a h c) i = written_ptr c i"
    and written_erased: "erased_ptr (item_written a h c) = erased_ptr c"
    and erased_own:
      "erased_ptr (item_erased a h c) (calculate_page_index F rng a) = Some b \<Longrightarrow>
       erased_ptr c (calculate_page_index F rng a) = Some b \<or>
       b = next_item_address F h a \<and>
         (case erased_ptr c (calculate_page_index F rng a) of Some p \<Rightarrow> p
          | None \<Rightarrow> calculate_page_address F rng (calculate_page_index F rng a) + WORD_SIZE F) = a"
    and erased_other:
      "i \<noteq> calculate_page_index F rng a \<Longrightarrow> erased_ptr (item_erased a h c) i = erased_ptr c i"
    and erased_written: "written_ptr (item_erased a h c) = written_ptr c"
    and opened: "written_ptr (page_noticed i Open c) i = None" "erased_ptr (page_noticed i Open c) i = None"
    and opened_other:
      "j \<noteq> i \<Longrightarrow> written_ptr (page_noticed i s c) j = written_ptr c j"
      "j \<noteq> i \<Longrightarrow> erased_ptr (page_noticed i s c) j = erased_ptr c j"
    and not_opened:
      "s \<noteq> Open \<Longrightarrow> written_ptr (page_noticed i s c) = written_ptr c"
      "s \<noteq> Open \<Longrightarrow> erased_ptr (page_noticed i s c) = erased_ptr c"
    and invalidated: "written_ptr (invalidate c) i = None" "erased_ptr (invalidate c) i = None"
begin

text \<open>The free-spot pointer never points before an item that was written to its page.\<close>

lemma written_past:
  "written_ptr (item_written a h c) (calculate_page_index F rng a) = Some b \<Longrightarrow>
   next_item_address F h a \<le> b"
  using written_own by fastforce

end

interpretation ppc: page_pointers F rng pp_first_item_after_erased pp_first_item_after_written
  "pp_notice_item_written F rng" "pp_notice_item_erased F rng" pp_notice_page_state pp_invalidate
  for F :: "('s, 'e) nor_flash" and rng
proof
  fix a b i j :: nat and h c s
  let ?p = "calculate_page_index F rng a"
  show "pp_first_item_after_written (pp_notice_item_written F rng a h c) ?p = Some b \<Longrightarrow>
      b = next_item_address F h a \<or>
      pp_first_item_after_written c ?p = Some b \<and> next_item_address F h a \<le> b"
    by (cases c) (auto simp: Let_def non_zero_def nth_list_update split: if_splits option.splits)
  show "i \<noteq> ?p \<Longrightarrow> pp_first_item_after_written (pp_notice_item_written F rng a h c) i
      = pp_first_item_after_written c i"
    by (cases c) (auto simp: Let_def split: if_splits option.splits)
  show "pp_first_item_after_erased (pp_notice_item_written F rng a h c) = pp_first_item_after_erased c"
    by (cases c) (auto simp: Let_def fun_eq_iff split: if_splits option.splits)
  show "pp_first_item_after_erased (pp_notice_item_erased F rng a h c) ?p = Some b \<Longrightarrow>
       pp_first_item_after_erased c ?p = Some b \<or>
       b = next_item_address F h a \<and>
         (case pp_first_item_after_erased c ?p of Some p \<Rightarrow> p
          | None \<Rightarrow> calculate_page_address F rng ?p + WORD_SIZE F) = a"
    by (cases c) (auto simp: Let_def non_zero_def nth_list_update split: if_splits option.splits)
  show "i \<noteq> ?p \<Longrightarrow> pp_first_item_after_erased (pp_notice_item_erased F rng a h c) i
      = pp_first_item_after_erased c i"
    by (cases c) (auto simp: Let_def split: if_splits option.splits)
  show "pp_first_item_after_written (pp_notice_item_erased F rng a h c) = pp_first_item_after_written c"
    by (cases c) (auto simp: Let_def fun_eq_iff split: if_splits option.splits)
  show "pp_first_item_after_written (pp_notice_page_state i Open c) i = None"
    "pp_first_item_after_erased (pp_notice_page_state i Open c) i = None"
    by (cases c; simp add: is_open_def)+
  show "j \<noteq> i \<Longrightarrow> pp_first_item_after_written (pp_notice_page_state i s c) j = pp_first_item_after_written c j"
    "j \<noteq> i \<Longrightarrow> pp_first_item_after_erased (pp_notice_page_state i s c) j = pp_first_item_after_erased c j"
    by (cases c; simp)+
  show "s \<noteq> Open \<Longrightarrow> pp_first_item_after_written (pp_notice_page_state i s c) = pp_first_item_after_written c"
    "s \<noteq> Open \<Longrightarrow> pp_first_item_after_erased (pp_notice_page_state i s c) = pp_first_item_after_erased c"
    by (cases c; simp add: is_open_def)+
  show "pp_first_item_after_written (pp_invalidate c) i = None"
    "pp_first_item_after_erased (pp_invalidate c) i = None"
    by (cases c; simp)+
qed

end
