(* ===== verification/KeyPointersCache.thy ===== *)
theory KeyPointersCache
  imports Layout
begin

text \<open>
  \<open>src/src/cache/key_pointers.rs\<close>: the cache of key locations, a fifo of bounded length whose
  entry moves to the front when its location is noticed and to the back when it is erased.
  Operations that can panic (a slot count of 0, a location of 0) return an option, \<open>None\<close> the panic.

  The invariant is that no key is cached twice; under it a lookup never returns a location
  other than the one last noticed.
\<close>

datatype 'k key_pointers_cache =
    UncachedKeyPointers
  | CachedKeyPointers "('k \<times> nat) option list"

definition rotate_right_1 :: "'a list \<Rightarrow> 'a list" where
  "rotate_right_1 xs = (if xs = [] then [] else last xs # butlast xs)"

definition move_to_front :: "'a list \<Rightarrow> nat \<Rightarrow> 'a list" where
  "move_to_front data index =
     (if index < length data
      then rotate_right_1 (take (index + 1) data) @ drop (index + 1) data else data)"

definition move_to_back :: "'a list \<Rightarrow> nat \<Rightarrow> 'a list" where
  "move_to_back data index =
     (if index < length data then take index data @ rotate1 (drop index data) else data)"

text \<open>The index of the first element that satisfies a predicate.\<close>

fun position :: "('a \<Rightarrow> bool) \<Rightarrow> 'a list \<Rightarrow> nat option" where
  "position P [] = None"
| "position P (x # xs) = (if P x then Some 0 else map_option Suc (position P xs))"

definition has_key :: "'k \<Rightarrow> ('k \<times> nat) option \<Rightarrow> bool" where
  "has_key key entry = (case entry of Some (iter_key, _) \<Rightarrow> key = iter_key | None \<Rightarrow> False)"

fun kp_key_location :: "'k key_pointers_cache \<Rightarrow> 'k \<Rightarrow> nat option" where
  "kp_key_location UncachedKeyPointers key = None"
| "kp_key_location (CachedKeyPointers key_pointers) key =
     (case position (has_key key) key_pointers of
        Some i \<Rightarrow> map_option snd (key_pointers ! i)
      | None \<Rightarrow> None)"

definition insert_front :: "('k \<times> nat) option list \<Rightarrow> 'k \<times> nat \<Rightarrow> ('k \<times> nat) option list option" where
  "insert_front key_pointers value =
     (let len = length key_pointers
      in if len = 0 then None
         else Some (move_to_front (key_pointers[len - 1 := Some value]) (len - 1)))"

fun kp_notice_key_location :: "'k \<Rightarrow> nat \<Rightarrow> 'k key_pointers_cache \<Rightarrow> 'k key_pointers_cache option" where
  "kp_notice_key_location key item_address UncachedKeyPointers = Some UncachedKeyPointers"
| "kp_notice_key_location key item_address (CachedKeyPointers key_pointers) =
     (if item_address = 0 then None
      else case position (has_key key) key_pointers of
        Some existing_index \<Rightarrow>
          Some (CachedKeyPointers
            (move_to_front (key_pointers[existing_index := Some (key, item_address)]) existing_index))
      | None \<Rightarrow> map_option CachedKeyPointers (insert_front key_pointers (key, item_address)))"

fun kp_notice_key_erased :: "'k \<Rightarrow> 'k key_pointers_cache \<Rightarrow> 'k key_pointers_cache" where
  "kp_notice_key_erased key UncachedKeyPointers = UncachedKeyPointers"
| "kp_notice_key_erased key (CachedKeyPointers key_pointers) =
     (case position (has_key key) key_pointers of
        Some existing_index \<Rightarrow>
          CachedKeyPointers (move_to_back (key_pointers[existing_index := None]) existing_index)
      | None \<Rightarrow> CachedKeyPointers key_pointers)"

fun kp_invalidate :: "'k key_pointers_cache \<Rightarrow> 'k key_pointers_cache" where
  "kp_invalidate UncachedKeyPointers = UncachedKeyPointers"
| "kp_invalidate (CachedKeyPointers key_pointers) = CachedKeyPointers (map (\<lambda>_. None) key_pointers)"

section \<open>Moving entries\<close>

lemma move_to_front_eq:
  "i < length xs \<Longrightarrow> move_to_front xs i = xs ! i # take i xs @ drop (Suc i) xs"
  by (simp add: move_to_front_def rotate_right_1_def take_Suc_conv_app_nth)

lemma move_to_back_eq:
  "i < length xs \<Longrightarrow> move_to_back xs i = take i xs @ drop (Suc i) xs @ [xs ! i]"
  by (simp add: move_to_back_def Cons_nth_drop_Suc [symmetric])

lemma position_Some:
  "position P xs = Some i \<Longrightarrow> i < length xs \<and> P (xs ! i) \<and> (\<forall>j < i. \<not> P (xs ! j))"
  by (induction xs arbitrary: i) (auto simp: nth_Cons' less_Suc_eq_0_disj split: if_splits)

lemma position_None: "position P xs = None \<longleftrightarrow> (\<forall>x \<in> set xs. \<not> P x)"
  by (induction xs) auto

section \<open>The entries as a finite set of key locations\<close>

text \<open>The cached pairs, in slot order; the invariant is that their keys are distinct.\<close>

definition entries :: "('k \<times> nat) option list \<Rightarrow> ('k \<times> nat) list" where
  "entries kps = List.map_filter (\<lambda>x. x) kps"

fun kp_ok :: "'k key_pointers_cache \<Rightarrow> bool" where
  "kp_ok UncachedKeyPointers = True"
| "kp_ok (CachedKeyPointers kps) = distinct (map fst (entries kps))"

lemma entries_simps [simp]:
  "entries [] = []" "entries (None # kps) = entries kps" "entries (Some e # kps) = e # entries kps"
  "entries (xs @ ys) = entries xs @ entries ys"
  by (simp_all add: entries_def List.map_filter_def)

lemma set_entries: "set (entries kps) = {e. Some e \<in> set kps}"
  by (auto simp: entries_def List.map_filter_def image_iff) force

lemma key_location_map_of:
  "kp_key_location (CachedKeyPointers kps) key = map_of (entries kps) key"
proof (induction kps)
  case (Cons e kps)
  then show ?case
    by (cases e) (auto simp: has_key_def split: option.splits prod.splits)
qed simp

lemma split_at: "i < length xs \<Longrightarrow> xs = take i xs @ xs ! i # drop (Suc i) xs"
  by (simp add: id_take_nth_drop)

lemma entries_at:
  "i < length kps \<Longrightarrow>
   entries kps = entries (take i kps) @ (case kps ! i of None \<Rightarrow> [] | Some e \<Rightarrow> [e]) @ entries (drop (Suc i) kps)"
  by (subst split_at [of i kps]) (auto split: option.splits)

lemma set_entries_take: "set (entries (take i kps)) \<subseteq> set (entries kps)"
  and set_entries_drop: "set (entries (drop i kps)) \<subseteq> set (entries kps)"
  by (auto simp: set_entries dest: in_set_takeD in_set_dropD)

lemma position_has_key_None:
  "position (has_key key) kps = None \<longleftrightarrow> key \<notin> fst ` set (entries kps)"
proof (induction kps)
  case (Cons e kps)
  then show ?case by (cases e) (auto simp: has_key_def)
qed simp

lemma has_key_iff: "has_key key e \<longleftrightarrow> (\<exists>a. e = Some (key, a))"
  by (auto simp: has_key_def split: option.splits prod.splits)

text \<open>Noticing and erasing, on the cached pairs.\<close>

lemma notice_existing:
  assumes "position (has_key key) kps = Some i"
  shows "entries (move_to_front (kps[i := Some (key, a)]) i)
    = (key, a) # entries (take i kps) @ entries (drop (Suc i) kps)"
  using position_Some [OF assms] by (simp add: move_to_front_eq)

lemma notice_new:
  assumes "kps \<noteq> []"
  shows "insert_front kps e = Some (Some e # butlast kps)"
  using assms by (simp add: insert_front_def Let_def move_to_front_eq butlast_conv_take)

lemma erase_existing:
  assumes "position (has_key key) kps = Some i"
  shows "entries (move_to_back (kps[i := None]) i)
    = entries (take i kps) @ entries (drop (Suc i) kps)"
  using position_Some [OF assms] by (simp add: move_to_back_eq)

lemma without_existing:
  assumes "position (has_key key) kps = Some i" "distinct (map fst (entries kps))"
  shows "distinct (map fst (entries (take i kps) @ entries (drop (Suc i) kps)))"
    and "key \<notin> fst ` set (entries (take i kps) @ entries (drop (Suc i) kps))"
    and "other \<noteq> key \<Longrightarrow>
      map_of (entries (take i kps) @ entries (drop (Suc i) kps)) other = map_of (entries kps) other"
proof -
  from position_Some [OF assms(1)] obtain a where i: "i < length kps" "kps ! i = Some (key, a)"
    by (auto simp: has_key_iff)
  then have e: "entries kps = entries (take i kps) @ (key, a) # entries (drop (Suc i) kps)"
    using entries_at [of i kps] by simp
  show "distinct (map fst (entries (take i kps) @ entries (drop (Suc i) kps)))"
    and "key \<notin> fst ` set (entries (take i kps) @ entries (drop (Suc i) kps))"
    using assms(2) unfolding e by auto
  show "other \<noteq> key \<Longrightarrow>
      map_of (entries (take i kps) @ entries (drop (Suc i) kps)) other = map_of (entries kps) other"
    by (simp add: e map_add_def split: option.splits)
qed

lemma entries_butlast:
  "\<exists>tl. entries kps = entries (butlast kps) @ tl"
proof (cases "kps = []")
  case False
  have "entries kps = entries (butlast kps @ [last kps])" using False by simp
  then show ?thesis unfolding entries_simps by blast
qed simp

section \<open>The contract\<close>

text \<open>
  A lookup right after noticing gives the location noticed; looking up any other key gives what
  it gave before or nothing (its entry may have been pushed out); an erased key is not found.
  So an answer is never stale. \<open>ok\<close> is what every operation keeps of the invariant.
\<close>

locale key_pointers =
  fixes ok :: "'c \<Rightarrow> bool"
    and lookup :: "'c \<Rightarrow> 'k \<Rightarrow> nat option"
    and notice :: "'k \<Rightarrow> nat \<Rightarrow> 'c \<Rightarrow> 'c option"
    and erase :: "'k \<Rightarrow> 'c \<Rightarrow> 'c"
    and invalidate :: "'c \<Rightarrow> 'c"
  assumes notice_ok: "\<lbrakk>ok c; notice k a c = Some c'\<rbrakk> \<Longrightarrow> ok c'"
    and erase_ok: "ok c \<Longrightarrow> ok (erase k c)"
    and invalidate_ok: "ok (invalidate c)"
    and lookup_notice: "\<lbrakk>ok c; notice k a c = Some c'; lookup c' k = Some b\<rbrakk> \<Longrightarrow> b = a"
    and lookup_notice_other:
      "\<lbrakk>ok c; notice k a c = Some c'; j \<noteq> k; lookup c' j = Some b\<rbrakk> \<Longrightarrow> lookup c j = Some b"
    and lookup_erase: "ok c \<Longrightarrow> lookup (erase k c) k = None"
    and lookup_erase_other: "\<lbrakk>ok c; j \<noteq> k\<rbrakk> \<Longrightarrow> lookup (erase k c) j = lookup c j"
    and lookup_invalidate: "lookup (invalidate c) k = None"
begin

text \<open>A cache is sound for the actual locations when every answer it gives is right.\<close>

definition sound :: "'c \<Rightarrow> ('k \<Rightarrow> nat option) \<Rightarrow> bool" where
  "sound c actual \<longleftrightarrow> ok c \<and> (\<forall>k a. lookup c k = Some a \<longrightarrow> actual k = Some a)"

lemma sound_notice:
  assumes "sound c actual" "notice k a c = Some c'"
  shows "sound c' (actual(k \<mapsto> a))"
  unfolding sound_def
proof (intro conjI allI impI)
  show "ok c'" using assms notice_ok [of c k a c'] by (simp add: sound_def)
  fix j b assume "lookup c' j = Some b"
  then show "(actual(k \<mapsto> a)) j = Some b"
    using assms lookup_notice [of c k a c' b] lookup_notice_other [of c k a c' j b]
    by (cases "j = k") (auto simp: sound_def)
qed

lemma sound_erase: "sound c actual \<Longrightarrow> sound (erase k c) (actual(k := None))"
  using erase_ok lookup_erase lookup_erase_other by (auto simp: sound_def)

lemma sound_invalidate: "sound (invalidate c) actual"
  by (simp add: sound_def invalidate_ok lookup_invalidate)

end

lemma kp_notice_cases:
  assumes "kp_notice_key_location key a (CachedKeyPointers kps) = Some c'"
  obtains i where "position (has_key key) kps = Some i"
      "c' = CachedKeyPointers (move_to_front (kps[i := Some (key, a)]) i)"
  | "position (has_key key) kps = None" "kps \<noteq> []"
      "c' = CachedKeyPointers (Some (key, a) # butlast kps)"
proof -
  show thesis
  proof (cases "position (has_key key) kps")
    case None
    then have "kps \<noteq> []" using assms by (auto simp: insert_front_def split: if_splits)
    then show thesis using assms that(2) None notice_new [of kps "(key, a)"] by (simp split: if_splits)
  next
    case (Some i)
    then show thesis using assms that(1) by (simp split: if_splits)
  qed
qed

lemma kp_notice_entries:
  assumes "kp_ok (CachedKeyPointers kps)"
    and "kp_notice_key_location key a (CachedKeyPointers kps) = Some (CachedKeyPointers kps')"
  shows "distinct (map fst (entries kps')) \<and> map_of (entries kps') key = Some a \<and>
    (\<forall>j b. j \<noteq> key \<longrightarrow> map_of (entries kps') j = Some b \<longrightarrow> map_of (entries kps) j = Some b)"
  using assms(2)
proof (cases rule: kp_notice_cases)
  case (1 i)
  have "entries kps' = (key, a) # entries (take i kps) @ entries (drop (Suc i) kps)"
    using 1 notice_existing by simp
  then show ?thesis using without_existing [OF 1(1)] assms(1) by auto
next
  case 2
  obtain tl where tl: "entries kps = entries (butlast kps) @ tl" using entries_butlast by blast
  have "key \<notin> fst ` set (entries kps)" using 2 by (simp add: position_has_key_None)
  then show ?thesis using 2 assms(1) by (auto simp: tl map_add_def split: option.splits)
qed

lemma kp_notice_contract:
  assumes "kp_ok c" "kp_notice_key_location k a c = Some c'"
  shows "kp_ok c' \<and> kp_key_location c' k \<in> {None, Some a} \<and>
    (\<forall>j b. j \<noteq> k \<longrightarrow> kp_key_location c' j = Some b \<longrightarrow> kp_key_location c j = Some b)"
proof (cases c)
  case UncachedKeyPointers
  then show ?thesis using assms by auto
next
  case (CachedKeyPointers kps)
  then have n: "kp_notice_key_location k a (CachedKeyPointers kps) = Some c'" using assms by simp
  then obtain kps' where c': "c' = CachedKeyPointers kps'" by (rule kp_notice_cases) blast+
  show ?thesis
    using kp_notice_entries [of kps k a kps'] n assms(1) unfolding c' CachedKeyPointers
    by (simp add: key_location_map_of del: kp_key_location.simps kp_notice_key_location.simps)
qed

lemma kp_erase_contract:
  assumes "kp_ok c"
  shows "kp_ok (kp_notice_key_erased k c) \<and> kp_key_location (kp_notice_key_erased k c) k = None \<and>
    (\<forall>j. j \<noteq> k \<longrightarrow> kp_key_location (kp_notice_key_erased k c) j = kp_key_location c j)"
proof (cases c)
  case (CachedKeyPointers kps)
  show ?thesis
  proof (cases "position (has_key k) kps")
    case None
    then show ?thesis using assms
      by (simp add: CachedKeyPointers)
  next
    case (Some i)
    have d: "distinct (map fst (entries kps))" using assms CachedKeyPointers by simp
    show ?thesis
      unfolding CachedKeyPointers kp_notice_key_erased.simps Some option.case key_location_map_of
        kp_ok.simps erase_existing [OF Some]
      using without_existing [OF Some d] by (metis map_of_eq_None_iff set_map)
  qed
qed auto

lemma entries_invalidated [simp]: "entries (map (\<lambda>_. None) kps) = []"
  by (induction kps) auto

interpretation kpc: key_pointers kp_ok kp_key_location kp_notice_key_location kp_notice_key_erased
  kp_invalidate
proof
  fix c c' :: "'k key_pointers_cache" and k j a b
  show "\<lbrakk>kp_ok c; kp_notice_key_location k a c = Some c'\<rbrakk> \<Longrightarrow> kp_ok c'"
    using kp_notice_contract [of c k a c'] by blast
  show "\<lbrakk>kp_ok c; kp_notice_key_location k a c = Some c'; kp_key_location c' k = Some b\<rbrakk> \<Longrightarrow> b = a"
    using kp_notice_contract [of c k a c'] by auto
  show "\<lbrakk>kp_ok c; kp_notice_key_location k a c = Some c'; j \<noteq> k; kp_key_location c' j = Some b\<rbrakk> \<Longrightarrow>
      kp_key_location c j = Some b"
    using kp_notice_contract [of c k a c'] by blast
  show "kp_ok (kp_invalidate c)"
    by (cases c) auto
  show "kp_key_location (kp_invalidate c) k = None"
    by (cases c) (auto simp: key_location_map_of simp del: kp_key_location.simps(2))
  show "kp_ok c \<Longrightarrow> kp_ok (kp_notice_key_erased k c)"
    "kp_ok c \<Longrightarrow> kp_key_location (kp_notice_key_erased k c) k = None"
    "\<lbrakk>kp_ok c; j \<noteq> k\<rbrakk> \<Longrightarrow> kp_key_location (kp_notice_key_erased k c) j = kp_key_location c j"
    using kp_erase_contract [of c k] by blast+
qed

text \<open>Noticing a location never fails on a cache with slots, and the new entry is at the front.\<close>

lemma kp_notice_front:
  assumes "kps \<noteq> []" "0 < a"
  shows "\<exists>rest. kp_notice_key_location key a (CachedKeyPointers kps)
    = Some (CachedKeyPointers (Some (key, a) # rest)) \<and> length rest = length kps - 1"
proof (cases "position (has_key key) kps")
  case None
  then show ?thesis using assms by (simp add: notice_new)
next
  case (Some i)
  then show ?thesis using assms position_Some [OF Some] by (simp add: move_to_front_eq)
qed

section \<open>Sequences of notices\<close>

text \<open>What the storage tells the cache, and what is true after it.\<close>

datatype 'k key_event = Located 'k nat | Gone 'k | Forgotten

fun tell :: "'k key_pointers_cache \<Rightarrow> 'k key_event list \<Rightarrow> 'k key_pointers_cache option" where
  "tell c [] = Some c"
| "tell c (Located k a # events) = Option.bind (kp_notice_key_location k a c) (\<lambda>c'. tell c' events)"
| "tell c (Gone k # events) = tell (kp_notice_key_erased k c) events"
| "tell c (Forgotten # events) = tell (kp_invalidate c) events"

fun locations :: "('k \<Rightarrow> nat option) \<Rightarrow> 'k key_event list \<Rightarrow> 'k \<Rightarrow> nat option" where
  "locations m [] = m"
| "locations m (Located k a # events) = locations (m(k \<mapsto> a)) events"
| "locations m (Gone k # events) = locations (m(k := None)) events"
| "locations m (Forgotten # events) = locations m events"

lemma tell_sound:
  "tell c events = Some c' \<Longrightarrow> kpc.sound c m \<Longrightarrow> kpc.sound c' (locations m events)"
proof (induction events arbitrary: c m)
  case (Cons event events)
  then show ?case
    by (cases event) (auto simp: bind_eq_Some_conv intro: kpc.sound_notice kpc.sound_erase
      simp del: kp_notice_key_erased.simps simp: kpc.sound_invalidate)
qed simp

lemma entries_new [simp]: "entries (replicate n None) = []"
  by (induction n) simp_all

text \<open>
  C35: the key cache is never stale. Whatever is noticed, erased and forgotten, in any order and
  however many keys compete for its slots, a location it answers is the one last noticed for the key,
  and never that of an erased one.
\<close>

theorem key_cache_never_stale:
  assumes "tell (CachedKeyPointers (replicate n None)) events = Some c"
    and "kp_key_location c key = Some a"
  shows "locations (\<lambda>_. None) events key = Some a"
proof -
  have "kpc.sound (CachedKeyPointers (replicate n None) :: 'a key_pointers_cache) (\<lambda>_. None)"
    unfolding kpc.sound_def using entries_new [of n]
    by (simp add: key_location_map_of del: kp_key_location.simps)
  from tell_sound [OF assms(1) this] show ?thesis using assms(2) by (simp add: kpc.sound_def)
qed

lemma key_cache_never_stale_witness:
  "locations (\<lambda>_. None) [Located 1 8, Located 2 16, Gone 1, Located 3 24, Located 2 (40 :: nat)] (2 :: nat) = Some 40"
  by (rule key_cache_never_stale [where n = 2 and c = "CachedKeyPointers [Some (2, 40), Some (3, 24)]"]) code_simp+

end
