(* ===== verification/Cache.thy ===== *)
theory Cache
  imports PageStatesCache PagePointersCache KeyPointersCache
begin

text \<open>
  \<open>src/src/cache/mod.rs\<close> with \<open>array_impl.rs\<close> and \<open>heap_impl.rs\<close>: a cache is a dirt tracker and the
  three sub-caches, any of which can be absent. The array and the heap variants differ only in
  where the slots live, so one record stands for both and for \<open>NoCache\<close>; the provided methods
  of the traits are functions on the record.
\<close>

record 'k cache =
  dirt_tracker :: "bool option"
  page_states :: page_states_cache
  page_pointers :: page_pointers_cache
  key_pointers :: "'k key_pointers_cache"

definition NoCache_new :: "'k cache" where
  "NoCache_new = \<lparr> dirt_tracker = None, page_states = UncachedPageStates,
     page_pointers = UncachedPagePointers, key_pointers = UncachedKeyPointers \<rparr>"

definition PageStateCache_new :: "nat \<Rightarrow> 'k cache" where
  "PageStateCache_new pages = \<lparr> dirt_tracker = Some False,
     page_states = CachedPageStates (replicate pages None),
     page_pointers = UncachedPagePointers, key_pointers = UncachedKeyPointers \<rparr>"

definition PagePointerCache_new :: "nat \<Rightarrow> 'k cache" where
  "PagePointerCache_new pages = \<lparr> dirt_tracker = Some False,
     page_states = CachedPageStates (replicate pages None),
     page_pointers = CachedPagePointers (replicate pages None) (replicate pages None),
     key_pointers = UncachedKeyPointers \<rparr>"

definition KeyPointerCache_new :: "nat \<Rightarrow> nat \<Rightarrow> 'k cache" where
  "KeyPointerCache_new pages keys = \<lparr> dirt_tracker = Some False,
     page_states = CachedPageStates (replicate pages None),
     page_pointers = CachedPagePointers (replicate pages None) (replicate pages None),
     key_pointers = CachedKeyPointers (replicate keys None) \<rparr>"

section \<open>The dirt tracker\<close>

definition is_dirty :: "'k cache \<Rightarrow> bool" where
  "is_dirty c = (case dirt_tracker c of Some d \<Rightarrow> d | None \<Rightarrow> False)"

definition mark_dirty :: "'k cache \<Rightarrow> 'k cache" where
  "mark_dirty c = c\<lparr>dirt_tracker := map_option (\<lambda>_. True) (dirt_tracker c)\<rparr>"

definition unmark_dirty :: "'k cache \<Rightarrow> 'k cache" where
  "unmark_dirty c = c\<lparr>dirt_tracker := map_option (\<lambda>_. False) (dirt_tracker c)\<rparr>"

definition invalidate_cache_state :: "'k cache \<Rightarrow> 'k cache" where
  "invalidate_cache_state c = (unmark_dirty c)\<lparr>
     page_states := ps_invalidate (page_states c),
     page_pointers := pp_invalidate (page_pointers c),
     key_pointers := kp_invalidate (key_pointers c) \<rparr>"

section \<open>Questions and notices\<close>

definition cached_page_state :: "'k cache \<Rightarrow> nat \<Rightarrow> page_state option" where
  "cached_page_state c page_index = ps_get_page_state (page_states c) page_index"

definition notice_page_state :: "nat \<Rightarrow> page_state \<Rightarrow> bool \<Rightarrow> 'k cache \<Rightarrow> 'k cache" where
  "notice_page_state page_index new_state dirty c =
     (let c = (if dirty then mark_dirty c else c)
      in c\<lparr> page_states := ps_notice_page_state (page_states c) page_index new_state,
            page_pointers := pp_notice_page_state page_index new_state (page_pointers c) \<rparr>)"

definition first_item_after_erased :: "'k cache \<Rightarrow> nat \<Rightarrow> nat option" where
  "first_item_after_erased c page_index = pp_first_item_after_erased (page_pointers c) page_index"

definition first_item_after_written :: "'k cache \<Rightarrow> nat \<Rightarrow> nat option" where
  "first_item_after_written c page_index = pp_first_item_after_written (page_pointers c) page_index"

definition notice_item_written ::
  "('s, 'e) nor_flash \<Rightarrow> flash_range \<Rightarrow> nat \<Rightarrow> item_header \<Rightarrow> 'k cache \<Rightarrow> 'k cache"
where
  "notice_item_written F rng item_address h c =
     (mark_dirty c)\<lparr> page_pointers := pp_notice_item_written F rng item_address h (page_pointers c) \<rparr>"

definition notice_item_erased ::
  "('s, 'e) nor_flash \<Rightarrow> flash_range \<Rightarrow> nat \<Rightarrow> item_header \<Rightarrow> 'k cache \<Rightarrow> 'k cache"
where
  "notice_item_erased F rng item_address h c =
     (mark_dirty c)\<lparr> page_pointers := pp_notice_item_erased F rng item_address h (page_pointers c) \<rparr>"

definition key_location :: "'k cache \<Rightarrow> 'k \<Rightarrow> nat option" where
  "key_location c key = kp_key_location (key_pointers c) key"

text \<open>\<open>None\<close> is the panic of an empty key cache or of a location 0.\<close>

definition notice_key_location :: "'k \<Rightarrow> nat \<Rightarrow> bool \<Rightarrow> 'k cache \<Rightarrow> 'k cache option" where
  "notice_key_location key item_address dirty c =
     (let c = (if dirty then mark_dirty c else c)
      in map_option (\<lambda>kps. c\<lparr> key_pointers := kps \<rparr>)
           (kp_notice_key_location key item_address (key_pointers c)))"

definition notice_key_erased :: "'k \<Rightarrow> 'k cache \<Rightarrow> 'k cache" where
  "notice_key_erased key c =
     (mark_dirty c)\<lparr> key_pointers := kp_notice_key_erased key (key_pointers c) \<rparr>"

section \<open>Lemmas\<close>

named_theorems cache_simps \<open>how the questions see the notices\<close>

lemma dirty_simps [cache_simps, simp]:
  "\<not> is_dirty (unmark_dirty c)"
  "\<not> is_dirty (invalidate_cache_state c)"
  "\<not> is_dirty NoCache_new" "\<not> is_dirty (PageStateCache_new n)"
  "\<not> is_dirty (PagePointerCache_new n)" "\<not> is_dirty (KeyPointerCache_new n m)"
  "is_dirty (mark_dirty c) \<longleftrightarrow> dirt_tracker c \<noteq> None"
  by (auto simp: is_dirty_def unmark_dirty_def mark_dirty_def invalidate_cache_state_def NoCache_new_def
      PageStateCache_new_def PagePointerCache_new_def KeyPointerCache_new_def split: option.splits)

lemma notice_dirty [cache_simps, simp]:
  "is_dirty (notice_page_state i s d c) \<longleftrightarrow> is_dirty c \<or> d \<and> dirt_tracker c \<noteq> None"
  "is_dirty (notice_item_written F rng a h c) \<longleftrightarrow> dirt_tracker c \<noteq> None"
  "is_dirty (notice_item_erased F rng a h c) \<longleftrightarrow> dirt_tracker c \<noteq> None"
  by (auto simp: is_dirty_def mark_dirty_def notice_page_state_def notice_item_written_def
      notice_item_erased_def Let_def split: option.splits)

lemma marks_see_nothing [cache_simps, simp]:
  "cached_page_state (mark_dirty c) = cached_page_state c"
  "cached_page_state (unmark_dirty c) = cached_page_state c"
  "first_item_after_erased (mark_dirty c) = first_item_after_erased c"
  "first_item_after_erased (unmark_dirty c) = first_item_after_erased c"
  "first_item_after_written (mark_dirty c) = first_item_after_written c"
  "first_item_after_written (unmark_dirty c) = first_item_after_written c"
  by (auto simp: fun_eq_iff mark_dirty_def unmark_dirty_def cached_page_state_def
      first_item_after_erased_def first_item_after_written_def)

lemma invalidated_knows_nothing [cache_simps, simp]:
  "cached_page_state (invalidate_cache_state c) i = None"
  "first_item_after_erased (invalidate_cache_state c) i = None"
  "first_item_after_written (invalidate_cache_state c) i = None"
  "key_location (invalidate_cache_state c) k = None"
  by (simp_all add: invalidate_cache_state_def cached_page_state_def first_item_after_erased_def
      first_item_after_written_def key_location_def psc.get_invalidate ppc.invalidated
      kpc.lookup_invalidate)

lemma written_sees_no_state [cache_simps, simp]:
  "cached_page_state (notice_item_written F rng a h c) = cached_page_state c"
  "cached_page_state (notice_item_erased F rng a h c) = cached_page_state c"
  "first_item_after_erased (notice_item_written F rng a h c) = first_item_after_erased c"
  "first_item_after_written (notice_item_erased F rng a h c) = first_item_after_written c"
  by (simp_all add: fun_eq_iff notice_item_written_def notice_item_erased_def cached_page_state_def
      mark_dirty_def first_item_after_erased_def first_item_after_written_def
      ppc.written_erased ppc.erased_written)

lemma page_state_after_notice:
  assumes "cached_page_state (notice_page_state i st d c) j = Some x"
  shows "if j = i then x = st else cached_page_state c j = Some x"
  using assms psc.get_notice_same [of "page_states c" i st x] psc.get_notice_other [of j i "page_states c" st]
  by (auto simp: cached_page_state_def notice_page_state_def mark_dirty_def Let_def split: if_splits)

lemma pointers_after_notice [cache_simps, simp]:
  "first_item_after_written (notice_page_state i st d c) j =
     (if st = Open \<and> j = i then None else first_item_after_written c j)"
  "first_item_after_erased (notice_page_state i st d c) j =
     (if st = Open \<and> j = i then None else first_item_after_erased c j)"
  by (cases "st = Open"; cases "j = i";
      simp add: first_item_after_written_def first_item_after_erased_def notice_page_state_def mark_dirty_def
        Let_def ppc.opened ppc.opened_other ppc.not_opened)+

lemma written_after_item [cache_simps]:
  assumes "first_item_after_written (notice_item_written F r a h c) j = Some x"
  shows "if j = calculate_page_index F r a
    then x = next_item_address F h a \<or> first_item_after_written c j = Some x \<and> next_item_address F h a \<le> x
    else first_item_after_written c j = Some x"
  using assms ppc.written_own [of F r a h "page_pointers c" x] ppc.written_other [of j F r a h "page_pointers c"]
  by (auto simp: first_item_after_written_def notice_item_written_def mark_dirty_def split: if_splits)

lemma erased_after_item [cache_simps]:
  assumes "first_item_after_erased (notice_item_erased F r a h c) j = Some x"
  shows "first_item_after_erased c j = Some x \<or> j = calculate_page_index F r a \<and> x = next_item_address F h a
    \<and> (case first_item_after_erased c j of Some p \<Rightarrow> p
       | None \<Rightarrow> calculate_page_address F r j + WORD_SIZE F) = a"
  using assms ppc.erased_own [of F r a h "page_pointers c" x] ppc.erased_other [of j F r a h "page_pointers c"]
  by (cases "j = calculate_page_index F r a")
    (auto simp: first_item_after_erased_def notice_item_erased_def mark_dirty_def)

lemma new_caches_know_nothing [simp]:
  "cached_page_state NoCache_new i = None" "first_item_after_erased NoCache_new i = None"
  "first_item_after_written NoCache_new i = None"
  "cached_page_state (PageStateCache_new n) i = None"
  "first_item_after_erased (PageStateCache_new n) i = None"
  "first_item_after_written (PageStateCache_new n) i = None"
  "cached_page_state (PagePointerCache_new n) i = None"
  "first_item_after_erased (PagePointerCache_new n) i = None"
  "first_item_after_written (PagePointerCache_new n) i = None"
  "cached_page_state (KeyPointerCache_new n m) i = None"
  "first_item_after_erased (KeyPointerCache_new n m) i = None"
  "first_item_after_written (KeyPointerCache_new n m) i = None"
  by (auto simp: NoCache_new_def PageStateCache_new_def PagePointerCache_new_def
      KeyPointerCache_new_def cached_page_state_def first_item_after_erased_def
      first_item_after_written_def)

end
