(* ===== verification/Storage.thy ===== *)
theory Storage
  imports Cache
begin

text \<open>
  \<open>GenericStorage\<close> of \<open>src/src/lib.rs\<close>: the object both the queue and the map are built on, with
  the page state machine. The caller's data buffer, which the operations take as an argument and
  fill, is a field of the state beside the three fields of the struct.
\<close>

section \<open>Errors and state\<close>

datatype serialization_error = BufferTooSmall | InvalidData | InvalidFormat | Custom int

text \<open>The \<open>Error\<close> of the crate, over the error of the flash; backtraces are left out.\<close>

datatype 'e error =
    Storage 'e
  | FullStorage
  | Corrupted
  | LogicBug
  | BufferTooBig
  | BufferTooSmall nat
  | SerializationError serialization_error
  | ItemTooBig

record ('s, 'k) storage =
  flash :: 's
  flash_range :: flash_range
  cache :: "'k cache"
  data_buffer :: "u8 list"

text \<open>A flash operation on the storage, its error wrapped; a change of the cache.\<close>

definition on_flash :: "('s, 'e, 'a) m \<Rightarrow> (('s, 'k) storage, 'e error, 'a) m" where
  "on_flash x = (\<lambda>s. case x (flash s) of (r, f) \<Rightarrow> (map_err Storage r, s\<lparr>flash := f\<rparr>))"

definition on_cache :: "('k cache \<Rightarrow> 'k cache) \<Rightarrow> (('s, 'k) storage, 'e, unit) m" where
  "on_cache f = modify (\<lambda>s. s\<lparr>cache := f (cache s)\<rparr>)"

lemma wp_on_flash [wp_simps, simp]:
  "wp (on_flash x) Q E s = wp x (\<lambda>a f. Q a (s\<lparr>flash := f\<rparr>)) (\<lambda>e f. E (Storage e) (s\<lparr>flash := f\<rparr>)) (flash s)"
  by (auto simp: wp_def on_flash_def map_err_def split: prod.splits outcome.splits)

lemma wp_on_cache [wp_simps, simp]:
  "wp (on_cache f) Q E s = Q () (s\<lparr>cache := f (cache s)\<rparr>)"
  by (simp add: on_cache_def)

text \<open>
  Looping over a list of page indices: \<open>for\<close>, and the search that returns at the first hit.
\<close>

fun for_each :: "'i list \<Rightarrow> ('i \<Rightarrow> ('s, 'e, unit) m) \<Rightarrow> ('s, 'e, unit) m" where
  "for_each [] body = ret ()"
| "for_each (i # is) body = sq (body i) (for_each is body)"

text \<open>A dirty cache is dropped at the start of every public operation.\<close>

definition drop_dirty_cache :: "(('s, 'k) storage, 'e, unit) m" where
  "drop_dirty_cache = bnd (gets (\<lambda>s. is_dirty (cache s))) (\<lambda>dirty.
     if dirty then on_cache invalidate_cache_state else ret ())"

section \<open>The page state machine\<close>

definition erase_all :: "('s, 'e) nor_flash \<Rightarrow> (('s, 'k) storage, 'e error, unit) m" where
  "erase_all F = bnd (gets flash_range) (\<lambda>r. on_flash (nf_erase F (fst r) (snd r)))"

text \<open>
  Half of the bits of the first byte count: a marker is there when at least 4 bits are zero.
\<close>

definition count_zeros :: "u8 \<Rightarrow> nat" where
  "count_zeros b = length (filter (\<lambda>i. \<not> bit b i) [0..<8])"

definition HALF_MARKER_BITS :: nat where
  "HALF_MARKER_BITS = 4"

definition marked :: "u8 list \<Rightarrow> bool" where
  "marked bytes \<longleftrightarrow> sum_list (map count_zeros bytes) \<ge> HALF_MARKER_BITS"

definition get_page_state :: "('s, 'e) nor_flash \<Rightarrow> nat \<Rightarrow> (('s, 'k) storage, 'e error, page_state) m" where
  "get_page_state F page_index =
     bnd (gets (\<lambda>s. cached_page_state (cache s) page_index)) (\<lambda>cached. case cached of
       Some known_state \<Rightarrow> ret known_state
     | None \<Rightarrow>
         bnd (gets (\<lambda>s. calculate_page_address F (flash_range s) page_index)) (\<lambda>page_address.
         sq (assert_that (READ_SIZE F \<le> MAX_WORD_SIZE))
         (bnd (on_flash (nf_read F page_address (READ_SIZE F))) (\<lambda>start_bytes.
          bnd (on_flash (nf_read F (page_address + (ERASE_SIZE F - READ_SIZE F)) (READ_SIZE F))) (\<lambda>end_bytes.
          bnd (case (marked start_bytes, marked end_bytes) of
                 (True, True) \<Rightarrow> ret Closed
               | (True, False) \<Rightarrow> ret PartialOpen
               | (False, True) \<Rightarrow> fail Corrupted
               | (False, False) \<Rightarrow> ret Open) (\<lambda>discovered_state.
          sq (on_cache (notice_page_state page_index discovered_state False))
             (ret discovered_state)))))))"

definition open_page :: "('s, 'e) nor_flash \<Rightarrow> nat \<Rightarrow> (('s, 'k) storage, 'e error, unit) m" where
  "open_page F page_index =
     sq (on_cache (notice_page_state page_index Open True))
     (bnd (gets flash_range) (\<lambda>r.
       on_flash (nf_erase F (calculate_page_address F r page_index)
                            (calculate_page_end_address F r page_index))))"

text \<open>Writing a word of marker bytes.\<close>

definition write_marker :: "('s, 'e) nor_flash \<Rightarrow> nat \<Rightarrow> (('s, 'k) storage, 'e error, unit) m" where
  "write_marker F address =
     sq (assert_that (WORD_SIZE F \<le> MAX_WORD_SIZE))
        (on_flash (nf_write F address (replicate (WORD_SIZE F) MARKER)))"

definition partial_close_page :: "('s, 'e) nor_flash \<Rightarrow> nat \<Rightarrow> (('s, 'k) storage, 'e error, page_state) m" where
  "partial_close_page F page_index =
     bnd (get_page_state F page_index) (\<lambda>current_state.
     if current_state \<noteq> Open then ret current_state
     else
       let new_state = (case current_state of Closed \<Rightarrow> Closed | PartialOpen \<Rightarrow> PartialOpen | Open \<Rightarrow> PartialOpen)
       in sq (on_cache (notice_page_state page_index new_state True))
          (bnd (gets flash_range) (\<lambda>r.
           sq (write_marker F (calculate_page_address F r page_index))
              (ret new_state))))"

definition close_page :: "('s, 'e) nor_flash \<Rightarrow> nat \<Rightarrow> (('s, 'k) storage, 'e error, unit) m" where
  "close_page F page_index =
     bnd (partial_close_page F page_index) (\<lambda>current_state.
     if current_state \<noteq> PartialOpen then ret ()
     else
       sq (on_cache (notice_page_state page_index Closed True))
       (bnd (gets flash_range) (\<lambda>r.
         write_marker F (calculate_page_end_address F r page_index - WORD_SIZE F))))"

section \<open>Searching and repairing\<close>

fun first_page_in :: "('s, 'e) nor_flash \<Rightarrow> page_state \<Rightarrow> nat list \<Rightarrow> (('s, 'k) storage, 'e error, nat option) m" where
  "first_page_in F page_state [] = ret None"
| "first_page_in F page_state (page_index # pages) =
     bnd (get_page_state F page_index) (\<lambda>s.
       if page_state = s then ret (Some page_index) else first_page_in F page_state pages)"

definition find_first_page ::
  "('s, 'e) nor_flash \<Rightarrow> nat \<Rightarrow> page_state \<Rightarrow> (('s, 'k) storage, 'e error, nat option) m"
where
  "find_first_page F starting_page_index page_state =
     bnd (gets (\<lambda>s. get_pages F (flash_range s) starting_page_index)) (first_page_in F page_state)"

text \<open>Only the \<open>Corrupted\<close> error of \<open>get_page_state\<close> leads to a repair; any other is passed over.\<close>

definition try_general_repair :: "('s, 'e) nor_flash \<Rightarrow> (('s, 'k) storage, 'e error, unit) m" where
  "try_general_repair F =
     bnd (gets (\<lambda>s. get_pages F (flash_range s) 0)) (\<lambda>pages.
     for_each pages (\<lambda>page_index.
       bnd (attempt (get_page_state F page_index)) (\<lambda>r. case r of
         Inl Corrupted \<Rightarrow> open_page F page_index
       | _ \<Rightarrow> ret ())))"

text \<open>The macro: one repair and one more try, only on \<open>Corrupted\<close>.\<close>

definition run_with_auto_repair ::
  "('s, 'e error, 'a) m \<Rightarrow> ('s, 'e error, unit) m \<Rightarrow> ('s, 'e error, 'a) m"
where
  "run_with_auto_repair oper repair =
     bnd (attempt oper) (\<lambda>r. case r of
       Inl Corrupted \<Rightarrow> sq repair oper
     | Inl e \<Rightarrow> fail e
     | Inr v \<Rightarrow> ret v)"

lemma wp_run_with_auto_repair:
  assumes "wp oper Q E s" and "\<And>t. \<not> E Corrupted t"
  shows "wp (run_with_auto_repair oper repair) Q E s"
  unfolding run_with_auto_repair_def wp_bnd wp_attempt
  using assms by (auto elim!: wp_mono split: error.split)

text \<open>An operation that reports corruption, is repaired, and then goes through.\<close>

lemma wp_run_repaired:
  assumes "wp oper (\<lambda>_ _. False) (\<lambda>e t. e = Corrupted \<and> P t) s"
    and "\<And>t. P t \<Longrightarrow> wp repair (\<lambda>_. R) E t" and "\<And>t. R t \<Longrightarrow> wp oper Q E t"
  shows "wp (run_with_auto_repair oper repair) Q E s"
  unfolding run_with_auto_repair_def wp_bnd wp_attempt
proof (rule wp_mono [OF assms(1)], goal_cases)
  case (2 e t)
  then have P: "e = Corrupted" "P t" by simp_all
  have "wp repair (\<lambda>_. wp oper Q E) E t" by (rule wp_mono [OF assms(2) [OF P(2)]]) (use assms(3) in simp_all)
  then show ?case by (simp add: P(1))
qed simp

end
