(* ===== verification/Checksum.thy ===== *)
theory Checksum
  imports Prelude
begin

text \<open>
  The two checksums of \<open>src/src/item.rs\<close>: \<open>crc16\<close> protects the length field of an item header
  and \<open>adapted_crc32\<close> the item's data. The lemmas give the values the callers rely on never to
  see (all ones for the length checksum, zero and a first byte of \<open>0x00\<close> or \<open>0xFF\<close> for the
  data checksum) and what the checksums detect: one and two flipped bits in the length and
  its checksum, any corruption of a single data byte.
\<close>

section \<open>Definitions\<close>

definition crc16_step :: "u16 \<Rightarrow> u16" where
  "crc16_step crc =
     (if crc AND 1 = 1 then drop_bit 1 crc XOR 0x1a2e else drop_bit 1 crc)"

definition crc16_byte :: "u16 \<Rightarrow> u8 \<Rightarrow> u16" where
  "crc16_byte crc byte = (crc16_step ^^ 8) (crc XOR ucast byte)"

definition crc16 :: "u8 list \<Rightarrow> u16" where
  "crc16 data =
     (let crc = foldl crc16_byte 0xffff data XOR 0xffff
      in if crc = 0xFFFF then 0xFFFE else crc)"

definition crc32_step :: "u32 \<Rightarrow> u32" where
  "crc32_step crc =
     (let lowest_bit_set = 0 < crc AND 1; crc = drop_bit 1 crc
      in if lowest_bit_set then crc XOR 0x82f63b78 else crc)"

definition crc32_byte :: "u32 \<Rightarrow> u8 \<Rightarrow> u32" where
  "crc32_byte crc byte = (crc32_step ^^ 8) (crc XOR ucast byte)"

definition crc32_with_initial :: "u8 list \<Rightarrow> u32 \<Rightarrow> u32" where
  "crc32_with_initial data initial = NOT (foldl crc32_byte initial data)"

definition crc32 :: "u8 list \<Rightarrow> u32" where
  "crc32 data = crc32_with_initial data 0xEEEEEEEE"

text \<open>The first little-endian byte of a value is its lowest one.\<close>

definition first_le_byte :: "u32 \<Rightarrow> u8" where
  "first_le_byte v = hd (to_le_bytes 4 v)"

definition adapted_crc32 :: "u8 list \<Rightarrow> u32" where
  "adapted_crc32 data =
     (let value = crc32 data
      in if value = 0 then 1
         else if first_le_byte value = 0 \<or> first_le_byte value = 0xFF then value XOR 1
         else value)"

section \<open>The shift registers are linear\<close>

lemma and_1_eq_1_iff: "(x :: 'a::len word) AND 1 = 1 \<longleftrightarrow> bit x 0"
  by (simp add: bit_0 and_one_eq odd_iff_mod_2_eq_one)

lemma crc16_step_alt: "crc16_step x = drop_bit 1 x XOR (if bit x 0 then 0x1a2e else 0)"
  by (simp add: crc16_step_def and_1_eq_1_iff)

lemma crc16_step_xor: "crc16_step (x XOR y) = crc16_step x XOR crc16_step y"
  by (simp add: crc16_step_alt drop_bit_xor bit_xor_iff ac_simps) 

lemma crc16_steps_xor: "(crc16_step ^^ n) (x XOR y) = (crc16_step ^^ n) x XOR (crc16_step ^^ n) y"
  by (induction n) (simp_all add: crc16_step_xor)

lemma crc32_step_alt: "crc32_step x = drop_bit 1 x XOR (if bit x 0 then 0x82f63b78 else 0)"
proof -
  have "0 < x AND 1 \<longleftrightarrow> bit x 0"
    by (simp add: word_greater_zero_iff and_one_eq bit_0 odd_iff_mod_2_eq_one)
  then show ?thesis by (simp add: crc32_step_def)
qed

text \<open>
  The top bit of the data polynomial is set, so the step can be undone: the bit shifted out is
  read back from the top of the result.
\<close>

lemma crc32_step_top: "bit (crc32_step x) 31 = bit x 0"
  using bit_imp_le_length [of x 32] by (auto simp: crc32_step_alt bit_simps)

lemma inj_crc32_step: "inj crc32_step"
proof (rule injI)
  fix x y :: u32
  assume eq: "crc32_step x = crc32_step y"
  then have low: "bit x 0 = bit y 0" by (metis crc32_step_top)
  with eq have d: "drop_bit 1 x = drop_bit 1 y"
    by (simp add: crc32_step_alt del: One_nat_def)
  show "x = y"
  proof (rule bit_word_eqI)
    fix n assume "n < LENGTH(32)"
    have "bit (drop_bit 1 x) (n - 1) = bit (drop_bit 1 y) (n - 1)" using d by simp
    then show "bit x n = bit y n" using low by (cases n) (simp_all add: bit_simps)
  qed
qed

lemma inj_crc32_steps: "inj (crc32_step ^^ n)"
  by (rule inj_fn) (rule inj_crc32_step)

lemma crc32_byte_inj_state: "crc32_byte s b = crc32_byte s' b \<Longrightarrow> s = s'"
  using inj_crc32_steps [THEN injD, of 8 "s XOR ucast b" "s' XOR ucast b"]
  by (simp add: crc32_byte_def)

lemma crc32_byte_inj_byte: "crc32_byte s b = crc32_byte s b' \<Longrightarrow> b = b'"
  using inj_crc32_steps [THEN injD, of 8 "s XOR ucast b" "s XOR ucast b'"]
  by (simp add: crc32_byte_def)

lemma foldl_crc32_byte_inj: "foldl crc32_byte s data = foldl crc32_byte s' data \<Longrightarrow> s = s'"
  by (induction data arbitrary: s s') (auto dest: crc32_byte_inj_state)

lemma crc32_byte_change_detected:
  assumes "b \<noteq> b'"
  shows "crc32 (xs @ b # ys) \<noteq> crc32 (xs @ b' # ys)"
proof
  let ?s = "foldl crc32_byte 0xEEEEEEEE xs"
  assume "crc32 (xs @ b # ys) = crc32 (xs @ b' # ys)"
  then have "foldl crc32_byte (crc32_byte ?s b) ys = foldl crc32_byte (crc32_byte ?s b') ys"
    by (simp add: crc32_def crc32_with_initial_def)
  then have "crc32_byte ?s b = crc32_byte ?s b'" by (rule foldl_crc32_byte_inj)
  then have "b = b'" by (rule crc32_byte_inj_byte)
  with assms show False by simp
qed

section \<open>The values the data checksum never has\<close>

lemma first_le_byte_ucast: "first_le_byte v = ucast v"
  by (simp add: first_le_byte_def to_le_bytes_def upt_conv_Cons)

lemma ucast_xor_1: "(ucast (v XOR 1 :: u32) :: u8) = ucast v XOR 1"
  by (rule bit_word_eqI) (auto simp: bit_simps)

lemma adapted_crc32_first_byte:
  "first_le_byte (adapted_crc32 data) \<noteq> 0" "first_le_byte (adapted_crc32 data) \<noteq> 0xFF"
proof -
  have "(0 :: u8) XOR 1 \<noteq> 0" "(0xFF :: u8) XOR 1 \<noteq> 0" "(0 :: u8) XOR 1 \<noteq> 0xFF" "(0xFF :: u8) XOR 1 \<noteq> 0xFF"
    by simp_all
  then show "first_le_byte (adapted_crc32 data) \<noteq> 0" "first_le_byte (adapted_crc32 data) \<noteq> 0xFF"
    by (auto simp: adapted_crc32_def Let_def first_le_byte_ucast ucast_xor_1 split: if_splits)
qed

lemma adapted_crc32_nonzero [simp]: "adapted_crc32 data \<noteq> 0"
  using adapted_crc32_first_byte(1) [of data] by (auto simp: first_le_byte_ucast)

lemma adapted_crc32_alt:
  "adapted_crc32 data =
     (if first_le_byte (crc32 data) = 0 \<or> first_le_byte (crc32 data) = 0xFF
      then crc32 data XOR 1 else crc32 data)"
  by (auto simp: adapted_crc32_def Let_def first_le_byte_ucast)

text \<open>The adaptation merges two checksums only when they differ in the lowest bit alone.\<close>

lemma adapted_crc32_collision:
  assumes "adapted_crc32 d = adapted_crc32 d'"
  shows "crc32 d = crc32 d' \<or> crc32 d = crc32 d' XOR 1"
proof -
  have "crc32 d XOR 1 = crc32 d' \<longleftrightarrow> crc32 d = crc32 d' XOR 1"
    using word_xor_right_cancel [of "crc32 d" 1 "crc32 d' XOR 1"] by (simp add: xor.assoc)
  then show ?thesis using assms by (auto simp: adapted_crc32_alt split: if_splits)
qed

section \<open>The length checksum\<close>

lemma crc16_not_all_ones [simp]: "crc16 data \<noteq> 0xFFFF"
  by (simp add: crc16_def Let_def)

text \<open>
  The feedback constant has its three top bits clear, so from the third step on the register
  keeps to its lower 13 bits, and the checksum, complemented, starts with three ones.
\<close>

lemma crc16_step_top:
  "\<not> bit (crc16_step x) 15" "bit (crc16_step x) 14 = bit x 15" "bit (crc16_step x) 13 = bit x 14"
  using bit_imp_le_length [of x 16] by (auto simp: crc16_step_alt bit_simps)

lemma crc16_steps_top:
  assumes "3 \<le> k" and "n \<in> {13, 14, 15}" shows "\<not> bit ((crc16_step ^^ k) x) n"
proof -
  have "\<not> bit (crc16_step (crc16_step (crc16_step y))) n" for y
    using assms(2) by (auto simp: crc16_step_top)
  moreover obtain j where "k = Suc (Suc (Suc j))"
    using assms(1) by (metis Suc_le_D numeral_3_eq_3 Suc_le_mono)
  ultimately show ?thesis by simp
qed

lemma crc16_byte_top: "n \<in> {13, 14, 15} \<Longrightarrow> \<not> bit (crc16_byte crc b) n"
  unfolding crc16_byte_def by (rule crc16_steps_top) simp_all

lemma crc16_top_bits_ones:
  assumes "data \<noteq> []" and "n \<in> {13, 14, 15}"
  shows "bit (crc16 data) n"
proof -
  obtain xs b where "data = xs @ [b]" using assms(1) by (metis rev_exhaust)
  moreover have "bit (0xFFFE :: u16) n" "bit (0xFFFF :: u16) n" using assms(2) by auto
  ultimately show ?thesis
    using crc16_byte_top [OF assms(2)] by (simp add: crc16_def Let_def bit_xor_iff)
qed

section \<open>What the length checksum detects\<close>

lemma to_le_bytes_xor:
  fixes x y :: "'a::len word"
  shows "to_le_bytes n (x XOR y) = map2 (XOR) (to_le_bytes n x) (to_le_bytes n y)"
  by (rule nth_equalityI) (auto simp: to_le_bytes_def bit_simps intro!: bit_word_eqI)

lemma crc16_byte_xor: "crc16_byte (s XOR t) (b XOR c) = crc16_byte s b XOR crc16_byte t c"
proof -
  have "(s XOR t) XOR ucast (b XOR c) = (s XOR ucast b) XOR (t XOR (ucast c :: u16))"
    by (rule bit_word_eqI) (auto simp: bit_simps)
  then show ?thesis by (simp add: crc16_byte_def crc16_steps_xor)
qed

lemma foldl_crc16_byte_xor:
  "length bs = length cs \<Longrightarrow>
   foldl crc16_byte (s XOR t) (map2 (XOR) bs cs) = foldl crc16_byte s bs XOR foldl crc16_byte t cs"
  by (induction bs cs arbitrary: s t rule: list_induct2) (simp_all add: crc16_byte_xor)

text \<open>
  The effect of a changed length on the register, and one of the 32 bits of the length field
  and its checksum field, as the change it makes to each.
\<close>

definition crc16_syndrome :: "u16 \<Rightarrow> u16" where
  "crc16_syndrome d = foldl crc16_byte 0 (to_le_bytes 2 d)"

definition header_bit :: "nat \<Rightarrow> u16 \<times> u16" where
  "header_bit i = (if i < 16 then (push_bit i 1, 0) else (0, push_bit (i - 16) 1))"

lemma crc16_syndrome_xor: "crc16_syndrome (c XOR d) = crc16_syndrome c XOR crc16_syndrome d"
  using foldl_crc16_byte_xor [where bs = "to_le_bytes 2 c" and cs = "to_le_bytes 2 d" and s = 0 and t = 0]
  by (simp add: crc16_syndrome_def to_le_bytes_xor)

lemma crc16_changed_length:
  fixes l d c :: u16
  assumes "crc16 (to_le_bytes 2 (l XOR d)) = crc16 (to_le_bytes 2 l) XOR c"
  shows "drop_bit 1 (crc16_syndrome d XOR c) = 0"
proof -
  let ?r = "\<lambda>l :: u16. foldl crc16_byte 0xffff (to_le_bytes 2 l) XOR 0xffff"
  have "foldl crc16_byte 0xffff (to_le_bytes 2 (l XOR d))
      = foldl crc16_byte 0xffff (to_le_bytes 2 l) XOR crc16_syndrome d"
    using foldl_crc16_byte_xor
      [where bs = "to_le_bytes 2 l" and cs = "to_le_bytes 2 d" and s = "0xffff" and t = 0]
    by (simp add: crc16_syndrome_def to_le_bytes_xor)
  then have raw: "?r (l XOR d) = ?r l XOR crc16_syndrome d"
    by (simp only: xor.assoc xor.commute [of "crc16_syndrome d" "0xffff"])
  have adapt: "drop_bit 1 (crc16 (to_le_bytes 2 x)) = drop_bit 1 (?r x)" for x :: u16
  proof -
    have "drop_bit 1 (if v = 0xFFFF then 0xFFFE else v) = drop_bit 1 v" for v :: u16 by simp
    then show ?thesis unfolding crc16_def Let_def .
  qed
  have "drop_bit 1 (?r (l XOR d)) = drop_bit 1 (?r l XOR c)"
    using adapt [of l] adapt [of "l XOR d"] assms by (simp only: drop_bit_xor)
  then have "drop_bit 1 (crc16_syndrome d) = drop_bit 1 c"
    unfolding raw by (simp only: drop_bit_xor word_xor_left_cancel)
  then show ?thesis by (simp add: drop_bit_xor)
qed

text \<open>Every bit has its own effect, even when the lowest bit of the checksum is left out.\<close>

lemma funpow_8: "(f ^^ 8) x = f (f (f (f (f (f (f (f x)))))))"
  by (simp add: numeral_eq_Suc)

lemma to_le_bytes_2: "to_le_bytes 2 w = [ucast w, ucast (drop_bit 8 w)]"
  by (simp add: to_le_bytes_def numeral_2_eq_2)

definition header_syndrome :: "nat \<Rightarrow> u16" where
  "header_syndrome i = (let (d, c) = header_bit i in crc16_syndrome d XOR c)"

lemma crc16_syndrome_eval:
  "crc16_syndrome d =
     crc16_step (crc16_step (crc16_step (crc16_step (crc16_step (crc16_step (crc16_step (crc16_step
       (crc16_step (crc16_step (crc16_step (crc16_step (crc16_step (crc16_step (crc16_step (crc16_step
          (ucast (ucast d :: u8)))))))))
       XOR ucast (ucast (drop_bit 8 d) :: u8)))))))))"
  by (simp add: crc16_syndrome_def to_le_bytes_2 crc16_byte_def funpow_8)

lemma header_bits:
  "map header_bit [0..<32] =
    [(0x1, 0), (0x2, 0), (0x4, 0), (0x8, 0), (0x10, 0), (0x20, 0), (0x40, 0), (0x80, 0),
     (0x100, 0), (0x200, 0), (0x400, 0), (0x800, 0), (0x1000, 0), (0x2000, 0), (0x4000, 0), (0x8000, 0),
     (0, 0x1), (0, 0x2), (0, 0x4), (0, 0x8), (0, 0x10), (0, 0x20), (0, 0x40), (0, 0x80),
     (0, 0x100), (0, 0x200), (0, 0x400), (0, 0x800), (0, 0x1000), (0, 0x2000), (0, 0x4000), (0, 0x8000)]"
  by (simp add: header_bit_def upt_rec push_bit_eq_mult)

lemma header_syndromes:
  "map header_syndrome [0..<32] =
     [0x1258, 0x10ed, 0x1587, 0x1f53, 0xafb, 0x15f6, 0x1fb1, 0xb3f,
      0x167e, 0x18a1, 0x51f, 0xa3e, 0x147c, 0x1ca5, 0xd17, 0x1a2e,
      0x1, 0x2, 0x4, 0x8, 0x10, 0x20, 0x40, 0x80,
      0x100, 0x200, 0x400, 0x800, 0x1000, 0x2000, 0x4000, 0x8000]"
proof -
  have "map header_syndrome [0..<32] = map (\<lambda>(d, c). crc16_syndrome d XOR c) (map header_bit [0..<32])"
    by (simp add: header_syndrome_def Let_def)
  also have "\<dots> = [0x1258, 0x10ed, 0x1587, 0x1f53, 0xafb, 0x15f6, 0x1fb1, 0xb3f,
      0x167e, 0x18a1, 0x51f, 0xa3e, 0x147c, 0x1ca5, 0xd17, 0x1a2e,
      0x1, 0x2, 0x4, 0x8, 0x10, 0x20, 0x40, 0x80,
      0x100, 0x200, 0x400, 0x800, 0x1000, 0x2000, 0x4000, 0x8000]"
    unfolding header_bits crc16_syndrome_eval list.map prod.case by (simp add: crc16_step_def)
  finally show ?thesis .
qed

lemma header_syndrome_distinct: "distinct (map (drop_bit 1 \<circ> header_syndrome) [0..<32])"
  unfolding map_map [symmetric] header_syndromes by simp

lemma header_syndrome_alt:
  "header_syndrome i = crc16_syndrome (fst (header_bit i)) XOR snd (header_bit i)"
  by (simp add: header_syndrome_def case_prod_unfold Let_def)

lemma header_syndrome_inj:
  assumes "i < 32" "j < 32" "drop_bit 1 (header_syndrome i) = drop_bit 1 (header_syndrome j)"
  shows "i = j"
  using assms header_syndrome_distinct by (auto simp: distinct_conv_nth)

lemma header_bit_flip_detected:
  fixes l :: u16
  assumes "i < 32"
  shows "crc16 (to_le_bytes 2 (l XOR fst (header_bit i)))
    \<noteq> crc16 (to_le_bytes 2 l) XOR snd (header_bit i)"
proof
  assume eq: "crc16 (to_le_bytes 2 (l XOR fst (header_bit i)))
    = crc16 (to_le_bytes 2 l) XOR snd (header_bit i)"
  have "header_syndrome 16 = 1"
    by (simp add: header_syndrome_alt header_bit_def crc16_syndrome_def to_le_bytes_2
        crc16_byte_def funpow_8 crc16_step_def)
  moreover have "drop_bit 1 (header_syndrome i) = 0"
    using crc16_changed_length [OF eq] by (simp add: header_syndrome_alt)
  ultimately have "i = 16" using assms header_syndrome_inj [of i 16] by simp
  with eq show False
    using word_xor_left_cancel [of "crc16 (to_le_bytes 2 l)" 0 1] by (simp add: header_bit_def)
qed

lemma header_two_bit_flips_detected:
  fixes l :: u16
  assumes "i < 32" "j < 32" "i \<noteq> j"
  shows "crc16 (to_le_bytes 2 (l XOR fst (header_bit i) XOR fst (header_bit j)))
    \<noteq> crc16 (to_le_bytes 2 l) XOR snd (header_bit i) XOR snd (header_bit j)"
proof
  assume "crc16 (to_le_bytes 2 (l XOR fst (header_bit i) XOR fst (header_bit j)))
    = crc16 (to_le_bytes 2 l) XOR snd (header_bit i) XOR snd (header_bit j)"
  then have "drop_bit 1 (crc16_syndrome (fst (header_bit i) XOR fst (header_bit j))
      XOR (snd (header_bit i) XOR snd (header_bit j))) = 0"
    by (intro crc16_changed_length [of l]) (simp add: xor.assoc)
  then have "drop_bit 1 (header_syndrome i XOR header_syndrome j) = 0"
    by (simp add: header_syndrome_alt crc16_syndrome_xor ac_simps)
  then have "drop_bit 1 (header_syndrome i) XOR drop_bit 1 (header_syndrome j) = 0"
    by (simp only: drop_bit_xor)
  then have "drop_bit 1 (header_syndrome i) = drop_bit 1 (header_syndrome j)"
    by (metis word_xor_left_cancel xor_self_eq)
  with assms show False using header_syndrome_inj by blast
qed

section \<open>Properties\<close>

text \<open>
  C31: the checksum the crate stores is never 0, which would mean an erased item, and its first
  byte is neither 0 nor 0xFF, so that a write cut off in that byte leaves a wrong checksum.
\<close>

theorem adapted_crc32_never_erased:
  "adapted_crc32 data \<noteq> 0 \<and> first_le_byte (adapted_crc32 data) \<noteq> 0
    \<and> first_le_byte (adapted_crc32 data) \<noteq> 0xFF"
  using adapted_crc32_first_byte by simp

text \<open>C32: a change of one byte of the data is always seen by the CRC-32.\<close>

theorem crc32_detects_byte_change:
  assumes "b \<noteq> b'"
  shows "crc32 (xs @ b # ys) \<noteq> crc32 (xs @ b' # ys)"
  using assms by (rule crc32_byte_change_detected)

lemma crc32_detects_byte_change_witness: "crc32 [1, 2, 3] \<noteq> crc32 [1, 7, 3]"
  using crc32_detects_byte_change [of 2 7 "[1]" "[3]"] by simp

text \<open>
  C33: no one or two flipped bits in the length field of an item header and its checksum go
  unnoticed: the checksum of the changed length is not the changed checksum. Bit \<open>i\<close> of the 32 bits is
  the pair \<open>header_bit i\<close> of what it flips in the length and in the checksum.
\<close>

theorem header_bit_errors_detected:
  fixes l :: u16
  assumes "i < 32" "j < 32" "i \<noteq> j"
  shows "crc16 (to_le_bytes 2 (l XOR fst (header_bit i))) \<noteq> crc16 (to_le_bytes 2 l) XOR snd (header_bit i)
    \<and> crc16 (to_le_bytes 2 (l XOR fst (header_bit i) XOR fst (header_bit j)))
      \<noteq> crc16 (to_le_bytes 2 l) XOR snd (header_bit i) XOR snd (header_bit j)"
  using header_bit_flip_detected [OF assms(1)] header_two_bit_flips_detected [OF assms] by (rule conjI)

lemma header_bit_errors_detected_witness:
  "crc16 (to_le_bytes 2 (5 XOR fst (header_bit 2))) \<noteq> crc16 (to_le_bytes 2 (5 :: u16)) XOR snd (header_bit 2)"
proof -
  have "(2 :: nat) < 32" "(17 :: nat) < 32" "(2 :: nat) \<noteq> 17" by simp_all
  from header_bit_errors_detected [OF this, of 5] show ?thesis by (rule conjunct1)
qed

text \<open>
  C34: the length checksum has 13 bits, not 16: its three top bits are ones for every input that is
  not empty. So lengths collide: an empty item and one of 13405 bytes have the same checksum.
\<close>

theorem crc16_wastes_three_bits:
  assumes "data \<noteq> []"
  shows "drop_bit 13 (crc16 data) = 7 \<and> crc16 (to_le_bytes 2 (0 :: u16)) = crc16 (to_le_bytes 2 (13405 :: u16))"
proof
  have seven: "bit (7 :: u16) m \<longleftrightarrow> m < 3" if "m < 16" for m
    using bit_mask_iff [of 3 m, where 'a = u16] that by (auto simp: mask_eq_exp_minus_1)
  moreover have "bit (crc16 data) (13 + m) \<longleftrightarrow> m < 3" for m
    using crc16_top_bits_ones [OF assms, of "13 + m"] bit_imp_le_length [of "crc16 data" "13 + m"]
    by (auto simp: numeral_3_eq_3 less_Suc_eq)
  ultimately show "drop_bit 13 (crc16 data) = 7"
    by (intro bit_word_eqI) (simp add: bit_drop_bit_eq seven)
  show "crc16 (to_le_bytes 2 (0 :: u16)) = crc16 (to_le_bytes 2 (13405 :: u16))"
    by (simp add: crc16_def to_le_bytes_2 crc16_byte_def funpow_8 crc16_step_def)
qed

lemma crc16_wastes_three_bits_witness: "drop_bit 13 (crc16 [1, 2]) = 7"
  using crc16_wastes_three_bits [of "[1, 2]"] by simp

end
