(* ===== verification/Item.thy ===== *)
theory Item
  imports Storage Checksum
begin

text \<open>
  \<open>src/src/item.rs\<close>: items in flash. Reading a header (with its one retry and its checksum),
  reading the data of an item into the caller's buffer, writing an item, erasing it by
  overwriting its header with a checksum of 0, the iterators over the headers and the items of a
  page, and the two questions about a page that need them.

  An iterator is an object beside the storage: its operations act on the pair of the two, so that
  it keeps its position on an error, as in the code.
\<close>

section \<open>Headers\<close>

definition header_slice_len :: "('s, 'e) nor_flash \<Rightarrow> nat" where
  "header_slice_len F = round_up_to_alignment F ItemHeader_LENGTH"

definition all_erased :: "u8 list \<Rightarrow> bool" where
  "all_erased bytes \<longleftrightarrow> list_all (\<lambda>b. b = 0xFF) bytes"

text \<open>The three fields of the header bytes.\<close>

definition data_crc_field :: "u8 list \<Rightarrow> u32" where
  "data_crc_field buffer = from_le_bytes (sub_list 0 4 buffer)"

definition length_field :: "u8 list \<Rightarrow> u16" where
  "length_field buffer = from_le_bytes (sub_list 4 2 buffer)"

definition length_crc_field :: "u8 list \<Rightarrow> u16" where
  "length_crc_field buffer = from_le_bytes (sub_list 6 2 buffer)"

text \<open>
  The read loop: all bytes erased is no header; a length whose checksum does not match is read
  again while a retry is left (the code allows one), and is corruption after that.
\<close>

primrec read_header_bytes ::
  "('s, 'e) nor_flash \<Rightarrow> nat \<Rightarrow> nat \<Rightarrow> (('s, 'k) storage, 'e error, u8 list option) m"
where
  "read_header_bytes F address 0 =
     bnd (on_flash (nf_read F address (header_slice_len F))) (\<lambda>buffer.
       if all_erased buffer then ret None
       else if crc16 (sub_list 4 2 buffer) \<noteq> length_crc_field buffer then fail Corrupted
       else ret (Some buffer))"
| "read_header_bytes F address (Suc retries) =
     bnd (on_flash (nf_read F address (header_slice_len F))) (\<lambda>buffer.
       if all_erased buffer then ret None
       else if crc16 (sub_list 4 2 buffer) \<noteq> length_crc_field buffer
       then read_header_bytes F address retries
       else ret (Some buffer))"

text \<open>
  Rounding up panics on a word size of 0, and the buffer of 32 bytes is sliced to the length of
  the header; \<open>header_slice_len_le\<close> shows that the slice is in range for every supported word size.
\<close>

definition read_new ::
  "('s, 'e) nor_flash \<Rightarrow> nat \<Rightarrow> nat \<Rightarrow> (('s, 'k) storage, 'e error, item_header option) m"
where
  "read_new F address end_address =
     sq (assert_that (WORD_SIZE F \<noteq> 0))
     (if address + header_slice_len F > end_address then ret None
      else
        sq (assert_that (header_slice_len F \<le> MAX_WORD_SIZE))
        (bnd (read_header_bytes F address 1) (\<lambda>bytes. case bytes of
           None \<Rightarrow> ret None
         | Some buffer \<Rightarrow>
             let h = \<lparr> ih_length = length_field buffer,
                       ih_crc = (if data_crc_field buffer = 0 then None else Some (data_crc_field buffer)) \<rparr>
             in if next_item_address F h address > end_address then fail Corrupted
                else ret (Some h))))"

text \<open>Writing a header: the checksum field is 0 when there is none.\<close>

definition header_bytes :: "('s, 'e) nor_flash \<Rightarrow> item_header \<Rightarrow> u8 list" where
  "header_bytes F h =
     take (header_slice_len F)
       (overwrite 6 (to_le_bytes 2 (crc16 (to_le_bytes 2 (ih_length h))))
       (overwrite 4 (to_le_bytes 2 (ih_length h))
       (overwrite 0 (to_le_bytes 4 (case ih_crc h of None \<Rightarrow> 0 | Some crc \<Rightarrow> crc))
         (replicate MAX_WORD_SIZE 0xFF))))"

definition header_write ::
  "('s, 'e) nor_flash \<Rightarrow> item_header \<Rightarrow> nat \<Rightarrow> (('s, 'k) storage, 'e error, unit) m"
where
  "header_write F h address =
     sq (assert_that (header_slice_len F \<le> MAX_WORD_SIZE))
        (on_flash (nf_write F address (header_bytes F h)))"

text \<open>Erase this item by setting the checksum to none and overwriting the header with it.\<close>

definition erase_data ::
  "('s, 'e) nor_flash \<Rightarrow> item_header \<Rightarrow> nat \<Rightarrow> (('s, 'k) storage, 'e error, item_header) m"
where
  "erase_data F h address =
     (let h = h\<lparr> ih_crc := None \<rparr>
      in bnd (gets flash_range) (\<lambda>r.
         sq (on_cache (notice_item_erased F r address h))
         (sq (header_write F h address)
             (ret h))))"

section \<open>Items\<close>

text \<open>An item borrows its bytes from the caller's buffer; the bytes are in the record.\<close>

record item =
  item_header :: item_header
  item_data_buffer :: "u8 list"

datatype maybe_item =
    CorruptedItem item_header "u8 list"
  | ErasedItem item_header "u8 list"
  | Present item

definition maybe_item_unwrap :: "maybe_item \<Rightarrow> ('s, 'e error, item) m" where
  "maybe_item_unwrap mi = (case mi of
     CorruptedItem _ _ \<Rightarrow> fail Corrupted
   | ErasedItem _ _ \<Rightarrow> fail LogicBug
   | Present it \<Rightarrow> ret it)"

text \<open>The read loop of the data, with one retry, into the start of the caller's buffer.\<close>

primrec read_item_data ::
  "('s, 'e) nor_flash \<Rightarrow> item_header \<Rightarrow> u32 \<Rightarrow> nat \<Rightarrow> nat \<Rightarrow> nat \<Rightarrow> (('s, 'k) storage, 'e error, bool) m"
where
  "read_item_data F h header_crc address read_len 0 =
     sq (if read_len \<noteq> 0
         then bnd (on_flash (nf_read F address read_len)) (\<lambda>bytes.
                modify (\<lambda>s. s\<lparr> data_buffer := overwrite 0 bytes (data_buffer s) \<rparr>))
         else ret ())
     (bnd (gets (\<lambda>s. adapted_crc32 (take (unat (ih_length h)) (data_buffer s)))) (\<lambda>data_crc.
       if data_crc = header_crc then ret True else ret False))"
| "read_item_data F h header_crc address read_len (Suc retries) =
     sq (if read_len \<noteq> 0
         then bnd (on_flash (nf_read F address read_len)) (\<lambda>bytes.
                modify (\<lambda>s. s\<lparr> data_buffer := overwrite 0 bytes (data_buffer s) \<rparr>))
         else ret ())
     (bnd (gets (\<lambda>s. adapted_crc32 (take (unat (ih_length h)) (data_buffer s)))) (\<lambda>data_crc.
       if data_crc = header_crc then ret True
       else read_item_data F h header_crc address read_len retries))"

text \<open>The item that is present holds the whole buffer, not only its own bytes.\<close>

definition read_item ::
  "('s, 'e) nor_flash \<Rightarrow> item_header \<Rightarrow> nat \<Rightarrow> nat \<Rightarrow> (('s, 'k) storage, 'e error, maybe_item) m"
where
  "read_item F h address end_address = (case ih_crc h of
     None \<Rightarrow> bnd (gets data_buffer) (\<lambda>b. ret (ErasedItem h b))
   | Some header_crc \<Rightarrow>
       let data_addr = data_address F address;
           read_len = round_up_to_alignment F (unat (ih_length h))
       in if data_addr + read_len > end_address
          then bnd (gets data_buffer) (\<lambda>b. ret (CorruptedItem h b))
          else bnd (gets (\<lambda>s. length (data_buffer s))) (\<lambda>buffer_len.
            if buffer_len < read_len then fail (BufferTooSmall read_len)
            else bnd (read_item_data F h header_crc data_addr read_len 1) (\<lambda>present.
              bnd (gets data_buffer) (\<lambda>b.
                ret (if present then Present \<lparr> item_header = h, item_data_buffer = b \<rparr>
                     else CorruptedItem h b)))))"

text \<open>
  Writing: the header, the whole words of the data, then the rest of it filled up with zeros to
  a word.
\<close>

definition write_raw ::
  "('s, 'e) nor_flash \<Rightarrow> item_header \<Rightarrow> u8 list \<Rightarrow> nat \<Rightarrow> (('s, 'k) storage, 'e error, unit) m"
where
  "write_raw F h data address =
     bnd (gets flash_range) (\<lambda>r.
     sq (on_cache (notice_item_written F r address h))
     (sq (header_write F h address)
     (let data_block = take (round_down_to_alignment F (length data)) data;
          data_left = drop (round_down_to_alignment F (length data)) data;
          data_addr = data_address F address
      in sq (if data_block \<noteq> [] then on_flash (nf_write F data_addr data_block) else ret ())
            (if data_left \<noteq> []
             then let extend_len = round_up_to_alignment F (length data_left)
                  in sq (assert_that (extend_len \<le> MAX_WORD_SIZE))
                        (on_flash (nf_write F (data_addr + length data_block)
                          (take extend_len (overwrite 0 data_left (replicate MAX_WORD_SIZE 0)))))
             else ret ()))))"

definition write_new ::
  "('s, 'e) nor_flash \<Rightarrow> nat \<Rightarrow> u8 list \<Rightarrow> (('s, 'k) storage, 'e error, item_header) m"
where
  "write_new F address data =
     (let h = \<lparr> ih_length = of_nat (length data), ih_crc = Some (adapted_crc32 data) \<rparr>
      in sq (write_raw F h data address) (ret h))"

definition item_write ::
  "('s, 'e) nor_flash \<Rightarrow> item \<Rightarrow> nat \<Rightarrow> (('s, 'k) storage, 'e error, unit) m"
where
  "item_write F it address = write_raw F (item_header it) (item_data_buffer it) address"

text \<open>An unborrowed item is its header; it is borrowed again from the same buffer.\<close>

definition reborrow :: "item_header \<Rightarrow> u8 list \<Rightarrow> item option" where
  "reborrow h buffer =
     (if unat (ih_length h) \<le> length buffer
      then Some \<lparr> item_header = h, item_data_buffer = take (unat (ih_length h)) buffer \<rparr>
      else None)"

section \<open>Header iterators\<close>

record header_iter =
  current_address :: nat
  end_address :: nat

definition header_iter_new :: "nat \<Rightarrow> nat \<Rightarrow> header_iter" where
  "header_iter_new start_address end_addr =
     \<lparr> current_address = start_address, end_address = end_addr \<rparr>"

lemma header_slice_len_ge: "8 \<le> header_slice_len F"
  using round_up_ge [of ItemHeader_LENGTH F] by (simp add: header_slice_len_def ItemHeader_LENGTH_def)

text \<open>What \<open>read_new\<close> returns makes progress: this is why the traversal ends.\<close>

lemma read_header_bytes_no_corrupted_flash:
  "on_flash x s = (Err e, s') \<Longrightarrow> e \<noteq> Corrupted"
  by (auto simp: on_flash_def map_err_def split: prod.splits outcome.splits)

lemma read_new_progress:
  "read_new F address end_addr s = (Ok (Some h), s') \<Longrightarrow>
     address < end_addr \<and> next_item_address F h address \<le> end_addr"
  "read_new F address end_addr s = (Err Corrupted, s') \<Longrightarrow> address < end_addr \<and> 0 < WORD_SIZE F"
  using header_slice_len_ge [of F]
  by (auto simp: read_new_def sq_def bnd_Ok_iff bnd_Err_iff assert_that_def Let_def
      split: if_splits option.splits)

function (sequential) traverse ::
  "('s, 'e) nor_flash \<Rightarrow> (item_header \<Rightarrow> nat \<Rightarrow> bool) \<Rightarrow>
   (('s, 'k) storage \<times> header_iter, 'e error, item_header option \<times> nat) m"
where
  "traverse F callback t =
     (case lift_local (read_new F (current_address (snd t)) (end_address (snd t))) t of
        (Ok (Some h), (s, it)) \<Rightarrow>
          let here = current_address it;
              it = it\<lparr> current_address := next_item_address F h here \<rparr>
          in if callback h here then traverse F callback (s, it)
             else (Ok (Some h, here), (s, it))
      | (Ok None, (s, it)) \<Rightarrow> (Ok (None, current_address it), (s, it))
      | (Err Corrupted, (s, it)) \<Rightarrow>
          traverse F callback (s, it\<lparr> current_address := current_address it + WORD_SIZE F \<rparr>)
      | (Err e, (s, it)) \<Rightarrow> (Err e, (s, it))
      | (Panic, (s, it)) \<Rightarrow> (Panic, (s, it))
      | (Diverge, (s, it)) \<Rightarrow> (Diverge, (s, it)))"
  by pat_completeness auto

termination
proof (relation "measure (\<lambda>(F, callback, t). end_address (snd t) - current_address (snd t))", goal_cases)
  case 1
  then show ?case by simp
next
  case (2 F callback t r t' h s it)
  then show ?case
    using read_new_progress(1) [of F "current_address (snd t)" "end_address (snd t)" "fst t"]
    by (auto simp: lift_local_def split: prod.splits intro!: diff_less_mono2 next_item_address_gt)
next
  case (3 F callback t)
  then show ?case
    using read_new_progress(2) [of F "current_address (snd t)" "end_address (snd t)" "fst t"]
    by (auto simp: lift_local_def split: prod.splits)
qed

text \<open>\<open>ItemHeaderIter::next\<close> skips nothing.\<close>

definition header_iter_next ::
  "('s, 'e) nor_flash \<Rightarrow> (('s, 'k) storage \<times> header_iter, 'e error, item_header option \<times> nat) m"
where
  "header_iter_next F = traverse F (\<lambda>_ _. False)"

text \<open>
  The item iterator returns the next item that is present. Every header moves the iterator on, so
  the bytes left to the end of the page bound the number of rounds.
\<close>

primrec item_iter_rounds ::
  "('s, 'e) nor_flash \<Rightarrow> nat \<Rightarrow> (('s, 'k) storage \<times> header_iter, 'e error, (item \<times> nat) option) m"
where
  "item_iter_rounds F 0 = diverge"
| "item_iter_rounds F (Suc fuel) =
     bnd (header_iter_next F) (\<lambda>(found, address). case found of
       None \<Rightarrow> ret None
     | Some h \<Rightarrow>
         bnd (gets (\<lambda>t. end_address (snd t))) (\<lambda>end_addr.
         bnd (lift_local (read_item F h address end_addr)) (\<lambda>mi. case mi of
           CorruptedItem _ _ \<Rightarrow> item_iter_rounds F fuel
         | ErasedItem _ _ \<Rightarrow> item_iter_rounds F fuel
         | Present it \<Rightarrow> ret (Some (it, address)))))"

definition item_iter_next ::
  "('s, 'e) nor_flash \<Rightarrow> (('s, 'k) storage \<times> header_iter, 'e error, (item \<times> nat) option) m"
where
  "item_iter_next F =
     bnd (gets (\<lambda>t. end_address (snd t) - current_address (snd t) + 1)) (item_iter_rounds F)"

section \<open>Free spots and empty pages\<close>

definition find_next_free_item_spot ::
  "('s, 'e) nor_flash \<Rightarrow> nat \<Rightarrow> nat \<Rightarrow> nat \<Rightarrow> (('s, 'k) storage, 'e error, nat option) m"
where
  "find_next_free_item_spot F start_address end_addr data_length =
     bnd (gets (\<lambda>s. calculate_page_index F (flash_range s) start_address)) (\<lambda>page_index.
     bnd (gets (\<lambda>s. first_item_after_written (cache s) page_index)) (\<lambda>cached.
     bnd (case cached of
            Some free_item_address \<Rightarrow> ret free_item_address
          | None \<Rightarrow>
              bnd (gets (\<lambda>s. first_item_after_erased (cache s) page_index)) (\<lambda>erased_ptr.
              bnd (with_local
                     (header_iter_new
                       (max (case erased_ptr of Some a \<Rightarrow> a | None \<Rightarrow> 0) start_address) end_addr)
                     (traverse F (\<lambda>_ _. True))) (\<lambda>r.
              ret (snd r)))) (\<lambda>free_item_address.
     bnd (checked_minus end_addr free_item_address) (\<lambda>total_available.
     ret (case available_data_bytes F total_available of
            Some available \<Rightarrow> if available \<ge> data_length then Some free_item_address else None
          | None \<Rightarrow> None)))))"

text \<open>The data area of a page: what lies between the two marker words.\<close>

definition page_data_start :: "('s, 'e) nor_flash \<Rightarrow> flash_range \<Rightarrow> nat \<Rightarrow> nat" where
  "page_data_start F r page_index = calculate_page_address F r page_index + WORD_SIZE F"

definition page_data_end :: "('s, 'e) nor_flash \<Rightarrow> flash_range \<Rightarrow> nat \<Rightarrow> nat" where
  "page_data_end F r page_index = calculate_page_end_address F r page_index - WORD_SIZE F"

definition is_page_empty ::
  "('s, 'e) nor_flash \<Rightarrow> nat \<Rightarrow> page_state option \<Rightarrow> (('s, 'k) storage, 'e error, bool) m"
where
  "is_page_empty F page_index known_state =
     bnd (case known_state of Some page_state \<Rightarrow> ret page_state | None \<Rightarrow> get_page_state F page_index)
     (\<lambda>page_state. case page_state of
        Closed \<Rightarrow>
          bnd (gets flash_range) (\<lambda>r.
          bnd (gets (\<lambda>s. first_item_after_erased (cache s) page_index)) (\<lambda>erased_ptr.
          bnd (with_local
                 (header_iter_new
                   (case erased_ptr of Some a \<Rightarrow> a | None \<Rightarrow> page_data_start F r page_index)
                   (page_data_end F r page_index))
                 (traverse F (\<lambda>h _. ih_crc h = None))) (\<lambda>found.
          ret (fst found = None))))
      | PartialOpen \<Rightarrow> ret False
      | Open \<Rightarrow> ret True)"

end
