(* ===== verification/Queue.thy ===== *)
theory Queue
  imports Item
begin

text \<open>
  \<open>src/src/queue/mod.rs\<close>: the fifo queue. The pages are a ring; the oldest items are on the first
  closed page after the youngest one, new items go to the youngest. Popping clears the checksum in
  the header of an item; the iterator walks over the items and opens the pages it leaves behind
  when all their items are popped.

  The iterator is an object beside the storage, as in \<open>Item\<close>. Its search loop is given as many
  rounds as it can need: every round leaves a page, moves forward on it by at least one byte, or
  is the last.
\<close>

section \<open>Youngest and oldest page\<close>

definition find_youngest_page :: "('s, 'e) nor_flash \<Rightarrow> (('s, 'k) storage, 'e error, nat) m" where
  "find_youngest_page F =
     bnd (find_first_page F 0 PartialOpen) (\<lambda>last_used_page. case last_used_page of
       Some last_used_page \<Rightarrow> ret last_used_page
     | None \<Rightarrow>
         bnd (find_first_page F 0 Closed) (\<lambda>first_closed_page.
         bnd (case first_closed_page of
                Some anchor \<Rightarrow> find_first_page F anchor Open
              | None \<Rightarrow> ret (Some 0)) (\<lambda>first_open_page.
         case first_open_page of
           Some first_open_page \<Rightarrow> ret first_open_page
         | None \<Rightarrow> fail Corrupted)))"

definition find_oldest_page :: "('s, 'e) nor_flash \<Rightarrow> (('s, 'k) storage, 'e error, nat) m" where
  "find_oldest_page F =
     bnd (find_youngest_page F) (\<lambda>youngest_page.
     bnd (find_first_page F youngest_page Closed) (\<lambda>oldest_closed_page.
     ret (case oldest_closed_page of Some p \<Rightarrow> p | None \<Rightarrow> youngest_page)))"

definition queue_try_repair :: "('s, 'e) nor_flash \<Rightarrow> (('s, 'k) storage, 'e error, unit) m" where
  "queue_try_repair F = sq (on_cache invalidate_cache_state) (try_general_repair F)"

section \<open>Pushing\<close>

text \<open>Data must fit in a single page.\<close>

definition item_too_big :: "('s, 'e) nor_flash \<Rightarrow> nat \<Rightarrow> bool" where
  "item_too_big F len \<longleftrightarrow> len > u16_MAX \<or> len > calculate_page_size F - data_address F 0"

text \<open>
  The branch without room on the current page: the next page is taken, after it was opened when
  its items are all erased or may be overwritten. It returns where the next page's data starts.
\<close>

definition take_next_page ::
  "('s, 'e) nor_flash \<Rightarrow> nat \<Rightarrow> bool \<Rightarrow> (('s, 'k) storage, 'e error, nat) m"
where
  "take_next_page F current_page allow_overwrite_old_data =
     bnd (gets flash_range) (\<lambda>r.
     let next_page = next_page F r current_page
     in bnd (get_page_state F next_page) (\<lambda>next_page_state.
        let single_page = (next_page = current_page)
        in case (next_page_state, single_page) of
          (Open, _) \<Rightarrow>
            sq (close_page F current_page)
            (sq (partial_close_page F next_page)
                (ret (page_data_start F r next_page)))
        | (PartialOpen, False) \<Rightarrow> fail Corrupted
        | _ \<Rightarrow>
            bnd (if \<not> allow_overwrite_old_data
                 then bnd (is_page_empty F next_page (Some next_page_state)) (\<lambda>e. ret (\<not> e))
                 else ret False) (\<lambda>full.
            if full then sq (on_cache unmark_dirty) (fail FullStorage)
            else
              sq (open_page F next_page)
              (sq (if \<not> single_page then close_page F current_page else ret ())
              (sq (partial_close_page F next_page)
                  (ret (page_data_start F r next_page)))))))"

definition push_inner ::
  "('s, 'e) nor_flash \<Rightarrow> u8 list \<Rightarrow> bool \<Rightarrow> (('s, 'k) storage, 'e error, unit) m"
where
  "push_inner F data allow_overwrite_old_data =
     sq drop_dirty_cache
     (if item_too_big F (length data) then sq (on_cache unmark_dirty) (fail ItemTooBig)
      else
        bnd (find_youngest_page F) (\<lambda>current_page.
        bnd (gets flash_range) (\<lambda>r.
        sq (partial_close_page F current_page)
        (bnd (find_next_free_item_spot F (page_data_start F r current_page)
                (page_data_end F r current_page) (length data)) (\<lambda>next_address.
        bnd (case next_address of
               Some address \<Rightarrow> ret address
             | None \<Rightarrow> take_next_page F current_page allow_overwrite_old_data) (\<lambda>address.
        sq (write_new F address data)
           (on_cache unmark_dirty)))))))"

definition push :: "('s, 'e) nor_flash \<Rightarrow> u8 list \<Rightarrow> bool \<Rightarrow> (('s, 'k) storage, 'e error, unit) m" where
  "push F data allow_overwrite_old_data =
     run_with_auto_repair (push_inner F data allow_overwrite_old_data) (queue_try_repair F)"

section \<open>How much fits\<close>

text \<open>The end of the items on a page that is not closed, from the cache or by walking over them.\<close>

definition first_free_address ::
  "('s, 'e) nor_flash \<Rightarrow> nat \<Rightarrow> (('s, 'k) storage, 'e error, nat) m"
where
  "first_free_address F page =
     bnd (gets flash_range) (\<lambda>r.
     bnd (gets (\<lambda>s. first_item_after_written (cache s) page)) (\<lambda>cached. case cached of
       Some next_item_addr \<Rightarrow> ret next_item_addr
     | None \<Rightarrow>
         bnd (gets (\<lambda>s. first_item_after_erased (cache s) page)) (\<lambda>erased_ptr.
         bnd (with_local
                (header_iter_new
                  (case erased_ptr of Some a \<Rightarrow> a | None \<Rightarrow> page_data_start F r page)
                  (page_data_end F r page))
                (traverse F (\<lambda>_ _. True))) (\<lambda>found.
         ret (snd found)))))"

definition find_max_fit_inner :: "('s, 'e) nor_flash \<Rightarrow> (('s, 'k) storage, 'e error, nat option) m" where
  "find_max_fit_inner F =
     sq drop_dirty_cache
     (bnd (find_youngest_page F) (\<lambda>current_page.
      bnd (gets flash_range) (\<lambda>r.
      let next_page = next_page F r current_page
      in bnd (get_page_state F next_page) (\<lambda>state.
         bnd (case state of
                Closed \<Rightarrow> is_page_empty F next_page (Some state)
              | Open \<Rightarrow> ret True
              | PartialOpen \<Rightarrow> fail Corrupted) (\<lambda>next_page_free.
         if next_page_free
         then sq (on_cache unmark_dirty) (ret (Some (ERASE_SIZE F - 2 * WORD_SIZE F)))
         else
           bnd (first_free_address F current_page) (\<lambda>next_item_addr.
           sq (on_cache unmark_dirty)
           (bnd (checked_minus (page_data_end F r current_page) next_item_addr) (\<lambda>total_available.
            ret (available_data_bytes F total_available)))))))))"

definition find_max_fit :: "('s, 'e) nor_flash \<Rightarrow> (('s, 'k) storage, 'e error, nat option) m" where
  "find_max_fit F = run_with_auto_repair (find_max_fit_inner F) (queue_try_repair F)"

definition page_space_left :: "('s, 'e) nor_flash \<Rightarrow> nat \<Rightarrow> (('s, 'k) storage, 'e error, nat) m" where
  "page_space_left F page =
     bnd (gets flash_range) (\<lambda>r.
     bnd (get_page_state F page) (\<lambda>state.
     bnd (is_page_empty F page (Some state)) (\<lambda>page_empty.
     if is_closed state \<and> \<not> page_empty then ret 0
     else if page_empty then checked_minus (page_data_end F r page) (page_data_start F r page)
     else
       bnd (first_free_address F page) (\<lambda>next_item_addr.
       bnd (checked_minus (page_data_end F r page) next_item_addr) (\<lambda>total_available.
       bnd (if available_data_bytes F total_available = None
            then is_page_empty F page (Some Closed) else ret False) (\<lambda>all_erased.
       if all_erased then checked_minus (page_data_end F r page) (page_data_start F r page)
       else ret total_available))))))"

fun sum_space_left :: "('s, 'e) nor_flash \<Rightarrow> nat list \<Rightarrow> nat \<Rightarrow> (('s, 'k) storage, 'e error, nat) m" where
  "sum_space_left F [] total_free_space = ret total_free_space"
| "sum_space_left F (page # pages) total_free_space =
     bnd (page_space_left F page) (\<lambda>n. sum_space_left F pages (total_free_space + n))"

definition space_left_inner :: "('s, 'e) nor_flash \<Rightarrow> (('s, 'k) storage, 'e error, nat) m" where
  "space_left_inner F =
     sq drop_dirty_cache
     (bnd (gets (\<lambda>s. get_pages F (flash_range s) 0)) (\<lambda>pages.
      bnd (sum_space_left F pages 0) (\<lambda>total_free_space.
      sq (on_cache unmark_dirty) (ret total_free_space))))"

definition space_left :: "('s, 'e) nor_flash \<Rightarrow> (('s, 'k) storage, 'e error, nat) m" where
  "space_left F = run_with_auto_repair (space_left_inner F) (queue_try_repair F)"

section \<open>The iterator\<close>

datatype previous_item_states = AllPopped | AllButCurrentPopped | Unpopped

datatype next_address = Address nat | PageAfter nat

record queue_iterator =
  iter_next_address :: next_address
  iter_previous_item_states :: previous_item_states
  iter_oldest_page :: nat

definition set_next_address :: "next_address \<Rightarrow> ('t \<times> queue_iterator, 'e, unit) m" where
  "set_next_address a = modify (\<lambda>(s, it). (s, it\<lparr> iter_next_address := a \<rparr>))"

definition set_item_states :: "previous_item_states \<Rightarrow> ('t \<times> queue_iterator, 'e, unit) m" where
  "set_item_states p = modify (\<lambda>(s, it). (s, it\<lparr> iter_previous_item_states := p \<rparr>))"

definition find_start_address :: "('s, 'e) nor_flash \<Rightarrow> (('s, 'k) storage, 'e error, next_address) m" where
  "find_start_address F =
     sq drop_dirty_cache
     (bnd (find_oldest_page F) (\<lambda>oldest_page.
      bnd (gets (\<lambda>s. first_item_after_erased (cache s) oldest_page)) (\<lambda>cached.
      bnd (gets flash_range) (\<lambda>r.
      ret (Address (case cached of Some address \<Rightarrow> address | None \<Rightarrow> page_data_start F r oldest_page))))))"

definition queue_iterator_new :: "('s, 'e) nor_flash \<Rightarrow> (('s, 'k) storage, 'e error, queue_iterator) m" where
  "queue_iterator_new F =
     bnd (run_with_auto_repair (find_start_address F) (queue_try_repair F)) (\<lambda>start_address.
     bnd (gets flash_range) (\<lambda>r.
     ret \<lparr> iter_next_address = start_address,
           iter_previous_item_states = AllPopped,
           iter_oldest_page = (case start_address of
              Address address \<Rightarrow> calculate_page_index F r address
            | PageAfter index \<Rightarrow> next_page F r index) \<rparr>))"

text \<open>Leaving a page: \<open>None\<close> when there are no more pages, else the next page and where it starts.\<close>

definition go_to_page_after ::
  "('s, 'e) nor_flash \<Rightarrow> nat \<Rightarrow> (('s, 'k) storage \<times> queue_iterator, 'e error, (nat \<times> nat) option) m"
where
  "go_to_page_after F left_page =
     bnd (gets (\<lambda>t. flash_range (fst t))) (\<lambda>r.
     let next_page = next_page F r left_page
     in bnd (lift_local (get_page_state F next_page)) (\<lambda>state.
        bnd (gets snd) (\<lambda>it.
        if is_open state \<or> next_page = iter_oldest_page it
        then sq (lift_local (on_cache unmark_dirty)) (ret None)
        else
          sq (if iter_previous_item_states it = AllPopped
              then lift_local (open_page F left_page) else ret ())
          (let current_addr = page_data_start F r next_page
           in sq (set_next_address (Address current_addr))
                 (ret (Some (next_page, current_addr)))))))"

definition advance_past ::
  "('s, 'e) nor_flash \<Rightarrow> nat \<Rightarrow> nat \<Rightarrow> item_header \<Rightarrow> nat \<Rightarrow> ('t \<times> queue_iterator, 'e2, unit) m"
where
  "advance_past F current_page page_end h address =
     (let next_addr = next_item_address F h address
      in set_next_address (if next_addr \<ge> page_end then PageAfter current_page else Address next_addr))"

text \<open>
  A round on a page: looking for a live item from an address on. \<open>again\<close> is what the loop does next
  when there is none, or when the item is corrupted.
\<close>

definition visit_page ::
  "('s, 'e) nor_flash \<Rightarrow> (('s, 'k) storage \<times> queue_iterator, 'e error, (item_header \<times> nat) option) m
    \<Rightarrow> nat \<Rightarrow> nat \<Rightarrow> nat \<Rightarrow> (('s, 'k) storage \<times> queue_iterator, 'e error, (item_header \<times> nat) option) m"
where
  "visit_page F again current_page current_addr page_end =
     bnd (lift_local (with_local (header_iter_new current_addr page_end)
            (traverse F (\<lambda>h _. ih_crc h = None)))) (\<lambda>(found, found_address). case found of
       None \<Rightarrow> sq (set_next_address (PageAfter current_page)) again
     | Some found_header \<Rightarrow>
         bnd (lift_local (read_item F found_header found_address page_end)) (\<lambda>maybe_item.
         case maybe_item of
           CorruptedItem h _ \<Rightarrow> sq (advance_past F current_page page_end h found_address) again
         | ErasedItem _ _ \<Rightarrow> fail LogicBug
         | Present it \<Rightarrow>
             sq (advance_past F current_page page_end (item_header it) found_address)
             (bnd (gets (\<lambda>t. iter_previous_item_states (snd t))) (\<lambda>states.
              sq (if states = AllPopped then set_item_states AllButCurrentPopped else ret ())
              (sq (lift_local (on_cache unmark_dirty))
                  (ret (Some (item_header it, found_address))))))))"

primrec next_rounds ::
  "('s, 'e) nor_flash \<Rightarrow> nat \<Rightarrow> (('s, 'k) storage \<times> queue_iterator, 'e error, (item_header \<times> nat) option) m"
where
  "next_rounds F 0 = diverge"
| "next_rounds F (Suc fuel) =
     bnd (gets (\<lambda>t. flash_range (fst t))) (\<lambda>r.
     bnd (gets (\<lambda>t. iter_next_address (snd t))) (\<lambda>next_addr.
     bnd (case next_addr of
            PageAfter left_page \<Rightarrow> go_to_page_after F left_page
          | Address address \<Rightarrow> ret (Some (calculate_page_index F r address, address))) (\<lambda>position.
     case position of
       None \<Rightarrow> ret None
     | Some (current_page, current_addr) \<Rightarrow>
         visit_page F (next_rounds F fuel) current_page current_addr (page_data_end F r current_page))))"

text \<open>Rounds enough to leave every page once and to stop at every byte of it.\<close>

definition next_fuel :: "('s, 'e) nor_flash \<Rightarrow> flash_range \<Rightarrow> nat" where
  "next_fuel F r = (page_count F r + 1) * (ERASE_SIZE F + 2)"

definition next_inner ::
  "('s, 'e) nor_flash \<Rightarrow> (('s, 'k) storage \<times> queue_iterator, 'e error, (item_header \<times> nat) option) m"
where
  "next_inner F =
     sq (lift_local drop_dirty_cache)
     (bnd (gets (\<lambda>t. next_fuel F (flash_range (fst t)))) (next_rounds F))"

text \<open>An entry is the item and its address; the iterator it borrows stays in the state.\<close>

definition queue_iterator_next ::
  "('s, 'e) nor_flash \<Rightarrow> (('s, 'k) storage \<times> queue_iterator, 'e error, (item \<times> nat) option) m"
where
  "queue_iterator_next F =
     bnd (gets (\<lambda>t. iter_previous_item_states (snd t))) (\<lambda>states.
     sq (if states = AllButCurrentPopped then set_item_states Unpopped else ret ())
     (bnd (run_with_auto_repair (next_inner F) (lift_local (queue_try_repair F))) (\<lambda>value.
      case value of
        None \<Rightarrow> ret None
      | Some (h, address) \<Rightarrow>
          bnd (gets (\<lambda>t. data_buffer (fst t))) (\<lambda>buffer.
          case reborrow h buffer of
            None \<Rightarrow> fail LogicBug
          | Some it \<Rightarrow> ret (Some (it, address))))))"

text \<open>\<open>QueueIteratorEntry::pop\<close>: it returns the bytes of the item.\<close>

definition entry_pop ::
  "('s, 'e) nor_flash \<Rightarrow> item \<times> nat \<Rightarrow> (('s, 'k) storage \<times> queue_iterator, 'e error, u8 list) m"
where
  "entry_pop F entry =
     bnd (gets (\<lambda>t. iter_previous_item_states (snd t))) (\<lambda>states.
     sq (if states = AllButCurrentPopped then set_item_states AllPopped else ret ())
     (sq (lift_local (bnd (erase_data F (item_header (fst entry)) (snd entry)) (\<lambda>_. ret ())))
     (sq (lift_local (on_cache unmark_dirty))
         (ret (item_data_buffer (fst entry))))))"

section \<open>Peeking and popping\<close>

definition peek :: "('s, 'e) nor_flash \<Rightarrow> (('s, 'k) storage, 'e error, u8 list option) m" where
  "peek F =
     bnd (queue_iterator_new F) (\<lambda>iterator.
     with_local iterator (bnd (queue_iterator_next F) (\<lambda>next_value.
       ret (case next_value of Some entry \<Rightarrow> Some (item_data_buffer (fst entry)) | None \<Rightarrow> None))))"

definition pop :: "('s, 'e) nor_flash \<Rightarrow> (('s, 'k) storage, 'e error, u8 list option) m" where
  "pop F =
     bnd (queue_iterator_new F) (\<lambda>iterator.
     with_local iterator (bnd (queue_iterator_next F) (\<lambda>next_value. case next_value of
       Some entry \<Rightarrow> bnd (entry_pop F entry) (\<lambda>data. ret (Some data))
     | None \<Rightarrow> ret None)))"

end
