(* ===== verification/PageModel.thy ===== *)
theory PageModel
  imports Item
begin

text \<open>
  The abstract view of the flash: a page is its state and the list of its slots, a slot is a live
  or an erased item with its data. This theory says which bytes stand for a page and proves what
  the operations of \<open>Storage\<close> and \<open>Item\<close> do on a flash that holds such pages: reads return what
  the pages say, writes append a slot, erasing kills one, and the caches stay right.
\<close>

section \<open>Slots and pages as bytes\<close>

type_synonym slot = "bool \<times> u8 list"
type_synonym apage = "page_state \<times> slot list"

definition slot_header :: "slot \<Rightarrow> item_header" where
  "slot_header sl = \<lparr> ih_length = of_nat (length (snd sl)),
     ih_crc = (if fst sl then Some (adapted_crc32 (snd sl)) else None) \<rparr>"

definition padded :: "('s, 'e) nor_flash \<Rightarrow> u8 list \<Rightarrow> u8 list" where
  "padded F d = d @ replicate (round_up_to_alignment F (length d) - length d) 0"

definition slot_bytes :: "('s, 'e) nor_flash \<Rightarrow> slot \<Rightarrow> u8 list" where
  "slot_bytes F sl = header_bytes F (slot_header sl) @ padded F (snd sl)"

definition slot_size :: "('s, 'e) nor_flash \<Rightarrow> nat \<Rightarrow> nat" where
  "slot_size F len = header_slice_len F + round_up_to_alignment F len"

definition slots_bytes :: "('s, 'e) nor_flash \<Rightarrow> slot list \<Rightarrow> u8 list" where
  "slots_bytes F ss = concat (map (slot_bytes F) ss)"

definition slots_size :: "('s, 'e) nor_flash \<Rightarrow> slot list \<Rightarrow> nat" where
  "slots_size F ss = sum_list (map (\<lambda>sl. slot_size F (length (snd sl))) ss)"

text \<open>What a page of data bytes holds: the slots, then erased bytes.\<close>

definition data_area :: "('s, 'e) nor_flash \<Rightarrow> slot list \<Rightarrow> nat \<Rightarrow> u8 list" where
  "data_area F ss n = slots_bytes F ss @ erased (n - slots_size F ss)"

definition marker_word :: "('s, 'e) nor_flash \<Rightarrow> bool \<Rightarrow> u8 list" where
  "marker_word F is_set = (if is_set then replicate (WORD_SIZE F) MARKER else erased (WORD_SIZE F))"

definition page_bytes :: "('s, 'e) nor_flash \<Rightarrow> apage \<Rightarrow> u8 list" where
  "page_bytes F p = marker_word F (fst p \<noteq> Open) @ data_area F (snd p) (calculate_page_size F)
     @ marker_word F (fst p = Closed)"

definition page_wf :: "('s, 'e) nor_flash \<Rightarrow> apage \<Rightarrow> bool" where
  "page_wf F p \<longleftrightarrow> slots_size F (snd p) \<le> calculate_page_size F
     \<and> (\<forall>sl \<in> set (snd p). length (snd sl) \<le> u16_MAX) \<and> (fst p = Open \<longrightarrow> snd p = [])"

section \<open>Sizes\<close>

text \<open>What an accepted queue configuration guarantees.\<close>

definition config_ok :: "('s, 'e) nor_flash \<Rightarrow> flash_range \<Rightarrow> bool" where
  "config_ok F r \<longleftrightarrow> ERASE_SIZE F dvd fst r \<and> ERASE_SIZE F dvd snd r
     \<and> fst r + ERASE_SIZE F \<le> snd r \<and> 4 * WORD_SIZE F \<le> ERASE_SIZE F \<and> WORD_SIZE F \<le> MAX_WORD_SIZE"

lemma queue_config_ok: "queue_config_try_new F r = Ok (Some r') \<Longrightarrow> config_ok F r \<and> r' = r"
  by (auto simp: queue_config_try_new_def config_try_new_def config_ok_def not_less mult.commute
      split: if_splits)

context nor_flash
begin

lemma header_slice_len_le:
  assumes "WORD_SIZE F \<le> MAX_WORD_SIZE" shows "header_slice_len F \<le> MAX_WORD_SIZE"
proof (cases "WORD_SIZE F \<le> 8")
  case True
  then show ?thesis
    using next_multiple_of_le [of 8 "WORD_SIZE F"]
    by (simp add: header_slice_len_def round_up_to_alignment_def ItemHeader_LENGTH_def MAX_WORD_SIZE_def)
next
  case False
  then have "header_slice_len F \<le> WORD_SIZE F"
    unfolding header_slice_len_def round_up_to_alignment_def ItemHeader_LENGTH_def
    by (intro next_multiple_of_least) simp_all
  then show ?thesis using assms by simp
qed

lemma header_slice_dvd: "WORD_SIZE F dvd header_slice_len F"
  unfolding header_slice_len_def by (rule round_up_dvd) (rule word_pos)

lemma slot_size_dvd: "WORD_SIZE F dvd slot_size F n"
  unfolding slot_size_def using header_slice_dvd round_up_dvd [OF word_pos] by (rule dvd_add)

lemma slots_size_dvd: "WORD_SIZE F dvd slots_size F ss"
  unfolding slots_size_def by (induction ss) (auto intro: slot_size_dvd dvd_add)

lemma slots_size_simps [simp]:
  "slots_size F [] = 0" "slots_size F (sl # ss) = slot_size F (length (snd sl)) + slots_size F ss"
  "slots_size F (ss @ ts) = slots_size F ss + slots_size F ts"
  by (simp_all add: slots_size_def)

lemma length_padded [simp]: "length (padded F d) = round_up_to_alignment F (length d)"
  using round_up_ge [of "length d" F] by (simp add: padded_def)

end

section \<open>Headers as bytes\<close>

lemma take_overwrite_0: "take n (overwrite 0 bs xs) = take n (bs @ drop (length bs) xs)"
  by (simp add: overwrite_def)

lemma header_bytes_eq:
  "header_bytes F h = take (header_slice_len F)
     (to_le_bytes 4 (case ih_crc h of None \<Rightarrow> 0 | Some crc \<Rightarrow> crc) @ to_le_bytes 2 (ih_length h)
      @ to_le_bytes 2 (crc16 (to_le_bytes 2 (ih_length h))) @ replicate 24 0xFF)"
  unfolding header_bytes_def overwrite_def by (simp add: MAX_WORD_SIZE_def)

lemma header_bytes_split:
  "header_bytes F h = to_le_bytes 4 (case ih_crc h of None \<Rightarrow> 0 | Some crc \<Rightarrow> crc) @ to_le_bytes 2 (ih_length h)
      @ to_le_bytes 2 (crc16 (to_le_bytes 2 (ih_length h))) @ take (header_slice_len F - 8) (replicate 24 0xFF)"
  using header_slice_len_ge [of F] by (simp add: header_bytes_eq)

lemma length_header_bytes [simp]:
  "header_slice_len F \<le> MAX_WORD_SIZE \<Longrightarrow> length (header_bytes F h) = header_slice_len F"
  using header_slice_len_ge [of F] by (simp add: header_bytes_split MAX_WORD_SIZE_def)

lemma header_fields:
  "data_crc_field (header_bytes F h) = (case ih_crc h of None \<Rightarrow> 0 | Some crc \<Rightarrow> crc)"
  "length_field (header_bytes F h) = ih_length h"
  "length_crc_field (header_bytes F h) = crc16 (to_le_bytes 2 (ih_length h))"
  "sub_list 4 2 (header_bytes F h) = to_le_bytes 2 (ih_length h)"
  by (simp_all add: header_bytes_split data_crc_field_def length_field_def length_crc_field_def
      sub_list_def from_to_le_bytes)

text \<open>No header reads as erased bytes, because the checksum of the length is never all ones.\<close>

lemma header_bytes_not_erased: "\<not> all_erased (header_bytes F h)"
proof
  assume "all_erased (header_bytes F h)"
  then have "set (to_le_bytes 2 (crc16 (to_le_bytes 2 (ih_length h)))) \<subseteq> {0xFF}"
    by (auto simp: all_erased_def header_bytes_split list_all_iff)
  then have e: "to_le_bytes 2 (crc16 (to_le_bytes 2 (ih_length h))) = [0xFF, 0xFF]"
    by (auto simp: to_le_bytes_2)
  have "(from_le_bytes [0xFF, 0xFF] :: u16) = 0xFFFF" by simp
  then have "crc16 (to_le_bytes 2 (ih_length h)) = 0xFFFF"
    using from_to_le_bytes [of 2 "crc16 (to_le_bytes 2 (ih_length h))"] unfolding e by simp
  then show False by simp
qed

text \<open>Overwriting the header of an item with that of the erased item clears its checksum only.\<close>

lemma map2_and_zeros: "length bs = n \<Longrightarrow> map2 (AND) bs (replicate n 0) = replicate n (0 :: u8)"
  by (rule nth_equalityI) simp_all

lemma to_le_bytes_0: "to_le_bytes n (0 :: 'a::len word) = replicate n 0"
  by (rule nth_equalityI) (simp_all add: to_le_bytes_def)

lemma header_bytes_erase:
  "map2 (AND) (header_bytes F h) (header_bytes F (h\<lparr>ih_crc := None\<rparr>)) = header_bytes F (h\<lparr>ih_crc := None\<rparr>)"
  by (simp add: header_bytes_split zip_append map2_and_self to_le_bytes_0 map2_and_zeros)

section \<open>Bytes at an address\<close>

definition bytes_at :: "u8 list \<Rightarrow> nat \<Rightarrow> u8 list \<Rightarrow> bool" where
  "bytes_at m a bs \<longleftrightarrow> a + length bs \<le> length m \<and> sub_list a (length bs) m = bs"

lemma bytes_at_append [simp]:
  "bytes_at m a (xs @ ys) \<longleftrightarrow> bytes_at m a xs \<and> bytes_at m (a + length xs) ys"
  by (auto simp: bytes_at_def sub_list_def take_add add.commute add.left_commute)

lemma bytes_at_nth:
  "bytes_at m a bs \<longleftrightarrow> a + length bs \<le> length m \<and> (\<forall>i < length bs. m ! (a + i) = bs ! i)"
  by (auto simp: bytes_at_def list_eq_iff_nth_eq)

lemma bytes_at_sub: "bytes_at m a bs \<Longrightarrow> sub_list a (length bs) m = bs"
  by (simp add: bytes_at_def)

lemma bytes_at_erased_take: "bytes_at m a (erased n) \<Longrightarrow> k \<le> n \<Longrightarrow> bytes_at m a (erased k)"
  using erased_append [of k "n - k"] by simp

text \<open>Programming bytes, elsewhere and in place.\<close>

lemma bytes_at_program_other:
  assumes "bytes_at m a bs" and "b + length ps \<le> length m"
    and "b + length ps \<le> a \<or> a + length bs \<le> b"
  shows "bytes_at (program b ps m) a bs"
  using assms by (auto simp: bytes_at_nth nth_program)

lemma bytes_at_program_same:
  assumes "bytes_at m a old" and "length ps = length old"
  shows "bytes_at (program a ps m) a (map2 (AND) old ps)"
  using assms by (auto simp: bytes_at_nth nth_program)

lemma bytes_at_program_erased:
  assumes "bytes_at m a (erased (length ps))"
  shows "bytes_at (program a ps m) a ps"
  using bytes_at_program_same [OF assms, of ps] map2_and_erased [of ps] by simp

lemma bytes_at_overwrite:
  assumes "a + length bs \<le> length m"
  shows "bytes_at (overwrite a bs m) a bs"
  using assms by (auto simp: bytes_at_nth nth_overwrite)

lemma bytes_at_overwrite_other:
  assumes "bytes_at m a bs" and "b + length ps \<le> length m"
    and "b + length ps \<le> a \<or> a + length bs \<le> b"
  shows "bytes_at (overwrite b ps m) a bs"
  using assms by (auto simp: bytes_at_nth nth_overwrite)

section \<open>Reading\<close>

text \<open>An operation that only reads: it may change the driver, not what the chip holds.\<close>

definition only_reads :: "('s \<Rightarrow> bool) \<Rightarrow> ('s \<Rightarrow> u8 list) \<Rightarrow> ('s, 'k) storage \<Rightarrow> ('s, 'k) storage \<Rightarrow> bool" where
  "only_reads ok chip s t \<longleftrightarrow> ok (flash t) \<and> chip (flash t) = chip (flash s) \<and> t = s\<lparr>flash := flash t\<rparr>"

lemma only_reads_refl [simp]: "ok (flash s) \<Longrightarrow> only_reads ok chip s s"
  by (simp add: only_reads_def)

lemma only_reads_trans: "only_reads ok chip s t \<Longrightarrow> only_reads ok chip t u \<Longrightarrow> only_reads ok chip s u"
  by (simp add: only_reads_def) (metis storage.surjective storage.update_convs(1))

lemma only_reads_simps:
  assumes "only_reads ok chip s t"
  shows "ok (flash t)" "chip (flash t) = chip (flash s)" "flash_range t = flash_range s"
    "cache t = cache s" "data_buffer t = data_buffer s"
proof -
  have t: "t = s\<lparr>flash := flash t\<rparr>" using assms by (simp add: only_reads_def)
  show "flash_range t = flash_range s" "cache t = cache s" "data_buffer t = data_buffer s"
    by (subst t, simp)+
qed (use assms in \<open>simp_all add: only_reads_def\<close>)

context nor_flash
begin

abbreviation reads :: "('s, 'k) storage \<Rightarrow> ('s, 'k) storage \<Rightarrow> bool" where
  "reads \<equiv> only_reads inv mem"

lemma wp_flash_read:
  assumes "inv (flash s)" "READ_SIZE F dvd a" "READ_SIZE F dvd n" "0 < n" "a + n \<le> length (mem (flash s))"
  shows "wp (on_flash (nf_read F a n)) (\<lambda>bs t. bs = sub_list a n (mem (flash s)) \<and> reads s t) no_err s"
  using read_bytes [OF assms] by (auto simp: only_reads_def elim!: wp_mono)

lemma wp_flash_read_words:
  assumes "inv (flash s)" "WORD_SIZE F dvd a" "WORD_SIZE F dvd length bs" "bs \<noteq> []"
    and "bytes_at (mem (flash s)) a bs" "n = length bs"
  shows "wp (on_flash (nf_read F a n)) (\<lambda>bs' t. bs' = bs \<and> reads s t) no_err s"
proof -
  have "wp (on_flash (nf_read F a n)) (\<lambda>bs t. bs = sub_list a n (mem (flash s)) \<and> reads s t) no_err s"
    using assms by (intro wp_flash_read) (auto simp: bytes_at_def intro: dvd_trans [OF word_multiples(1)])
  then show ?thesis using assms by (simp add: bytes_at_def)
qed

lemma next_item_address_slot:
  "length (snd sl) \<le> u16_MAX \<Longrightarrow> next_item_address F (slot_header sl) a = a + slot_size F (length (snd sl))"
  by (simp add: next_item_address_def slot_header_def data_address_def slot_size_def header_slice_len_def
      unat_of_nat)

lemma length_slot_bytes:
  "header_slice_len F \<le> MAX_WORD_SIZE \<Longrightarrow> length (slot_bytes F sl) = slot_size F (length (snd sl))"
  by (simp add: slot_bytes_def slot_size_def)

lemma length_slots_bytes:
  "header_slice_len F \<le> MAX_WORD_SIZE \<Longrightarrow> length (slots_bytes F ss) = slots_size F ss"
  by (induction ss) (simp_all add: slots_bytes_def length_slot_bytes)

lemma wp_read_header_bytes:
  assumes "inv (flash s)" "WORD_SIZE F dvd a" "header_slice_len F \<le> MAX_WORD_SIZE"
    and "bytes_at (mem (flash s)) a (header_bytes F h)"
  shows "wp (read_header_bytes F a k) (\<lambda>r t. r = Some (header_bytes F h) \<and> reads s t) no_err s"
proof -
  have "header_bytes F h \<noteq> []" using header_slice_len_ge [of F] assms(3) by (auto dest: arg_cong [of _ _ length])
  then have "wp (on_flash (nf_read F a (header_slice_len F))) (\<lambda>bs t. bs = header_bytes F h \<and> reads s t) no_err s"
    using assms header_slice_dvd by (intro wp_flash_read_words) simp_all
  then show ?thesis
    by (cases k) (auto simp: header_bytes_not_erased header_fields elim!: wp_mono)
qed

lemma wp_read_new_slot:
  assumes "inv (flash s)" "WORD_SIZE F dvd a" "WORD_SIZE F \<le> MAX_WORD_SIZE"
    and "bytes_at (mem (flash s)) a (slot_bytes F sl)" "length (snd sl) \<le> u16_MAX"
    and "a + slot_size F (length (snd sl)) \<le> e"
  shows "wp (read_new F a e) (\<lambda>r t. r = Some (slot_header sl) \<and> reads s t) no_err s"
proof -
  note hsl = header_slice_len_le [OF assms(3)]
  have "wp (read_header_bytes F a 1) (\<lambda>r t. r = Some (header_bytes F (slot_header sl)) \<and> reads s t) no_err s"
    using assms hsl by (intro wp_read_header_bytes) (simp_all add: slot_bytes_def)
  moreover have "\<not> e < a + header_slice_len F" using assms(6) by (simp add: slot_size_def)
  ultimately show ?thesis
    using hsl word_pos assms(5,6) next_item_address_slot [of sl a]
    by (auto simp: read_new_def header_fields slot_header_def Let_def split: option.splits elim!: wp_mono)
qed

lemma wp_read_new_end:
  assumes "inv (flash s)" "WORD_SIZE F dvd a" "WORD_SIZE F \<le> MAX_WORD_SIZE"
    and "bytes_at (mem (flash s)) a (erased (e - a))"
  shows "wp (read_new F a e) (\<lambda>r t. r = None \<and> reads s t) no_err s"
proof (cases "a + header_slice_len F > e")
  case True
  then show ?thesis using assms word_pos by (simp add: read_new_def)
next
  case False
  note hsl = header_slice_len_le [OF assms(3)]
  have "wp (on_flash (nf_read F a (header_slice_len F)))
      (\<lambda>bs t. bs = erased (header_slice_len F) \<and> reads s t) no_err s"
    using assms False header_slice_dvd header_slice_len_ge [of F] bytes_at_erased_take [OF assms(4), of "header_slice_len F"]
    by (intro wp_flash_read_words) (auto simp: erased_def)
  moreover have "all_erased (erased n)" for n by (simp add: all_erased_def erased_def list_all_iff)
  ultimately show ?thesis
    using False hsl word_pos by (auto simp: read_new_def elim!: wp_mono)
qed

end

section \<open>Walking over the slots\<close>

lemma wp_traverse_step:
  fixes s :: "('s, 'k) storage"
  assumes "wp (read_new F a e) (\<lambda>r t. case r of
      Some h \<Rightarrow>
        if callback h a
        then wp (traverse F callback) Q E (t, \<lparr>current_address = next_item_address F h a, end_address = e\<rparr>)
        else Q (Some h, a) (t, \<lparr>current_address = next_item_address F h a, end_address = e\<rparr>)
    | None \<Rightarrow> Q (None, a) (t, \<lparr>current_address = a, end_address = e\<rparr>))
    (\<lambda>err t. err = Corrupted \<and> wp (traverse F callback) Q E (t, \<lparr>current_address = a + WORD_SIZE F, end_address = e\<rparr>)) s"
  shows "wp (traverse F callback) Q E (s, \<lparr>current_address = a, end_address = e\<rparr>)"
proof (cases "read_new F a e s")
  case (Pair r t)
  then show ?thesis
    using assms unfolding wp_def
    by (subst traverse.simps)
      (auto simp: lift_local_def Let_def wp_def split: option.splits if_splits outcome.splits)
qed

lemma wp_traverse:
  assumes "wp (read_new F a e) (\<lambda>r t. case r of
      Some h \<Rightarrow>
        if callback h a
        then wp (traverse F callback) Q E (t, \<lparr>current_address = next_item_address F h a, end_address = e\<rparr>)
        else Q (Some h, a) (t, \<lparr>current_address = next_item_address F h a, end_address = e\<rparr>)
    | None \<Rightarrow> Q (None, a) (t, \<lparr>current_address = a, end_address = e\<rparr>)) no_err s"
  shows "wp (traverse F callback) Q E (s, \<lparr>current_address = a, end_address = e\<rparr>)"
  by (rule wp_traverse_step, rule wp_mono [OF assms]) simp_all

lemma dropWhile_slots_Cons:
  "dropWhile P xs = y # ys \<Longrightarrow> xs = takeWhile P xs @ y # ys \<and> \<not> P y"
  by (metis dropWhile_eq_Cons_conv takeWhile_dropWhile_id)

context nor_flash
begin

text \<open>The first slot the callback does not skip, or the end of the slots.\<close>

definition walk :: "(item_header \<Rightarrow> bool) \<Rightarrow> slot list \<Rightarrow> nat \<Rightarrow> item_header option \<times> nat" where
  "walk skip ss a = (case dropWhile (\<lambda>sl. skip (slot_header sl)) ss of
     [] \<Rightarrow> (None, a + slots_size F ss)
   | sl # _ \<Rightarrow> (Some (slot_header sl), a + slots_size F (takeWhile (\<lambda>sl. skip (slot_header sl)) ss)))"

lemma data_area_Cons:
  "slots_size F (sl # ss) \<le> n \<Longrightarrow>
   data_area F (sl # ss) n = slot_bytes F sl @ data_area F ss (n - slot_size F (length (snd sl)))"
  by (simp add: data_area_def slots_bytes_def)

lemma walk_skip:
  "skip (slot_header sl) \<Longrightarrow> walk skip (sl # ss) a = walk skip ss (a + slot_size F (length (snd sl)))"
  by (simp add: walk_def add.assoc cong: list.case_cong)

lemma walk_hit: "\<not> skip (slot_header sl) \<Longrightarrow> walk skip (sl # ss) a = (Some (slot_header sl), a)"
  by (simp add: walk_def)

lemma wp_traverse_area:
  assumes "inv (flash s)" "WORD_SIZE F dvd a" "WORD_SIZE F \<le> MAX_WORD_SIZE"
    and "bytes_at (mem (flash s)) a (data_area F ss (e - a))" "a + slots_size F ss \<le> e"
    and "\<forall>sl \<in> set ss. length (snd sl) \<le> u16_MAX"
  shows "wp (traverse F (\<lambda>h _. skip h)) (\<lambda>r t. r = walk skip ss a \<and> reads s (fst t)) no_err
    (s, \<lparr>current_address = a, end_address = e\<rparr>)"
  using assms
proof (induction ss arbitrary: s a)
  case Nil
  then have "wp (read_new F a e) (\<lambda>r t. r = None \<and> reads s t) no_err s"
    by (intro wp_read_new_end) (simp_all add: data_area_def slots_bytes_def)
  then show ?case
    by (intro wp_traverse) (auto simp: walk_def elim!: wp_mono)
next
  case (Cons sl ss)
  let ?n = "slot_size F (length (snd sl))"
  have area: "bytes_at (mem (flash s)) a (slot_bytes F sl)"
    "bytes_at (mem (flash s)) (a + ?n) (data_area F ss (e - (a + ?n)))"
    using Cons.prems data_area_Cons [of sl ss "e - a"] length_slot_bytes header_slice_len_le
    by (auto simp: diff_diff_left)
  have rd: "wp (read_new F a e) (\<lambda>r t. r = Some (slot_header sl) \<and> reads s t) no_err s"
    using Cons.prems area by (intro wp_read_new_slot) auto
  have nxt: "next_item_address F (slot_header sl) a = a + ?n"
    using Cons.prems by (simp add: next_item_address_slot)
  show ?case
  proof (intro wp_traverse wp_mono [OF rd])
    fix r t assume r: "r = Some (slot_header sl) \<and> reads s t"
    then have t: "inv (flash t)" "mem (flash t) = mem (flash s)"
      using only_reads_simps(1,2) [of inv mem s t] by blast+
    have "wp (traverse F (\<lambda>h _. skip h)) (\<lambda>r u. r = walk skip ss (a + ?n) \<and> reads t (fst u)) no_err
        (t, \<lparr>current_address = a + ?n, end_address = e\<rparr>)"
      using Cons.prems area t slot_size_dvd by (intro Cons.IH) auto
    then have "skip (slot_header sl) \<Longrightarrow> wp (traverse F (\<lambda>h _. skip h))
        (\<lambda>r u. r = walk skip (sl # ss) a \<and> reads s (fst u)) no_err
        (t, \<lparr>current_address = a + ?n, end_address = e\<rparr>)"
      using r by (auto simp: walk_skip elim!: wp_mono dest: only_reads_trans)
    then show "case r of
        Some h \<Rightarrow>
          if skip h
          then wp (traverse F (\<lambda>h _. skip h)) (\<lambda>r u. r = walk skip (sl # ss) a \<and> reads s (fst u)) no_err
            (t, \<lparr>current_address = next_item_address F h a, end_address = e\<rparr>)
          else (Some h, a) = walk skip (sl # ss) a
            \<and> reads s (fst (t, \<lparr>current_address = next_item_address F h a, end_address = e\<rparr>))
      | None \<Rightarrow> (None, a) = walk skip (sl # ss) a
          \<and> reads s (fst (t, \<lparr>current_address = a, end_address = e\<rparr>))"
      using r by (simp add: nxt walk_hit)
  qed simp
qed

end

section \<open>Reading, writing and erasing an item\<close>

text \<open>An operation that reads into the caller's buffer.\<close>

definition only_fills :: "('s \<Rightarrow> bool) \<Rightarrow> ('s \<Rightarrow> u8 list) \<Rightarrow> ('s, 'k) storage \<Rightarrow> ('s, 'k) storage \<Rightarrow> bool" where
  "only_fills ok chip s t \<longleftrightarrow> ok (flash t) \<and> chip (flash t) = chip (flash s)
     \<and> flash_range t = flash_range s \<and> cache t = cache s
     \<and> length (data_buffer t) = length (data_buffer s)"

lemma only_reads_fills: "only_reads ok chip s t \<Longrightarrow> only_fills ok chip s t"
  using only_reads_simps [of ok chip s t] by (simp add: only_fills_def)

lemma only_fills_trans: "only_fills ok chip s t \<Longrightarrow> only_fills ok chip t u \<Longrightarrow> only_fills ok chip s u"
  by (simp add: only_fills_def)

lemma reads_into_buffer:
  assumes "only_reads ok chip s t" "length bs \<le> length (data_buffer s)"
  shows "only_fills ok chip s (t\<lparr>data_buffer := overwrite 0 bs (data_buffer t)\<rparr>)"
  using only_reads_simps [OF assms(1)] assms(2) by (simp add: only_fills_def)

lemma take_padded [simp]: "take (length d) (overwrite 0 (padded F d) b) = d"
  by (simp add: overwrite_def padded_def)

context nor_flash
begin

lemma wp_read_item_data:
  assumes "inv (flash s)" "WORD_SIZE F dvd a" "bytes_at (mem (flash s)) a (padded F d)"
    and "round_up_to_alignment F (length d) \<le> length (data_buffer s)"
    and "unat (ih_length h) = length d"
  shows "wp (read_item_data F h (adapted_crc32 d) a (round_up_to_alignment F (length d)) k)
    (\<lambda>present t. present \<and> only_fills inv mem s t \<and> take (length d) (data_buffer t) = d) no_err s"
proof (cases "d = []")
  case True
  then show ?thesis using assms by (cases k) (simp_all add: only_fills_def)
next
  case False
  then have z: "round_up_to_alignment F (length d) \<noteq> 0"
    using round_up_ge [of "length d" F] length_greater_0_conv [of d] by linarith
  then have "padded F d \<noteq> []" by (auto dest: arg_cong [of _ _ length])
  then have "wp (on_flash (nf_read F a (round_up_to_alignment F (length d))))
      (\<lambda>bs t. bs = padded F d \<and> reads s t) no_err s"
    using assms round_up_dvd [OF word_pos] by (intro wp_flash_read_words) simp_all
  then have rd: "wp (on_flash (nf_read F a (round_up_to_alignment F (length d))))
      (\<lambda>bs t. only_fills inv mem s (t\<lparr>data_buffer := overwrite 0 bs (data_buffer t)\<rparr>)
        \<and> take (length d) (overwrite 0 bs (data_buffer t)) = d) no_err s"
    by (rule wp_mono) (use assms(4) in \<open>auto intro: reads_into_buffer\<close>)
  have "wp (if round_up_to_alignment F (length d) \<noteq> 0
      then bnd (on_flash (nf_read F a (round_up_to_alignment F (length d)))) (\<lambda>bytes.
        modify (\<lambda>s. s\<lparr> data_buffer := overwrite 0 bytes (data_buffer s) \<rparr>))
      else ret ()) (\<lambda>_ t. only_fills inv mem s t \<and> take (length d) (data_buffer t) = d) no_err s"
    using rd z by simp
  then have "wp (sq (if round_up_to_alignment F (length d) \<noteq> 0
      then bnd (on_flash (nf_read F a (round_up_to_alignment F (length d)))) (\<lambda>bytes.
        modify (\<lambda>s. s\<lparr> data_buffer := overwrite 0 bytes (data_buffer s) \<rparr>))
      else ret ())
      (bnd (gets (\<lambda>s. adapted_crc32 (take (unat (ih_length h)) (data_buffer s)))) (\<lambda>data_crc.
       if data_crc = adapted_crc32 d then ret True else rest)))
      (\<lambda>present t. present \<and> only_fills inv mem s t \<and> take (length d) (data_buffer t) = d) no_err s"
    for rest
    unfolding wp_sq by (rule wp_mono) (simp_all add: assms(5))
  then show ?thesis by (cases k) (simp_all only: read_item_data.simps)
qed

lemma wp_read_item_live:
  assumes "inv (flash s)" "WORD_SIZE F dvd a" "WORD_SIZE F \<le> MAX_WORD_SIZE"
    and "bytes_at (mem (flash s)) a (slot_bytes F (True, d))" "length d \<le> u16_MAX"
    and "a + slot_size F (length d) \<le> e"
  shows "wp (read_item F (slot_header (True, d)) a e)
    (\<lambda>mi t. mi = Present \<lparr> item_header = slot_header (True, d), item_data_buffer = data_buffer t \<rparr>
        \<and> only_fills inv mem s t \<and> take (length d) (data_buffer t) = d
        \<and> round_up_to_alignment F (length d) \<le> length (data_buffer s))
    (\<lambda>err t. err = BufferTooSmall (round_up_to_alignment F (length d)) \<and> t = s
        \<and> length (data_buffer s) < round_up_to_alignment F (length d)) s"
proof -
  have h: "unat (ih_length (slot_header (True, d))) = length d" "ih_crc (slot_header (True, d)) = Some (adapted_crc32 d)"
    using assms(5) by (simp_all add: slot_header_def unat_of_nat)
  have a: "data_address F a = a + header_slice_len F"
    by (simp add: data_address_def header_slice_len_def)
  have "wp (read_item_data F (slot_header (True, d)) (adapted_crc32 d) (a + header_slice_len F)
        (round_up_to_alignment F (length d)) 1)
      (\<lambda>present t. present \<and> only_fills inv mem s t \<and> take (length d) (data_buffer t) = d) no_err s"
    if "round_up_to_alignment F (length d) \<le> length (data_buffer s)"
    using assms h that header_slice_dvd header_slice_len_le [OF assms(3)]
    by (intro wp_read_item_data) (simp_all add: slot_bytes_def)
  then show ?thesis
    using assms(6)
    by (auto simp: read_item_def h a slot_size_def Let_def not_less simp del: read_item_data.simps
        elim!: wp_mono)
qed

end

lemma padded_split:
  fixes F :: "('s, 'e) nor_flash" and d :: "u8 list"
  assumes "0 < WORD_SIZE F" "WORD_SIZE F \<le> MAX_WORD_SIZE"
  defines "r \<equiv> round_down_to_alignment F (length d)"
  shows "padded F d = take r d @ (if drop r d = [] then []
      else take (round_up_to_alignment F (length (drop r d))) (overwrite 0 (drop r d) (replicate MAX_WORD_SIZE 0)))"
proof -
  let ?W = "WORD_SIZE F"
  have len: "length d = r + length d mod ?W" by (simp add: r_def round_down_to_alignment_def)
  then have left: "length (drop r d) = length d mod ?W" by simp
  show ?thesis
  proof (cases "length d mod ?W = 0")
    case True
    then show ?thesis using left by (simp add: padded_def round_up_id mod_eq_0_iff_dvd)
  next
    case False
    have m: "length d mod ?W < ?W" using assms(1) by simp
    have up: "round_up_to_alignment F (length d) = r + ?W"
      using False len m by (simp add: round_up_to_alignment_def next_multiple_of_def)
    have up': "round_up_to_alignment F (length d mod ?W) = ?W"
      using False m by (simp add: round_up_to_alignment_def next_multiple_of_def)
    have "?W - length d mod ?W \<le> MAX_WORD_SIZE - length d mod ?W" using assms(2) by simp
    then have "take ?W (overwrite 0 (drop r d) (replicate MAX_WORD_SIZE 0))
        = drop r d @ replicate (?W - length d mod ?W) 0"
      using left m by (simp add: overwrite_def min_absorb1 min_absorb2)
    moreover have "drop r d \<noteq> []" using left False by auto
    ultimately show ?thesis using up up' len left by (simp add: padded_def flip: append_assoc)
  qed
qed

text \<open>What a storage becomes: the bytes of its chip and its cache; range and buffer stay.\<close>

definition becomes ::
  "('s \<Rightarrow> bool) \<Rightarrow> ('s \<Rightarrow> u8 list) \<Rightarrow> ('s, 'k) storage \<Rightarrow> u8 list \<Rightarrow> 'k cache \<Rightarrow> ('s, 'k) storage \<Rightarrow> bool"
where
  "becomes ok chip s m c t \<longleftrightarrow> ok (flash t) \<and> chip (flash t) = m \<and> cache t = c
     \<and> flash_range t = flash_range s \<and> data_buffer t = data_buffer s"

lemma becomes_refl: "ok (flash s) \<Longrightarrow> becomes ok chip s (chip (flash s)) (cache s) s"
  by (simp add: becomes_def)

lemma becomes_cache [simp]: "becomes ok chip (s\<lparr>cache := c\<rparr>) = becomes ok chip s"
  by (simp add: becomes_def fun_eq_iff)

lemma becomes_trans:
  "becomes ok chip s m c t \<Longrightarrow> becomes ok chip t m' c' u \<Longrightarrow> becomes ok chip s m' c' u"
  by (simp add: becomes_def)

context nor_flash
begin

text \<open>All but the erasing of items writes where the flash is erased.\<close>

lemma wp_flash_write:
  assumes "inv (flash s)" "WORD_SIZE F dvd a" "WORD_SIZE F dvd length bs" "bs \<noteq> []"
    and "bytes_at (mem (flash s)) a (erased (length bs))"
  shows "wp (on_flash (nf_write F a bs))
    (\<lambda>_. becomes inv mem s (program a bs (mem (flash s))) (cache s)) no_err s"
  using write_erased [of "flash s" a bs] assms
  by (auto simp: becomes_def bytes_at_def intro: dvd_trans [OF word_multiples(2)] elim!: wp_mono)

lemma header_bytes_writable:
  assumes "WORD_SIZE F \<le> MAX_WORD_SIZE"
  shows "header_bytes F h \<noteq> []" "WORD_SIZE F dvd length (header_bytes F h)"
  using header_slice_len_le [OF assms] header_slice_len_ge [of F] header_slice_dvd
  by (auto dest: arg_cong [of _ _ length])

lemma wp_header_write:
  assumes "inv (flash s)" "WORD_SIZE F dvd a" "WORD_SIZE F \<le> MAX_WORD_SIZE"
    and "bytes_at (mem (flash s)) a (erased (header_slice_len F))"
  shows "wp (header_write F h a)
    (\<lambda>_. becomes inv mem s (program a (header_bytes F h) (mem (flash s))) (cache s)) no_err s"
  using assms header_slice_len_le [OF assms(3)] header_bytes_writable [OF assms(3)]
  unfolding header_write_def wp_sq wp_assert_that
  by (auto intro!: wp_flash_write simp del: wp_on_flash)

text \<open>Two writes one after the other are one write of all the bytes.\<close>

lemma wp_two_writes:
  assumes "wp x (\<lambda>_. becomes inv mem s (program a bs (mem (flash s))) c) no_err s"
    and "\<And>t. becomes inv mem s (program a bs (mem (flash s))) c t \<Longrightarrow>
      wp y (\<lambda>_. becomes inv mem t (program (a + length bs) cs (mem (flash t))) (cache t)) no_err t"
    and "a + length (bs @ cs) \<le> length (mem (flash s))"
  shows "wp (sq x y) (\<lambda>_. becomes inv mem s (program a (bs @ cs) (mem (flash s))) c) no_err s"
  unfolding wp_sq
proof (rule wp_mono [OF assms(1)])
  fix u t assume t: "becomes inv mem s (program a bs (mem (flash s))) c t"
  then show "wp y (\<lambda>_. becomes inv mem s (program a (bs @ cs) (mem (flash s))) c) no_err t"
    using program_append2 [OF assms(3)] by (intro wp_mono [OF assms(2) [OF t]]) (auto simp: becomes_def)
qed simp

lemma program_Nil [simp]: "program a [] m = m"
  by (simp add: program_def overwrite_def)

lemma wp_write_if_any:
  assumes "inv (flash s)" "WORD_SIZE F dvd a" "WORD_SIZE F dvd length bs"
    and "bytes_at (mem (flash s)) a (erased (length bs))"
  shows "wp (if bs \<noteq> [] then on_flash (nf_write F a bs) else ret ())
    (\<lambda>_. becomes inv mem s (program a bs (mem (flash s))) (cache s)) no_err s"
  using assms by (cases "bs = []") (simp_all add: becomes_refl wp_flash_write del: wp_on_flash)

text \<open>The data of an item: its whole words, then what is left filled up with zeros.\<close>

lemma wp_write_data:
  fixes d :: "u8 list"
  defines "r \<equiv> round_down_to_alignment F (length d)"
  assumes "inv (flash s)" "WORD_SIZE F dvd a" "WORD_SIZE F \<le> MAX_WORD_SIZE"
    and "bytes_at (mem (flash s)) a (erased (length (padded F d)))"
  shows "wp (sq (if take r d \<noteq> [] then on_flash (nf_write F a (take r d)) else ret ())
      (if drop r d \<noteq> []
       then let extend_len = round_up_to_alignment F (length (drop r d))
            in sq (assert_that (extend_len \<le> MAX_WORD_SIZE))
                  (on_flash (nf_write F (a + length (take r d))
                    (take extend_len (overwrite 0 (drop r d) (replicate MAX_WORD_SIZE 0)))))
       else ret ()))
    (\<lambda>_. becomes inv mem s (program a (padded F d) (mem (flash s))) (cache s)) no_err s"
proof -
  define left where "left = (if drop r d = [] then []
      else take (round_up_to_alignment F (length (drop r d))) (overwrite 0 (drop r d) (replicate MAX_WORD_SIZE 0)))"
  have W: "0 < WORD_SIZE F" by (rule word_pos)
  have pad: "padded F d = take r d @ left"
    unfolding left_def r_def by (rule padded_split) (use W assms(4) in simp_all)
  have up: "round_up_to_alignment F (length (drop r d)) \<le> MAX_WORD_SIZE"
    using round_down_less [OF W, of "length d"] assms(4)
      next_multiple_of_least [of "WORD_SIZE F" "WORD_SIZE F" "length d - r"]
    by (simp add: round_up_to_alignment_def r_def) linarith
  then have len: "length left = (if drop r d = [] then 0 else round_up_to_alignment F (length (drop r d)))"
    using round_up_ge [of "length (drop r d)" F] by (auto simp: left_def overwrite_def)
  have nil: "left = [] \<longleftrightarrow> drop r d = []"
  proof (cases "drop r d = []")
    case False
    then have "length (drop r d) \<le> length left" using len round_up_ge by simp
    moreover have "0 < length (drop r d)" using False by simp
    ultimately show ?thesis using False by auto
  qed (simp add: left_def)
  have dvd: "WORD_SIZE F dvd length (take r d)" "WORD_SIZE F dvd length left"
    using round_down_le [of F "length d"] round_down_dvd [of F "length d"] len round_up_dvd [OF W]
    by (simp_all add: r_def)
  have free: "bytes_at (mem (flash s)) a (erased (length (take r d)))"
    "bytes_at (mem (flash s)) (a + length (take r d)) (erased (length left))"
    using assms(5) unfolding pad length_append erased_append by simp_all
  show ?thesis
    unfolding pad
  proof (rule wp_two_writes)
    show "wp (if take r d \<noteq> [] then on_flash (nf_write F a (take r d)) else ret ())
        (\<lambda>_. becomes inv mem s (program a (take r d) (mem (flash s))) (cache s)) no_err s"
      using assms dvd free by (intro wp_write_if_any) simp_all
    show "a + length (take r d @ left) \<le> length (mem (flash s))" using free by (simp add: bytes_at_def)
    fix u assume u: "becomes inv mem s (program a (take r d) (mem (flash s))) (cache s) u"
    then have "bytes_at (mem (flash u)) (a + length (take r d)) (erased (length left))"
      using free by (auto simp: becomes_def bytes_at_def [of _ a] intro!: bytes_at_program_other)
    then have "wp (if left \<noteq> [] then on_flash (nf_write F (a + length (take r d)) left) else ret ())
        (\<lambda>_. becomes inv mem u (program (a + length (take r d)) left (mem (flash u))) (cache u)) no_err u"
      using u assms dvd pad by (intro wp_write_if_any) (simp_all add: becomes_def)
    then show "wp (if drop r d \<noteq> []
         then let extend_len = round_up_to_alignment F (length (drop r d))
              in sq (assert_that (extend_len \<le> MAX_WORD_SIZE))
                    (on_flash (nf_write F (a + length (take r d))
                      (take extend_len (overwrite 0 (drop r d) (replicate MAX_WORD_SIZE 0)))))
         else ret ())
        (\<lambda>_. becomes inv mem u (program (a + length (take r d)) left (mem (flash u))) (cache u)) no_err u"
      using up nil by (cases "drop r d = []") (simp_all add: left_def Let_def del: wp_on_flash)
  qed
qed

lemma wp_write_raw:
  fixes s :: "('s, 'k) storage"
  assumes "inv (flash s)" "WORD_SIZE F dvd a" "WORD_SIZE F \<le> MAX_WORD_SIZE"
    and "bytes_at (mem (flash s)) a (erased (slot_size F (length d)))"
  shows "wp (write_raw F h d a)
    (\<lambda>_. becomes inv mem s (program a (header_bytes F h @ padded F d) (mem (flash s)))
      (notice_item_written F (flash_range s) a h (cache s))) no_err s"
proof -
  define s' where "s' = s\<lparr>cache := notice_item_written F (flash_range s) a h (cache s)\<rparr>"
  define data where "data = (let r = round_down_to_alignment F (length d); data_addr = data_address F a
      in sq (if take r d \<noteq> [] then on_flash (nf_write F data_addr (take r d)) else ret ())
        (if drop r d \<noteq> []
         then let extend_len = round_up_to_alignment F (length (drop r d))
              in sq (assert_that (extend_len \<le> MAX_WORD_SIZE))
                    (on_flash (nf_write F (data_addr + length (take r d))
                      (take extend_len (overwrite 0 (drop r d) (replicate MAX_WORD_SIZE 0)))))
         else ret () :: (('s, 'k) storage, 'e error, unit) m))"
  note hsl = header_slice_len_le [OF assms(3)]
  have a: "data_address F a = a + length (header_bytes F h)"
    using hsl by (simp add: data_address_def header_slice_len_def)
  have free: "bytes_at (mem (flash s')) a (erased (header_slice_len F))"
    "bytes_at (mem (flash s')) (a + header_slice_len F) (erased (length (padded F d)))"
    using assms(4) unfolding slot_size_def erased_append by (simp_all add: s'_def)
  have "wp (sq (header_write F h a) data)
      (\<lambda>_. becomes inv mem s' (program a (header_bytes F h @ padded F d) (mem (flash s'))) (cache s')) no_err s'"
  proof (rule wp_two_writes)
    show "wp (header_write F h a)
        (\<lambda>_. becomes inv mem s' (program a (header_bytes F h) (mem (flash s'))) (cache s')) no_err s'"
      using assms free by (intro wp_header_write) (simp_all add: s'_def)
    show "a + length (header_bytes F h @ padded F d) \<le> length (mem (flash s'))"
      using free hsl by (simp add: bytes_at_def)
    fix t assume t: "becomes inv mem s' (program a (header_bytes F h) (mem (flash s'))) (cache s') t"
    then have "bytes_at (mem (flash t)) (a + length (header_bytes F h)) (erased (length (padded F d)))"
      using free hsl by (auto simp: becomes_def bytes_at_def [of _ a] intro!: bytes_at_program_other)
    then show "wp data (\<lambda>_. becomes inv mem t
        (program (a + length (header_bytes F h)) (padded F d) (mem (flash t))) (cache t)) no_err t"
      using t assms hsl header_slice_dvd unfolding data_def Let_def a
      by (intro wp_write_data [unfolded Let_def]) (simp_all add: becomes_def slot_size_def)
  qed
  then show ?thesis
    unfolding write_raw_def data_def s'_def Let_def wp_bnd wp_sq wp_gets wp_on_cache by simp
qed

lemma wp_write_new:
  assumes "inv (flash s)" "WORD_SIZE F dvd a" "WORD_SIZE F \<le> MAX_WORD_SIZE"
    and "bytes_at (mem (flash s)) a (erased (slot_size F (length d)))"
  shows "wp (write_new F a d)
    (\<lambda>_. becomes inv mem s (program a (slot_bytes F (True, d)) (mem (flash s)))
      (notice_item_written F (flash_range s) a (slot_header (True, d)) (cache s))) no_err s"
  using wp_write_raw [OF assms, of "slot_header (True, d)"]
  by (simp add: write_new_def slot_header_def slot_bytes_def Let_def)

end

text \<open>The header of an item is overwritten.\<close>

context multiwrite_nor_flash
begin

lemma wp_header_overwrite:
  assumes "inv (flash s)" "WORD_SIZE F dvd a" "WORD_SIZE F \<le> MAX_WORD_SIZE"
    and "a + header_slice_len F \<le> length (mem (flash s))"
  shows "wp (header_write F h a)
    (\<lambda>_. becomes inv mem s (program a (header_bytes F h) (mem (flash s))) (cache s)) no_err s"
  using write_bytes [of "flash s" a "header_bytes F h"] assms header_slice_len_le [OF assms(3)]
    header_bytes_writable [OF assms(3)]
  unfolding header_write_def wp_sq wp_assert_that
  by (auto simp: becomes_def intro: dvd_trans [OF word_multiples(2)] elim!: wp_mono)

lemma wp_erase_data:
  assumes "inv (flash s)" "WORD_SIZE F dvd a" "WORD_SIZE F \<le> MAX_WORD_SIZE"
    and "a + header_slice_len F \<le> length (mem (flash s))"
  shows "wp (erase_data F (slot_header (l, d)) a)
    (\<lambda>_. becomes inv mem s (program a (header_bytes F (slot_header (False, d))) (mem (flash s)))
      (notice_item_erased F (flash_range s) a (slot_header (False, d)) (cache s))) no_err s"
proof -
  have h: "(slot_header (l, d))\<lparr>ih_crc := None\<rparr> = slot_header (False, d)" by (simp add: slot_header_def)
  let ?s = "s\<lparr>cache := notice_item_erased F (flash_range s) a (slot_header (False, d)) (cache s)\<rparr>"
  have "wp (header_write F (slot_header (False, d)) a)
      (\<lambda>_. becomes inv mem ?s (program a (header_bytes F (slot_header (False, d))) (mem (flash ?s))) (cache ?s)) no_err ?s"
    using assms by (intro wp_header_overwrite) simp_all
  then show ?thesis by (auto simp: erase_data_def h Let_def becomes_def elim!: wp_mono)
qed

text \<open>The bytes of a slot that is erased in place.\<close>

lemma slot_bytes_erase:
  assumes "bytes_at m a (slot_bytes F (True, d))" "WORD_SIZE F \<le> MAX_WORD_SIZE"
  shows "bytes_at (program a (header_bytes F (slot_header (False, d))) m) a (slot_bytes F (False, d))"
proof -
  have h: "(slot_header (True, d))\<lparr>ih_crc := None\<rparr> = slot_header (False, d)" by (simp add: slot_header_def)
  have len: "length (header_bytes F (slot_header (False, d))) = length (header_bytes F (slot_header (True, d)))"
    using header_slice_len_le [OF assms(2)] by simp
  have "bytes_at (program a (header_bytes F (slot_header (False, d))) m) a
      (header_bytes F (slot_header (False, d)))"
    using bytes_at_program_same [OF _ len, of m a] assms(1) header_bytes_erase [of F "slot_header (True, d)"]
    by (simp add: slot_bytes_def h)
  moreover have p: "bytes_at m (a + length (header_bytes F (slot_header (False, d)))) (padded F d)"
    using assms(1) len by (simp add: slot_bytes_def)
  then have "bytes_at (program a (header_bytes F (slot_header (False, d))) m)
      (a + length (header_bytes F (slot_header (False, d)))) (padded F d)"
    by (rule bytes_at_program_other) (use p in \<open>simp_all add: bytes_at_def\<close>)
  ultimately show ?thesis by (simp add: slot_bytes_def)
qed

end

end
