(* ===== verification/FlashState.thy ===== *)
theory FlashState
  imports PageModel
begin

text \<open>
  A storage whose flash holds a given sequence of pages and whose cache agrees with them, and what
  every operation of \<open>Storage\<close> and \<open>Item\<close> does to the pages: the state machine of a page
  (\<open>open_page\<close>, \<open>partial_close_page\<close>, \<open>close_page\<close>), the searches, appending an item and erasing one.
\<close>

section \<open>The state\<close>

definition pages_ok :: "('s, 'e) nor_flash \<Rightarrow> flash_range \<Rightarrow> u8 list \<Rightarrow> (nat \<Rightarrow> apage) \<Rightarrow> bool" where
  "pages_ok F r m ap \<longleftrightarrow> (\<forall>i < page_count F r. page_wf F (ap i)
     \<and> bytes_at m (calculate_page_address F r i) (page_bytes F (ap i)))"

text \<open>
  A cached state is the state of the page, a cached free spot is the end of its slots, and before
  the other cached pointer all slots are erased.
\<close>

definition cache_ok :: "('s, 'e) nor_flash \<Rightarrow> flash_range \<Rightarrow> (nat \<Rightarrow> apage) \<Rightarrow> 'k cache \<Rightarrow> bool" where
  "cache_ok F r ap c \<longleftrightarrow> (\<forall>i < page_count F r.
     (\<forall>st. cached_page_state c i = Some st \<longrightarrow> st = fst (ap i))
   \<and> (\<forall>a. first_item_after_written c i = Some a \<longrightarrow> a = page_data_start F r i + slots_size F (snd (ap i)))
   \<and> (\<forall>a. first_item_after_erased c i = Some a \<longrightarrow>
        (\<exists>k \<le> length (snd (ap i)). a = page_data_start F r i + slots_size F (take k (snd (ap i)))
          \<and> (\<forall>sl \<in> set (take k (snd (ap i))). \<not> fst sl))))"

definition flash_holds ::
  "('s, 'e) nor_flash \<Rightarrow> ('s \<Rightarrow> bool) \<Rightarrow> ('s \<Rightarrow> u8 list) \<Rightarrow> flash_range \<Rightarrow> (nat \<Rightarrow> apage) \<Rightarrow> ('s, 'k) storage \<Rightarrow> bool"
where
  "flash_holds F ok chip r ap s \<longleftrightarrow> ok (flash s) \<and> flash_range s = r
     \<and> pages_ok F r (chip (flash s)) ap \<and> cache_ok F r ap (cache s)"

text \<open>A cache that knows nothing agrees with anything.\<close>

lemma cache_ok_unknown:
  "(\<And>i. cached_page_state c i = None \<and> first_item_after_written c i = None
     \<and> first_item_after_erased c i = None) \<Longrightarrow> cache_ok F r ap c"
  by (simp add: cache_ok_def)

lemma cache_ok_invalidate [simp]: "cache_ok F r ap (invalidate_cache_state c)"
  by (rule cache_ok_unknown) simp

lemma cache_ok_unmark [simp]: "cache_ok F r ap (unmark_dirty c) = cache_ok F r ap c"
  by (simp add: cache_ok_def)

section \<open>Geometry\<close>

context nor_flash
begin

lemma config_facts:
  assumes "config_ok F r"
  shows "WORD_SIZE F \<le> MAX_WORD_SIZE" "4 * WORD_SIZE F \<le> ERASE_SIZE F" "WORD_SIZE F dvd fst r"
    "0 < page_count F r" "fst r + page_count F r * ERASE_SIZE F = snd r"
    "ERASE_SIZE F = WORD_SIZE F + calculate_page_size F + WORD_SIZE F"
    "WORD_SIZE F dvd calculate_page_size F"
proof -
  show "WORD_SIZE F \<le> MAX_WORD_SIZE" "4 * WORD_SIZE F \<le> ERASE_SIZE F"
    using assms by (simp_all add: config_ok_def)
  then show "ERASE_SIZE F = WORD_SIZE F + calculate_page_size F + WORD_SIZE F"
    by (simp add: calculate_page_size_def)
  show "WORD_SIZE F dvd fst r" using assms word_dvd_erase by (auto simp: config_ok_def intro: dvd_trans)
  show "WORD_SIZE F dvd calculate_page_size F"
    unfolding calculate_page_size_def using word_dvd_erase by (intro dvd_diff_nat) simp_all
  have le: "fst r + ERASE_SIZE F \<le> snd r" and "ERASE_SIZE F dvd snd r - fst r"
    using assms by (auto simp: config_ok_def)
  then obtain k where k: "snd r - fst r = ERASE_SIZE F * k" by blast
  moreover have "k \<noteq> 0" using k le erase_pos by (intro notI) simp
  ultimately have "page_count F r = k" using erase_pos by (simp add: page_count_def)
  then show "0 < page_count F r" "fst r + page_count F r * ERASE_SIZE F = snd r"
    using k \<open>k \<noteq> 0\<close> le by (simp_all add: mult.commute)
qed

lemma page_data_start_eq: "page_data_start F r i = calculate_page_address F r i + WORD_SIZE F"
  by (simp add: page_data_start_def)

lemma page_data_end_eq:
  assumes "config_ok F r"
  shows "page_data_end F r i = page_data_start F r i + calculate_page_size F"
  using config_facts(6) [OF assms]
  by (simp add: page_data_end_def page_data_start_def calculate_page_address_def calculate_page_end_address_def)

lemma page_address_dvd: "config_ok F r \<Longrightarrow> WORD_SIZE F dvd calculate_page_address F r i"
  using config_facts(3) [of r] word_dvd_erase by (simp add: calculate_page_address_def)

lemma page_data_start_dvd: "config_ok F r \<Longrightarrow> WORD_SIZE F dvd page_data_start F r i"
  using page_address_dvd [of r i] by (simp add: page_data_start_def)

text \<open>Addresses on a page lead back to the page.\<close>

lemma page_index_of:
  assumes "calculate_page_address F r i \<le> a" "a < calculate_page_address F r i + ERASE_SIZE F"
  shows "calculate_page_index F r a = i"
proof -
  have "a - fst r = ERASE_SIZE F * i + (a - calculate_page_address F r i)"
    and "a - calculate_page_address F r i < ERASE_SIZE F"
    using assms by (auto simp: calculate_page_address_def)
  then show ?thesis by (simp add: calculate_page_index_def)
qed

lemma page_index_data:
  assumes "config_ok F r" "page_data_start F r i \<le> a" "a \<le> page_data_end F r i"
  shows "calculate_page_index F r a = i"
  using assms page_data_end_eq [OF assms(1), of i] config_facts(6) [OF assms(1)] word_pos
  by (intro page_index_of) (simp_all add: page_data_start_def)

lemma length_data_area [simp]:
  "WORD_SIZE F \<le> MAX_WORD_SIZE \<Longrightarrow> slots_size F ss \<le> n \<Longrightarrow> length (data_area F ss n) = n"
  by (simp add: data_area_def length_slots_bytes header_slice_len_le)

lemma length_marker_word [simp]: "length (marker_word F b) = WORD_SIZE F"
  by (simp add: marker_word_def)

lemma length_page_bytes:
  assumes "config_ok F r" "page_wf F p"
  shows "length (page_bytes F p) = ERASE_SIZE F"
  using assms config_facts [OF assms(1)] by (simp add: page_bytes_def page_wf_def)

text \<open>The three parts of a page.\<close>

lemma page_parts:
  assumes "config_ok F r" "page_wf F p"
  shows "bytes_at m (calculate_page_address F r i) (page_bytes F p) \<longleftrightarrow>
    bytes_at m (calculate_page_address F r i) (marker_word F (fst p \<noteq> Open))
    \<and> bytes_at m (page_data_start F r i) (data_area F (snd p) (calculate_page_size F))
    \<and> bytes_at m (page_data_end F r i) (marker_word F (fst p = Closed))"
  using assms config_facts(1) [OF assms(1)] page_data_end_eq [OF assms(1), of i]
  by (simp add: page_bytes_def page_data_start_def page_wf_def)

lemma page_in_chip:
  assumes "config_ok F r" "pages_ok F r m ap" "i < page_count F r"
  shows "calculate_page_address F r i + ERASE_SIZE F \<le> length m"
  using assms length_page_bytes [OF assms(1), of "ap i"] by (auto simp: pages_ok_def bytes_at_def)

lemma pages_disjoint:
  assumes "i \<noteq> j"
  shows "calculate_page_address F r i + ERASE_SIZE F \<le> calculate_page_address F r j
    \<or> calculate_page_address F r j + ERASE_SIZE F \<le> calculate_page_address F r i"
proof -
  have "i + 1 \<le> j \<or> j + 1 \<le> i" using assms by linarith
  then have "ERASE_SIZE F * (i + 1) \<le> ERASE_SIZE F * j \<or> ERASE_SIZE F * (j + 1) \<le> ERASE_SIZE F * i"
    using mult_le_mono2 [of "i + 1" j "ERASE_SIZE F"] mult_le_mono2 [of "j + 1" i "ERASE_SIZE F"] by blast
  then show ?thesis by (simp add: calculate_page_address_def add.commute)
qed

end

section \<open>Changing one page\<close>

context nor_flash
begin

text \<open>A change of the bytes of page \<open>i\<close> only, to the bytes of \<open>p\<close>.\<close>

lemma pages_ok_program:
  assumes "config_ok F r" "pages_ok F r m ap" "i < page_count F r" "page_wf F p"
    and "calculate_page_address F r i \<le> a" "a + length bs \<le> calculate_page_address F r i + ERASE_SIZE F"
    and "bytes_at (program a bs m) (calculate_page_address F r i) (page_bytes F p)"
  shows "pages_ok F r (program a bs m) (ap(i := p))"
  unfolding pages_ok_def
proof (intro allI impI)
  fix j assume j: "j < page_count F r"
  show "page_wf F ((ap(i := p)) j) \<and>
      bytes_at (program a bs m) (calculate_page_address F r j) (page_bytes F ((ap(i := p)) j))"
  proof (cases "j = i")
    case False
    have "bytes_at (program a bs m) (calculate_page_address F r j) (page_bytes F (ap j))"
      using assms j False pages_disjoint [OF False, of r] page_in_chip [OF assms(1,2,3)]
        length_page_bytes [OF assms(1), of "ap j"]
      by (intro bytes_at_program_other) (auto simp: pages_ok_def)
    then show ?thesis using assms(2) j False by (simp add: pages_ok_def)
  qed (use assms in simp)
qed

lemma pages_ok_erase:
  assumes "config_ok F r" "pages_ok F r m ap" "i < page_count F r"
  shows "pages_ok F r (overwrite (calculate_page_address F r i) (erased (ERASE_SIZE F)) m) (ap(i := (Open, [])))"
  unfolding pages_ok_def
proof (intro allI impI)
  fix j assume j: "j < page_count F r"
  let ?m = "overwrite (calculate_page_address F r i) (erased (ERASE_SIZE F)) m"
  note chip = page_in_chip [OF assms]
  show "page_wf F ((ap(i := (Open, []))) j) \<and>
      bytes_at ?m (calculate_page_address F r j) (page_bytes F ((ap(i := (Open, []))) j))"
  proof (cases "j = i")
    case True
    have "page_bytes F (Open, []) = erased (ERASE_SIZE F)"
      using config_facts(6) [OF assms(1)]
      by (simp add: page_bytes_def marker_word_def data_area_def slots_bytes_def erased_append [symmetric] add.assoc)
    then show ?thesis
      using True chip bytes_at_overwrite [of "calculate_page_address F r i" "erased (ERASE_SIZE F)" m]
      by (simp add: page_wf_def)
  next
    case False
    have "bytes_at ?m (calculate_page_address F r j) (page_bytes F (ap j))"
      using assms j False pages_disjoint [OF False, of r] chip length_page_bytes [OF assms(1), of "ap j"]
      by (intro bytes_at_overwrite_other) (auto simp: pages_ok_def)
    then show ?thesis using assms(2) j False by (simp add: pages_ok_def)
  qed
qed

end

section \<open>The state of a page\<close>

lemma count_zeros_0 [simp]: "count_zeros 0 = 8"
  by (simp add: count_zeros_def)

lemma count_zeros_255 [simp]: "count_zeros 0xFF = 0"
proof -
  have "bit (0xFF :: u8) i" if "i < 8" for i
    using that by (auto simp: less_Suc_eq numeral_eq_Suc)
  then show ?thesis by (simp add: count_zeros_def)
qed

lemma marked_zeros: "0 < n \<Longrightarrow> marked (replicate n MARKER)"
  by (cases n) (simp_all add: marked_def MARKER_def HALF_MARKER_BITS_def)

lemma marked_erased: "\<not> marked (erased n)"
  by (induction n) (simp_all add: marked_def erased_def HALF_MARKER_BITS_def)

lemma marker_word_prefix:
  assumes "bytes_at m a (marker_word F b)" "n \<le> WORD_SIZE F" "0 < n"
  shows "marked (sub_list a n m) = b"
proof -
  have "marker_word F b = (if b then replicate n MARKER else erased n) @ (if b then replicate (WORD_SIZE F - n) MARKER else erased (WORD_SIZE F - n))"
    using assms(2) by (simp add: marker_word_def replicate_add [symmetric] erased_append [symmetric])
  then have "bytes_at m a (if b then replicate n MARKER else erased n)"
    using assms(1) by (metis bytes_at_append)
  then show ?thesis
    using marked_zeros [OF assms(3)] marked_erased [of n] by (cases b) (auto simp: bytes_at_def)
qed

lemma marker_word_suffix:
  assumes "bytes_at m a (marker_word F b)" "n \<le> WORD_SIZE F" "0 < n"
  shows "marked (sub_list (a + (WORD_SIZE F - n)) n m) = b"
proof -
  have "marker_word F b = (if b then replicate (WORD_SIZE F - n) MARKER else erased (WORD_SIZE F - n)) @ (if b then replicate n MARKER else erased n)"
    using assms(2) by (simp add: marker_word_def replicate_add [symmetric] erased_append [symmetric])
  then have "bytes_at m (a + (WORD_SIZE F - n)) (if b then replicate n MARKER else erased n)"
    using assms(1) by (cases b) simp_all
  then show ?thesis
    using marked_zeros [OF assms(3)] marked_erased [of n] by (cases b) (auto simp: bytes_at_def)
qed

lemma cache_ok_notice_new:
  assumes "cache_ok F r ap c" and "st = fst p" and "st = Open \<or> snd p = snd (ap i)"
  shows "cache_ok F r (ap(i := p)) (notice_page_state i st d c)"
  using assms page_state_after_notice [of i st d c]
  by (auto simp: cache_ok_def split: if_splits)

lemma cache_ok_notice:
  assumes "cache_ok F r ap c"
  shows "cache_ok F r ap (notice_page_state i (fst (ap i)) d c)"
  using cache_ok_notice_new [OF assms, of "fst (ap i)" "ap i" i] by simp

context nor_flash
begin

abbreviation holds :: "flash_range \<Rightarrow> (nat \<Rightarrow> apage) \<Rightarrow> ('s, 'k) storage \<Rightarrow> bool" where
  "holds \<equiv> flash_holds F inv mem"

lemma reads_holds: "reads s t \<Longrightarrow> holds r ap s \<Longrightarrow> holds r ap t"
  using only_reads_simps [of inv mem s t] by (simp add: flash_holds_def)

lemma wp_get_page_state:
  assumes "config_ok F r" "holds r ap s" "i < page_count F r"
  shows "wp (get_page_state F i)
    (\<lambda>st t. st = fst (ap i) \<and> holds r ap t \<and> data_buffer t = data_buffer s) no_err s"
proof (cases "cached_page_state (cache s) i")
  case (Some st)
  then show ?thesis using assms by (simp add: get_page_state_def flash_holds_def cache_ok_def)
next
  case None
  let ?a = "calculate_page_address F r i"
  let ?e = "?a + (ERASE_SIZE F - READ_SIZE F)"
  note cf = config_facts [OF assms(1)]
  have rd: "READ_SIZE F \<le> WORD_SIZE F" "0 < READ_SIZE F" by (simp_all add: READ_SIZE_le_WORD_SIZE read_pos)
  have h: "inv (flash s)" "flash_range s = r" "pages_ok F r (mem (flash s)) ap" "cache_ok F r ap (cache s)"
    using assms(2) by (simp_all add: flash_holds_def)
  have wf: "page_wf F (ap i)" and at: "bytes_at (mem (flash s)) ?a (page_bytes F (ap i))"
    using h(3) assms(3) by (simp_all add: pages_ok_def)
  note parts = page_parts [OF assms(1) wf, of "mem (flash s)" i, THEN iffD1, OF at]
  have m1: "marked (sub_list ?a (READ_SIZE F) (mem (flash s))) = (fst (ap i) \<noteq> Open)"
    using marker_word_prefix parts rd by blast
  have "?e = page_data_end F r i + (WORD_SIZE F - READ_SIZE F)"
    using cf(6) rd page_data_end_eq [OF assms(1), of i] by (simp add: page_data_start_def)
  then have m2: "marked (sub_list ?e (READ_SIZE F) (mem (flash s))) = (fst (ap i) = Closed)"
    using marker_word_suffix [of "mem (flash s)" "page_data_end F r i" F] parts rd by simp
  have dvd: "READ_SIZE F dvd ?a"
    using word_multiples(1) page_address_dvd [OF assms(1), of i] by (rule dvd_trans)
  moreover have "READ_SIZE F dvd ERASE_SIZE F" using word_multiples(1) word_dvd_erase by (rule dvd_trans)
  ultimately have dvd': "READ_SIZE F dvd ?e" by (intro dvd_add dvd_diff_nat) simp_all
  have len: "?a + ERASE_SIZE F \<le> length (mem (flash s))" by (rule page_in_chip [OF assms(1) h(3) assms(3)])
  have r1: "wp (on_flash (nf_read F ?a (READ_SIZE F)))
      (\<lambda>bs t. bs = sub_list ?a (READ_SIZE F) (mem (flash s)) \<and> reads s t) no_err s"
    using h dvd dvd' len rd cf by (intro wp_flash_read) simp_all
  have r2: "wp (on_flash (nf_read F ?e (READ_SIZE F)))
      (\<lambda>bs u. bs = sub_list ?e (READ_SIZE F) (mem (flash s)) \<and> reads s u) no_err t" if "reads s t" for t
  proof -
    have "wp (on_flash (nf_read F ?e (READ_SIZE F)))
        (\<lambda>bs u. bs = sub_list ?e (READ_SIZE F) (mem (flash t)) \<and> reads t u) no_err t"
      using h dvd dvd' len rd cf only_reads_simps [OF that] by (intro wp_flash_read) simp_all
    then show ?thesis using that only_reads_simps [OF that] by (auto elim!: wp_mono dest: only_reads_trans)
  qed
  have fin: "reads s t \<Longrightarrow> holds r ap (t\<lparr>cache := notice_page_state i (fst (ap i)) False (cache t)\<rparr>)" for t
    using h only_reads_simps [of inv mem s t] by (simp add: flash_holds_def cache_ok_notice)
  show ?thesis
    unfolding get_page_state_def wp_bnd wp_gets None option.case wp_sq wp_assert_that h(2)
  proof (intro conjI wp_mono [OF r1])
    fix bs t assume t: "bs = sub_list ?a (READ_SIZE F) (mem (flash s)) \<and> reads s t"
    show "wp (on_flash (nf_read F ?e (READ_SIZE F))) (\<lambda>es. wp
          (case (marked bs, marked es) of (True, True) \<Rightarrow> ret Closed | (True, False) \<Rightarrow> ret PartialOpen
           | (False, True) \<Rightarrow> fail Corrupted | (False, False) \<Rightarrow> ret Open)
          (\<lambda>st. wp (on_cache (notice_page_state i st False)) (\<lambda>_. wp (ret st)
            (\<lambda>st t. st = fst (ap i) \<and> holds r ap t \<and> data_buffer t = data_buffer s) no_err) no_err) no_err) no_err t"
      using r2 [of t] t m1 m2 fin only_reads_simps(5) [of inv mem s]
      by (cases "fst (ap i)") (auto simp del: wp_on_flash elim!: wp_mono)
  qed (use rd cf in simp_all)
qed

end

section \<open>Opening and closing pages\<close>

context nor_flash
begin

lemma wp_open_page:
  assumes "config_ok F r" "holds r ap s" "i < page_count F r"
  shows "wp (open_page F i)
    (\<lambda>_ t. holds r (ap(i := (Open, []))) t \<and> data_buffer t = data_buffer s) no_err s"
proof -
  let ?a = "calculate_page_address F r i"
  have h: "inv (flash s)" "flash_range s = r" "pages_ok F r (mem (flash s)) ap" "cache_ok F r ap (cache s)"
    using assms(2) by (simp_all add: flash_holds_def)
  have e: "calculate_page_end_address F r i = ?a + ERASE_SIZE F"
    by (simp add: calculate_page_end_address_def calculate_page_address_def)
  have "ERASE_SIZE F dvd ?a" using assms(1) by (simp add: config_ok_def calculate_page_address_def)
  then have "wp (nf_erase F ?a (?a + ERASE_SIZE F))
      (\<lambda>_ f. inv f \<and> mem f = overwrite ?a (erased (ERASE_SIZE F)) (mem (flash s))) no_err (flash s)"
    using erase_bytes [of "flash s" ?a "?a + ERASE_SIZE F"] h(1) page_in_chip [OF assms(1) h(3) assms(3)] by simp
  then show ?thesis
    using h pages_ok_erase [OF assms(1) h(3) assms(3)] cache_ok_notice_new [OF h(4), of Open "(Open, [])" i True]
    by (auto simp: open_page_def e flash_holds_def elim!: wp_mono)
qed

text \<open>Writing one of the two markers of a page.\<close>

lemma wp_write_marker:
  assumes "config_ok F r" "inv (flash s)" "pages_ok F r (mem (flash s)) ap" "i < page_count F r"
    and "page_wf F p" "snd p = snd (ap i)"
    and "a = calculate_page_address F r i \<and> fst p = PartialOpen \<and> fst (ap i) = Open
       \<or> a = page_data_end F r i \<and> fst p = Closed \<and> fst (ap i) = PartialOpen"
  shows "wp (write_marker F a)
    (\<lambda>_ t. inv (flash t) \<and> pages_ok F r (mem (flash t)) (ap(i := p))
      \<and> cache t = cache s \<and> flash_range t = flash_range s \<and> data_buffer t = data_buffer s) no_err s"
proof -
  let ?b = "calculate_page_address F r i" and ?z = "replicate (WORD_SIZE F) MARKER"
  note cf = config_facts [OF assms(1)]
  have wf: "page_wf F (ap i)" and at: "bytes_at (mem (flash s)) ?b (page_bytes F (ap i))"
    using assms(3,4) by (simp_all add: pages_ok_def)
  note parts = page_parts [OF assms(1) wf, of "mem (flash s)" i, THEN iffD1, OF at]
  have geo: "page_data_start F r i = ?b + WORD_SIZE F"
    "page_data_end F r i = page_data_start F r i + calculate_page_size F"
    "page_data_end F r i + WORD_SIZE F = ?b + ERASE_SIZE F"
    using page_data_end_eq [OF assms(1), of i] cf(6) by (simp_all add: page_data_start_def)
  have chip: "?b + ERASE_SIZE F \<le> length (mem (flash s))" by (rule page_in_chip [OF assms(1,3,4)])
  have area: "length (data_area F (snd (ap i)) (calculate_page_size F)) = calculate_page_size F"
    using wf cf(1) by (simp add: page_wf_def)
  have a: "a + WORD_SIZE F \<le> length (mem (flash s))" "WORD_SIZE F dvd a"
    using assms(7) geo chip cf page_address_dvd [OF assms(1), of i] by auto
  have free: "bytes_at (mem (flash s)) a (erased (length ?z))"
    using assms(7) parts by (auto simp: marker_word_def)
  have again: "bytes_at (program a ?z (mem (flash s))) a (marker_word F True)"
    using bytes_at_program_erased [OF free] by (simp add: marker_word_def)
  have other: "bytes_at (program a ?z (mem (flash s))) b bs"
    if "bytes_at (mem (flash s)) b bs" "a + WORD_SIZE F \<le> b \<or> b + length bs \<le> a" for b bs
    using that a by (intro bytes_at_program_other) simp_all
  have "bytes_at (program a ?z (mem (flash s))) ?b (page_bytes F p)"
    unfolding page_parts [OF assms(1,5)] assms(6)
    using assms(7) parts again other area geo by (elim disjE) auto
  then have "pages_ok F r (program a ?z (mem (flash s))) (ap(i := p))"
    using assms a geo by (intro pages_ok_program) auto
  moreover have "wp (on_flash (nf_write F a ?z))
      (\<lambda>_. becomes inv mem s (program a ?z (mem (flash s))) (cache s)) no_err s"
    using a word_pos assms(2) free by (intro wp_flash_write) simp_all
  ultimately show ?thesis
    unfolding write_marker_def wp_sq wp_assert_that using cf(1) by (auto simp: becomes_def elim!: wp_mono)
qed

text \<open>What the two closing operations make of a page.\<close>

definition partially_closed :: "apage \<Rightarrow> apage" where
  "partially_closed p = (if fst p = Open then (PartialOpen, snd p) else p)"

lemma wp_partial_close_page:
  assumes "config_ok F r" "holds r ap s" "i < page_count F r"
  shows "wp (partial_close_page F i)
    (\<lambda>st t. st = fst (partially_closed (ap i)) \<and> holds r (ap(i := partially_closed (ap i))) t
      \<and> data_buffer t = data_buffer s) no_err s"
  unfolding partial_close_page_def wp_bnd
proof (rule wp_mono [OF wp_get_page_state [OF assms]])
  fix st t assume t: "st = fst (ap i) \<and> holds r ap t \<and> data_buffer t = data_buffer s"
  show "wp (if st \<noteq> Open then ret st else
      let new_state = case st of Closed \<Rightarrow> Closed | PartialOpen \<Rightarrow> PartialOpen | Open \<Rightarrow> PartialOpen
      in sq (on_cache (notice_page_state i new_state True))
         (bnd (gets flash_range) (\<lambda>r. sq (write_marker F (calculate_page_address F r i)) (ret new_state))))
    (\<lambda>st t. st = fst (partially_closed (ap i)) \<and> holds r (ap(i := partially_closed (ap i))) t
      \<and> data_buffer t = data_buffer s) no_err t"
  proof (cases "st = Open")
    case True
    let ?t = "t\<lparr>cache := notice_page_state i PartialOpen True (cache t)\<rparr>"
    have h: "inv (flash t)" "flash_range t = r" "pages_ok F r (mem (flash t)) ap" "cache_ok F r ap (cache t)"
      using t by (simp_all add: flash_holds_def)
    then have c: "cache_ok F r (ap(i := partially_closed (ap i))) (cache ?t)"
      using cache_ok_notice_new [of F r ap "cache t" PartialOpen "partially_closed (ap i)" i True] t True
      by (simp add: partially_closed_def)
    have wf: "page_wf F (partially_closed (ap i))"
      using h(3) assms(3) by (simp add: pages_ok_def page_wf_def partially_closed_def)
    have "wp (write_marker F (calculate_page_address F r i))
        (\<lambda>_ u. inv (flash u) \<and> pages_ok F r (mem (flash u)) (ap(i := partially_closed (ap i)))
          \<and> cache u = cache ?t \<and> flash_range u = flash_range ?t \<and> data_buffer u = data_buffer ?t) no_err ?t"
      using h wf t True assms
      by (intro wp_write_marker) (auto simp: partially_closed_def)
    then have "wp (write_marker F (calculate_page_address F r i))
        (\<lambda>_ u. holds r (ap(i := partially_closed (ap i))) u \<and> data_buffer u = data_buffer s) no_err ?t"
      by (rule wp_mono) (use h c t in \<open>auto simp: flash_holds_def\<close>)
    then show ?thesis
      using True t h(2) by (simp add: Let_def partially_closed_def)
  qed (use t in \<open>simp add: partially_closed_def fun_upd_idem\<close>)
qed simp

text \<open>Closing a page that was not open before or, first, is partially closed.\<close>

lemma wp_close_page:
  assumes "config_ok F r" "holds r ap s" "i < page_count F r"
  shows "wp (close_page F i)
    (\<lambda>_ t. holds r (ap(i := (Closed, snd (ap i)))) t \<and> data_buffer t = data_buffer s) no_err s"
  unfolding close_page_def wp_bnd
proof (rule wp_mono [OF wp_partial_close_page [OF assms]])
  let ?ap = "ap(i := partially_closed (ap i))"
  fix st t assume t: "st = fst (partially_closed (ap i)) \<and> holds r ?ap t \<and> data_buffer t = data_buffer s"
  show "wp (if st \<noteq> PartialOpen then ret () else
      sq (on_cache (notice_page_state i Closed True))
      (bnd (gets flash_range) (\<lambda>r. write_marker F (calculate_page_end_address F r i - WORD_SIZE F))))
    (\<lambda>_ t. holds r (ap(i := (Closed, snd (ap i)))) t \<and> data_buffer t = data_buffer s) no_err t"
  proof (cases "st = PartialOpen")
    case False
    then have "partially_closed (ap i) = (Closed, snd (ap i))"
      using t by (cases "ap i"; cases "fst (ap i)") (auto simp: partially_closed_def)
    then show ?thesis using t False by simp
  next
    case True
    let ?t = "t\<lparr>cache := notice_page_state i Closed True (cache t)\<rparr>"
    let ?p = "(Closed, snd (ap i))"
    have h: "inv (flash t)" "flash_range t = r" "pages_ok F r (mem (flash t)) ?ap" "cache_ok F r ?ap (cache t)"
      using t by (simp_all add: flash_holds_def)
    have p: "snd (partially_closed (ap i)) = snd (ap i)" by (simp add: partially_closed_def)
    have c: "cache_ok F r (ap(i := ?p)) (cache ?t)"
      using cache_ok_notice_new [OF h(4), of Closed ?p i True] p by simp
    have wf: "page_wf F ?p"
      using h(3) assms(3) p by (auto simp: pages_ok_def page_wf_def)
    have a: "calculate_page_end_address F r i - WORD_SIZE F = page_data_end F r i"
      by (simp add: page_data_end_def)
    have "wp (write_marker F (page_data_end F r i))
        (\<lambda>_ u. inv (flash u) \<and> pages_ok F r (mem (flash u)) (?ap(i := ?p))
          \<and> cache u = cache ?t \<and> flash_range u = flash_range ?t \<and> data_buffer u = data_buffer ?t) no_err ?t"
      using h wf t True assms p by (intro wp_write_marker) auto
    then have "wp (write_marker F (page_data_end F r i))
        (\<lambda>_ u. holds r (ap(i := ?p)) u \<and> data_buffer u = data_buffer s) no_err ?t"
      by (rule wp_mono) (use h c t in \<open>auto simp: flash_holds_def\<close>)
    then show ?thesis
      using True h(2) by (simp add: a)
  qed
qed simp

lemma wp_first_page_in:
  fixes s :: "('s, 'k) storage"
  assumes "config_ok F r" "holds r ap s" "\<forall>i \<in> set pages. i < page_count F r"
  shows "wp (first_page_in F st pages)
    (\<lambda>found t. found = find (\<lambda>i. st = fst (ap i)) pages \<and> holds r ap t \<and> data_buffer t = data_buffer s) no_err s"
  using assms
proof (induction pages arbitrary: s)
  case (Cons i pages)
  have g: "wp (get_page_state F i)
      (\<lambda>st t. st = fst (ap i) \<and> holds r ap t \<and> data_buffer t = data_buffer s) no_err s"
    using Cons.prems by (intro wp_get_page_state) simp_all
  show ?case
    unfolding first_page_in.simps wp_bnd
  proof (rule wp_mono [OF g])
    fix x and t :: "('s, 'k) storage"
    assume t: "x = fst (ap i) \<and> holds r ap t \<and> data_buffer t = data_buffer s"
    then show "wp (if st = x then ret (Some i) else first_page_in F st pages)
        (\<lambda>found t. found = find (\<lambda>i. st = fst (ap i)) (i # pages) \<and> holds r ap t
          \<and> data_buffer t = data_buffer s) no_err t"
      using Cons.prems Cons.IH [of t] by simp
  qed simp
qed simp

lemma get_pages_less: "0 < page_count F r \<Longrightarrow> i \<in> set (get_pages F r j) \<Longrightarrow> i < page_count F r"
  by (auto simp: get_pages_def)

lemma wp_find_first_page:
  assumes "config_ok F r" "holds r ap s"
  shows "wp (find_first_page F j st)
    (\<lambda>found t. found = find (\<lambda>i. st = fst (ap i)) (get_pages F r j) \<and> holds r ap t
      \<and> data_buffer t = data_buffer s) no_err s"
proof -
  have "flash_range s = r" using assms by (simp add: flash_holds_def)
  then show ?thesis
    using wp_first_page_in [OF assms, of "get_pages F r j" st] get_pages_less config_facts(4) [OF assms(1)]
    by (auto simp: find_first_page_def)
qed

text \<open>The general repair has nothing to do.\<close>

lemma wp_general_repair:
  fixes s :: "('s, 'k) storage"
  assumes "config_ok F r" "holds r ap s"
  shows "wp (try_general_repair F) (\<lambda>_ t. holds r ap t \<and> data_buffer t = data_buffer s) no_err s"
proof -
  let ?body = "\<lambda>page_index. bnd (attempt (get_page_state F page_index)) (\<lambda>r. case r of
       Inl Corrupted \<Rightarrow> open_page F page_index | _ \<Rightarrow> ret ()) :: (('s, 'k) storage, 'e error, unit) m"
  have one: "wp (?body i) (\<lambda>_ t. holds r ap t \<and> data_buffer t = data_buffer u) no_err u"
    if "holds r ap u" "i < page_count F r" for i u
    unfolding wp_bnd wp_attempt by (rule wp_mono [OF wp_get_page_state [OF assms(1) that]]) simp_all
  have all: "wp (for_each pages ?body) (\<lambda>_ t. holds r ap t \<and> data_buffer t = data_buffer u) no_err u"
    if "holds r ap u" "\<forall>i \<in> set pages. i < page_count F r" for pages u
    using that
  proof (induction pages arbitrary: u)
    case (Cons i pages)
    have i: "i < page_count F r" using Cons.prems(2) by simp
    show ?case
      unfolding for_each.simps wp_sq
    proof (rule wp_mono [OF one [OF Cons.prems(1) i]], goal_cases)
      case (1 _ t)
      then show ?case using Cons.IH [of t] Cons.prems(2) by simp
    qed simp
  qed simp
  have range: "flash_range s = r" using assms(2) by (simp add: flash_holds_def)
  show ?thesis
    unfolding try_general_repair_def wp_bnd [of "gets f" for f] wp_gets range
    by (rule all [OF assms(2)]) (use get_pages_less config_facts(4) [OF assms(1)] in blast)
qed

end

section \<open>An erased flash\<close>

context nor_flash
begin

lemma holds_erased:
  assumes "config_ok F r" "inv (flash s)" "bytes_at (mem (flash s)) (fst r) (erased (snd r - fst r))"
    and "flash_range s = r" "\<And>i. cached_page_state (cache s) i = None \<and> first_item_after_written (cache s) i = None
       \<and> first_item_after_erased (cache s) i = None"
  shows "holds r (\<lambda>_. (Open, [])) s"
proof -
  let ?ap = "\<lambda>_ :: nat. (Open, []) :: apage"
  note facts = config_facts [OF assms(1)]
  have blank: "page_bytes F (Open, []) = erased (ERASE_SIZE F)"
    using facts(6) by (simp add: page_bytes_def marker_word_def data_area_def slots_bytes_def erased_append [symmetric] add.assoc)
  have "pages_ok F r (mem (flash s)) ?ap"
    unfolding pages_ok_def
  proof (intro allI impI conjI)
    fix i assume "i < page_count F r"
    then have "(i + 1) * ERASE_SIZE F \<le> page_count F r * ERASE_SIZE F" by (intro mult_le_mono1) simp
    then have i: "ERASE_SIZE F * i + ERASE_SIZE F \<le> snd r - fst r" using facts(5) by (simp add: mult.commute)
    then have "snd r - fst r = ERASE_SIZE F * i + (ERASE_SIZE F + (snd r - fst r - (ERASE_SIZE F * i + ERASE_SIZE F)))"
      by simp
    then have "erased (snd r - fst r) = erased (ERASE_SIZE F * i) @ erased (ERASE_SIZE F)
        @ erased (snd r - fst r - (ERASE_SIZE F * i + ERASE_SIZE F))"
      by (metis erased_append)
    then show "bytes_at (mem (flash s)) (calculate_page_address F r i) (page_bytes F (Open, []))"
      using assms(3) by (simp add: blank calculate_page_address_def)
  qed (simp add: page_wf_def)
  moreover have "cache_ok F r ?ap (cache s)" using assms(5) by (intro cache_ok_unknown)
  ultimately show ?thesis using assms(2,4) by (simp add: flash_holds_def)
qed

end

section \<open>Looking through the items of a page\<close>

lemma slot_header_alive [simp]: "ih_crc (slot_header sl) = None \<longleftrightarrow> \<not> fst sl"
  by (simp add: slot_header_def)

context nor_flash
begin

lemma data_area_append:
  "slots_size F (xs @ ys) \<le> n \<Longrightarrow>
   data_area F (xs @ ys) n = slots_bytes F xs @ data_area F ys (n - slots_size F xs)"
  by (simp add: data_area_def slots_bytes_def)

lemma slots_size_take_drop: "slots_size F (take k ss) + slots_size F (drop k ss) = slots_size F ss"
  using slots_size_simps(3) [of "take k ss" "drop k ss"] by simp

text \<open>What \<open>flash_holds\<close> says about one page.\<close>

lemma holds_page:
  assumes "config_ok F r" "holds r ap s" "i < page_count F r"
  shows "inv (flash s)" "flash_range s = r" "page_wf F (ap i)"
    "bytes_at (mem (flash s)) (page_data_start F r i) (data_area F (snd (ap i)) (calculate_page_size F))"
    "page_data_start F r i + slots_size F (snd (ap i)) \<le> page_data_end F r i"
    "slots_size F (snd (ap i)) \<le> calculate_page_size F"
    "\<forall>sl \<in> set (snd (ap i)). length (snd sl) \<le> u16_MAX"
proof -
  show h: "inv (flash s)" "flash_range s = r" "page_wf F (ap i)"
    using assms by (simp_all add: flash_holds_def pages_ok_def)
  then show "slots_size F (snd (ap i)) \<le> calculate_page_size F"
    "\<forall>sl \<in> set (snd (ap i)). length (snd sl) \<le> u16_MAX"
    by (simp_all add: page_wf_def)
  then show "page_data_start F r i + slots_size F (snd (ap i)) \<le> page_data_end F r i"
    using page_data_end_eq [OF assms(1), of i] by simp
  have "bytes_at (mem (flash s)) (calculate_page_address F r i) (page_bytes F (ap i))"
    using assms by (simp add: flash_holds_def pages_ok_def)
  then show "bytes_at (mem (flash s)) (page_data_start F r i) (data_area F (snd (ap i)) (calculate_page_size F))"
    using page_parts [OF assms(1) h(3)] by blast
qed

text \<open>The data area from a slot on.\<close>

lemma holds_area:
  assumes "config_ok F r" "holds r ap s" "i < page_count F r" "k \<le> length (snd (ap i))"
    and "a = page_data_start F r i + slots_size F (take k (snd (ap i)))"
  shows "bytes_at (mem (flash s)) a (data_area F (drop k (snd (ap i))) (page_data_end F r i - a))"
    and "a + slots_size F (drop k (snd (ap i))) \<le> page_data_end F r i"
    and "a + slots_size F (drop k (snd (ap i))) = page_data_start F r i + slots_size F (snd (ap i))"
    and "WORD_SIZE F dvd a"
proof -
  let ?ss = "snd (ap i)"
  note h = holds_page [OF assms(1-3)]
  show sz: "a + slots_size F (drop k ?ss) = page_data_start F r i + slots_size F ?ss"
    using assms(5) slots_size_take_drop [of k ?ss] by simp
  then show "a + slots_size F (drop k ?ss) \<le> page_data_end F r i" using h(5) by simp
  show "WORD_SIZE F dvd a"
    unfolding assms(5) using page_data_start_dvd [OF assms(1)] slots_size_dvd by (rule dvd_add)
  have "data_area F ?ss (calculate_page_size F) = slots_bytes F (take k ?ss)
      @ data_area F (drop k ?ss) (calculate_page_size F - slots_size F (take k ?ss))"
    using data_area_append [of "take k ?ss" "drop k ?ss" "calculate_page_size F"] h(6) by simp
  moreover have "page_data_end F r i - a = calculate_page_size F - slots_size F (take k ?ss)"
    using page_data_end_eq [OF assms(1), of i] assms(5) by simp
  ultimately show "bytes_at (mem (flash s)) a (data_area F (drop k ?ss) (page_data_end F r i - a))"
    using h(4) length_slots_bytes header_slice_len_le config_facts(1) [OF assms(1)] assms(5) by simp
qed

lemma wp_traverse_page:
  assumes "config_ok F r" "holds r ap s" "i < page_count F r" "k \<le> length (snd (ap i))"
    and "a = page_data_start F r i + slots_size F (take k (snd (ap i)))"
  shows "wp (with_local (header_iter_new a (page_data_end F r i)) (traverse F (\<lambda>h _. skip h)))
    (\<lambda>res t. res = walk skip (drop k (snd (ap i))) a \<and> holds r ap t \<and> data_buffer t = data_buffer s) no_err s"
proof -
  have "wp (traverse F (\<lambda>h _. skip h))
      (\<lambda>res t. res = walk skip (drop k (snd (ap i))) a \<and> reads s (fst t)) no_err
      (s, \<lparr>current_address = a, end_address = page_data_end F r i\<rparr>)"
    using holds_area [OF assms] holds_page [OF assms(1-3)] config_facts(1) [OF assms(1)]
    by (intro wp_traverse_area) (auto dest: in_set_dropD)
  then show ?thesis
    unfolding wp_with_local header_iter_new_def
    by (rule wp_mono) (use assms(2) reads_holds only_reads_simps(5) in blast)+
qed

lemma walk_all: "walk (\<lambda>_. True) ss a = (None, a + slots_size F ss)"
proof -
  have "dropWhile (\<lambda>sl :: slot. True) ss = []" by (simp add: dropWhile_eq_Nil_conv)
  then show ?thesis by (simp add: walk_def del: dropWhile_eq_Nil_conv)
qed

lemma walk_dead_None: "fst (walk (\<lambda>h. ih_crc h = None) ss a) = None \<longleftrightarrow> (\<forall>sl \<in> set ss. \<not> fst sl)"
proof -
  have "fst (walk (\<lambda>h. ih_crc h = None) ss a) = None \<longleftrightarrow> dropWhile (\<lambda>sl. \<not> fst sl) ss = []"
    by (simp add: walk_def del: dropWhile_eq_Nil_conv split: list.split)
  then show ?thesis by (simp add: dropWhile_eq_Nil_conv)
qed

text \<open>The cached pointer behind erased items, or the start of the page.\<close>

lemma erased_pointer:
  assumes "holds r ap s" "i < page_count F r"
  obtains k where "k \<le> length (snd (ap i))" "\<forall>sl \<in> set (take k (snd (ap i))). \<not> fst sl"
    "(case first_item_after_erased (cache s) i of Some a \<Rightarrow> a | None \<Rightarrow> page_data_start F r i)
      = page_data_start F r i + slots_size F (take k (snd (ap i)))"
    "max (case first_item_after_erased (cache s) i of Some a \<Rightarrow> a | None \<Rightarrow> 0) (page_data_start F r i)
      = page_data_start F r i + slots_size F (take k (snd (ap i)))"
proof (cases "first_item_after_erased (cache s) i")
  case None
  then show thesis using that [of 0] by simp
next
  case (Some a)
  then have "\<exists>k \<le> length (snd (ap i)). a = page_data_start F r i + slots_size F (take k (snd (ap i)))
      \<and> (\<forall>sl \<in> set (take k (snd (ap i))). \<not> fst sl)"
    using assms by (simp add: flash_holds_def cache_ok_def)
  then obtain k where "k \<le> length (snd (ap i))" "a = page_data_start F r i + slots_size F (take k (snd (ap i)))"
    "\<forall>sl \<in> set (take k (snd (ap i))). \<not> fst sl"
    by blast
  then show thesis using that [of k] Some by simp
qed

lemma wp_is_page_empty:
  assumes "config_ok F r" "holds r ap s" "i < page_count F r"
  shows "wp (is_page_empty F i (Some st))
    (\<lambda>e t. e = (st = Open \<or> st = Closed \<and> (\<forall>sl \<in> set (snd (ap i)). \<not> fst sl)) \<and> holds r ap t
      \<and> data_buffer t = data_buffer s) no_err s"
proof (cases st)
  case Closed
  obtain k where k: "k \<le> length (snd (ap i))" "\<forall>sl \<in> set (take k (snd (ap i))). \<not> fst sl"
    "(case first_item_after_erased (cache s) i of Some a \<Rightarrow> a | None \<Rightarrow> page_data_start F r i)
      = page_data_start F r i + slots_size F (take k (snd (ap i)))"
    using erased_pointer [OF assms(2,3)] by metis
  let ?a = "page_data_start F r i + slots_size F (take k (snd (ap i)))"
  have "(\<forall>sl \<in> set (drop k (snd (ap i))). \<not> fst sl) = (\<forall>sl \<in> set (snd (ap i)). \<not> fst sl)"
    using k(2) by (metis Un_iff append_take_drop_id set_append)
  then have "fst (walk (\<lambda>h. ih_crc h = None) (drop k (snd (ap i))) ?a) = None
      \<longleftrightarrow> (\<forall>sl \<in> set (snd (ap i)). \<not> fst sl)"
    by (simp add: walk_dead_None)
  then have "wp (with_local (header_iter_new ?a (page_data_end F r i)) (traverse F (\<lambda>h _. ih_crc h = None)))
      (\<lambda>res t. (fst res = None) = (\<forall>sl \<in> set (snd (ap i)). \<not> fst sl) \<and> holds r ap t
        \<and> data_buffer t = data_buffer s) no_err s"
    by (intro wp_mono [OF wp_traverse_page [OF assms k(1) refl]]) simp_all
  then show ?thesis
    by (simp add: is_page_empty_def Closed k(3) holds_page(2) [OF assms] cong: option.case_cong
        del: wp_with_local)
qed (use assms in \<open>simp_all add: is_page_empty_def\<close>)

lemma fills_holds: "only_fills inv mem s t \<Longrightarrow> holds r ap s \<Longrightarrow> holds r ap t"
  by (simp add: only_fills_def flash_holds_def)

text \<open>Reading a live item that a page holds.\<close>

lemma wp_read_item_at:
  assumes "config_ok F r" "holds r ap s" "i < page_count F r" "snd (ap i) = pre @ (True, d) # post"
    and "a = page_data_start F r i + slots_size F pre"
  shows "wp (read_item F (slot_header (True, d)) a (page_data_end F r i))
    (\<lambda>mi t. mi = Present \<lparr> item_header = slot_header (True, d), item_data_buffer = data_buffer t \<rparr>
      \<and> holds r ap t \<and> take (length d) (data_buffer t) = d \<and> length (data_buffer t) = length (data_buffer s)
      \<and> round_up_to_alignment F (length d) \<le> length (data_buffer s))
    (\<lambda>e t. e = BufferTooSmall (round_up_to_alignment F (length d)) \<and> holds r ap t \<and> data_buffer t = data_buffer s
      \<and> length (data_buffer s) < round_up_to_alignment F (length d)) s"
proof -
  let ?ss = "snd (ap i)"
  have drop: "drop (length pre) ?ss = (True, d) # post" "take (length pre) ?ss = pre" using assms(4) by simp_all
  have a: "a = page_data_start F r i + slots_size F (take (length pre) ?ss)" using assms(5) drop(2) by simp
  have len: "length pre \<le> length ?ss" using assms(4) by simp
  note area = holds_area [OF assms(1-3) len a] and page = holds_page [OF assms(1-3)]
  have d: "length d \<le> u16_MAX" using page(7) assms(4) by simp
  have fits: "a + slot_size F (length d) \<le> page_data_end F r i" using area(2) drop(1) by simp
  have "bytes_at (mem (flash s)) a (slot_bytes F (True, d))"
    using area(1,2) unfolding drop(1) by (subst (asm) data_area_Cons) auto
  from wp_read_item_live [OF page(1) area(4) config_facts(1) [OF assms(1)] this d fits]
  show ?thesis
    by (rule wp_mono) (use assms(2) in \<open>auto simp: only_fills_def flash_holds_def\<close>)
qed

lemma available_fits:
  assumes "WORD_SIZE F dvd n"
  shows "(case available_data_bytes F n of Some available \<Rightarrow> if available \<ge> len then Some x else None | None \<Rightarrow> None)
    = (if slot_size F len \<le> n then Some x else None)"
proof -
  have down: "round_down_to_alignment F n = n"
    using assms by (simp add: round_down_to_alignment_def)
  have "len \<le> n - header_slice_len F \<longleftrightarrow> round_up_to_alignment F len \<le> n - header_slice_len F"
    using round_up_ge [of len F] next_multiple_of_least [of "WORD_SIZE F" "n - header_slice_len F" len]
      assms header_slice_dvd by (auto simp: round_up_to_alignment_def dvd_diff_nat)
  then show ?thesis
    by (auto simp: available_data_bytes_def Let_def down data_address_def slot_size_def header_slice_len_def)
qed

lemma wp_find_next_free_item_spot:
  assumes "config_ok F r" "holds r ap s" "i < page_count F r"
  shows "wp (find_next_free_item_spot F (page_data_start F r i) (page_data_end F r i) len)
    (\<lambda>res t. res = (if slots_size F (snd (ap i)) + slot_size F len \<le> calculate_page_size F
          then Some (page_data_start F r i + slots_size F (snd (ap i))) else None)
      \<and> holds r ap t \<and> data_buffer t = data_buffer s) no_err s"
proof -
  let ?free = "page_data_start F r i + slots_size F (snd (ap i))"
  note h = holds_page [OF assms] and ends = page_data_end_eq [OF assms(1), of i]
  have idx: "calculate_page_index F r (page_data_start F r i) = i"
    using assms(1) ends by (intro page_index_data) simp_all
  have free: "wp (case first_item_after_written (cache s) i of
        Some a \<Rightarrow> ret a
      | None \<Rightarrow> bnd (gets (\<lambda>s. first_item_after_erased (cache s) i)) (\<lambda>erased_ptr.
          bnd (with_local (header_iter_new
              (max (case erased_ptr of Some a \<Rightarrow> a | None \<Rightarrow> 0) (page_data_start F r i)) (page_data_end F r i))
            (traverse F (\<lambda>_ _. True))) (\<lambda>res. ret (snd res))))
    (\<lambda>a t. a = ?free \<and> holds r ap t \<and> data_buffer t = data_buffer s) no_err s"
  proof (cases "first_item_after_written (cache s) i")
    case None
    obtain k where k: "k \<le> length (snd (ap i))"
      "max (case first_item_after_erased (cache s) i of Some a \<Rightarrow> a | None \<Rightarrow> 0) (page_data_start F r i)
        = page_data_start F r i + slots_size F (take k (snd (ap i)))"
      using erased_pointer [OF assms(2,3)] by metis
    have "wp (with_local (header_iter_new (page_data_start F r i + slots_size F (take k (snd (ap i)))) (page_data_end F r i))
        (traverse F (\<lambda>_ _. True)))
      (\<lambda>res t. snd res = ?free \<and> holds r ap t \<and> data_buffer t = data_buffer s) no_err s"
      using holds_area(3) [OF assms k(1) refl]
      by (intro wp_mono [OF wp_traverse_page [OF assms k(1) refl, of "\<lambda>_. True"]]) (simp_all add: walk_all)
    then show ?thesis by (simp add: None k(2) del: wp_with_local)
  next
    case (Some a)
    then have "a = ?free" using assms by (simp add: flash_holds_def cache_ok_def)
    then show ?thesis using Some assms(2) by simp
  qed
  have total: "page_data_end F r i - ?free = calculate_page_size F - slots_size F (snd (ap i))"
    using ends by simp
  have "WORD_SIZE F dvd calculate_page_size F - slots_size F (snd (ap i))"
    using config_facts(7) [OF assms(1)] slots_size_dvd by (rule dvd_diff_nat)
  note fits = available_fits [OF this, of len ?free]
  show ?thesis
    unfolding find_next_free_item_spot_def wp_bnd wp_gets h(2) idx
    by (rule wp_mono [OF free [unfolded wp_bnd wp_gets]])
      (use h(5,6) total fits in \<open>auto simp: le_diff_conv2 add.commute\<close>)
qed

end

section \<open>Appending and erasing an item\<close>

context nor_flash
begin

lemma page_wf_append:
  assumes "page_wf F p" "fst p \<noteq> Open" "length d \<le> u16_MAX"
    and "slots_size F (snd p) + slot_size F (length d) \<le> calculate_page_size F"
  shows "page_wf F (fst p, snd p @ [(True, d)])"
  using assms by (auto simp: page_wf_def)

lemma slot_size_pos: "0 < slot_size F n"
  using header_slice_len_ge [of F] by (simp add: slot_size_def)

lemma slot_size_nonzero [simp]: "slot_size F n \<noteq> 0"
  using slot_size_pos [of n] by simp

lemma cache_ok_append:
  assumes "cache_ok F r ap c" "i < page_count F r"
    and "a = page_data_start F r i + slots_size F (snd (ap i))"
    and "calculate_page_index F r a = i"
    and "next_item_address F (slot_header (True, d)) a = a + slot_size F (length d)"
  shows "cache_ok F r (ap(i := (fst (ap i), snd (ap i) @ [(True, d)]))) (notice_item_written F r a (slot_header (True, d)) c)"
  unfolding cache_ok_def
proof (intro allI impI conjI)
  let ?p = "(fst (ap i), snd (ap i) @ [(True, d)])" and ?c = "notice_item_written F r a (slot_header (True, d)) c"
  fix j assume j: "j < page_count F r"
  have old: "cached_page_state c j = Some st \<Longrightarrow> st = fst (ap j)"
    "first_item_after_written c j = Some x \<Longrightarrow> x = page_data_start F r j + slots_size F (snd (ap j))"
    "first_item_after_erased c j = Some x \<Longrightarrow>
      \<exists>k \<le> length (snd (ap j)). x = page_data_start F r j + slots_size F (take k (snd (ap j)))
        \<and> (\<forall>sl \<in> set (take k (snd (ap j))). \<not> fst sl)" for st x
    using assms(1) j unfolding cache_ok_def by blast+
  show "st = fst ((ap(i := ?p)) j)" if "cached_page_state ?c j = Some st" for st
    using that old(1) [of st] by simp
  show "x = page_data_start F r j + slots_size F (snd ((ap(i := ?p)) j))"
    if "first_item_after_written ?c j = Some x" for x
    using written_after_item [OF that] old(2) [of x] assms(3-5) slot_size_pos [of "length d"]
    by (auto split: if_splits)
  show "\<exists>k \<le> length (snd ((ap(i := ?p)) j)). x = page_data_start F r j + slots_size F (take k (snd ((ap(i := ?p)) j)))
        \<and> (\<forall>sl \<in> set (take k (snd ((ap(i := ?p)) j))). \<not> fst sl)"
    if c: "first_item_after_erased ?c j = Some x" for x
  proof -
    obtain k where "k \<le> length (snd (ap j))" "x = page_data_start F r j + slots_size F (take k (snd (ap j)))"
      "\<forall>sl \<in> set (take k (snd (ap j))). \<not> fst sl"
      using old(3) [of x] c by auto
    then show ?thesis by (intro exI [of _ k]) auto
  qed
qed

lemma wp_append_item:
  assumes "config_ok F r" "holds r ap s" "i < page_count F r" "fst (ap i) \<noteq> Open" "length d \<le> u16_MAX"
    and "slots_size F (snd (ap i)) + slot_size F (length d) \<le> calculate_page_size F"
    and "a = page_data_start F r i + slots_size F (snd (ap i))"
  shows "wp (write_new F a d)
    (\<lambda>_ t. holds r (ap(i := (fst (ap i), snd (ap i) @ [(True, d)]))) t \<and> data_buffer t = data_buffer s) no_err s"
proof -
  let ?ss = "snd (ap i)" and ?p = "(fst (ap i), snd (ap i) @ [(True, d)])" and ?m = "mem (flash s)"
  let ?n = "slot_size F (length d)" and ?new = "slot_bytes F (True, d)"
  note cf = config_facts [OF assms(1)] and h = holds_page [OF assms(1-3)]
  note ends = page_data_end_eq [OF assms(1), of i]
  have pages: "pages_ok F r ?m ap" and cache: "cache_ok F r ap (cache s)"
    using assms(2) by (simp_all add: flash_holds_def)
  have wf: "page_wf F ?p" using page_wf_append [OF h(3) assms(4-6)] .
  have fits: "page_data_start F r i \<le> a" "a + ?n \<le> page_data_end F r i" using assms(6,7) ends by simp_all
  have geo: "calculate_page_address F r i \<le> a" "a + ?n + WORD_SIZE F \<le> calculate_page_address F r i + ERASE_SIZE F"
    using fits ends cf(6) by (simp_all add: page_data_start_def)
  have chip: "calculate_page_address F r i + ERASE_SIZE F \<le> length ?m" by (rule page_in_chip [OF assms(1) pages assms(3)])
  have len: "length ?new = ?n" using length_slot_bytes header_slice_len_le cf(1) by simp
  have dvd: "WORD_SIZE F dvd a"
    unfolding assms(7) using page_data_start_dvd [OF assms(1)] slots_size_dvd by (rule dvd_add)
  have idx: "calculate_page_index F r a = i" using fits by (intro page_index_data [OF assms(1)]) simp_all
  have nxt: "next_item_address F (slot_header (True, d)) a = a + ?n"
    using next_item_address_slot [of "(True, d)" a] assms(5) by simp
  have lss: "length (slots_bytes F ?ss) = slots_size F ?ss" using length_slots_bytes header_slice_len_le cf(1) by simp
  have "bytes_at (program a ?new ?m) (calculate_page_address F r i) (page_bytes F ?p)"
    unfolding page_parts [OF assms(1) wf]
  proof (intro conjI)
    have at: "bytes_at ?m (calculate_page_address F r i) (page_bytes F (ap i))"
      using pages assms(3) by (simp add: pages_ok_def)
    note parts = page_parts [OF assms(1) h(3), THEN iffD1, OF at]
    show "bytes_at (program a ?new ?m) (calculate_page_address F r i) (marker_word F (fst ?p \<noteq> Open))"
      using parts len chip geo fits assms(4) by (intro bytes_at_program_other) (simp_all add: page_data_start_def)
    show "bytes_at (program a ?new ?m) (page_data_end F r i) (marker_word F (fst ?p = Closed))"
      using parts len chip geo fits by (intro bytes_at_program_other) simp_all
    have erased: "erased (calculate_page_size F - slots_size F ?ss)
        = erased (length ?new) @ erased (calculate_page_size F - (slots_size F ?ss + ?n))"
      using assms(6) len by (simp add: erased_append [symmetric])
    have "bytes_at (program a ?new ?m) (page_data_start F r i) (slots_bytes F ?ss)"
      using h(4) len chip geo lss assms(7) by (intro bytes_at_program_other) (simp_all add: data_area_def)
    moreover have "bytes_at (program a ?new ?m) a ?new"
      using h(4) erased lss assms(7) by (intro bytes_at_program_erased) (simp add: data_area_def)
    moreover have "bytes_at (program a ?new ?m) (a + ?n) (erased (calculate_page_size F - (slots_size F ?ss + ?n)))"
      using h(4) erased lss assms(7) len chip geo by (intro bytes_at_program_other) (simp_all add: data_area_def)
    ultimately show "bytes_at (program a ?new ?m) (page_data_start F r i) (data_area F (snd ?p) (calculate_page_size F))"
      using lss len assms(7) by (simp add: data_area_def slots_bytes_def)
  qed
  then have pages': "pages_ok F r (program a ?new ?m) (ap(i := ?p))"
    using geo len by (intro pages_ok_program [OF assms(1) pages assms(3) wf]) simp_all
  have cache': "cache_ok F r (ap(i := ?p)) (notice_item_written F r a (slot_header (True, d)) (cache s))"
    using cache assms(3,7) idx nxt by (rule cache_ok_append)
  moreover have "bytes_at ?m a (erased ?n)"
    using h(4) bytes_at_erased_take [of ?m a "calculate_page_size F - slots_size F ?ss" ?n] assms(6,7) lss
    by (simp add: data_area_def)
  ultimately show ?thesis
    using wp_write_new [OF h(1) dvd cf(1), of d] pages' h(2)
    by (auto simp: becomes_def flash_holds_def elim!: wp_mono)
qed

lemma slots_size_take_inj:
  assumes "slots_size F (take k ss) = slots_size F (take j ss)" "k \<le> length ss" "j \<le> length ss"
  shows "k = j"
  using assms
proof (induction ss arbitrary: k j)
  case (Cons sl ss)
  show ?case
  proof (cases k)
    case 0
    then show ?thesis using Cons.prems by (cases j) simp_all
  next
    case (Suc k')
    show ?thesis
    proof (cases j)
      case (Suc j')
      then show ?thesis using \<open>k = Suc k'\<close> Cons.prems Cons.IH [of k' j'] by simp
    qed (use Suc Cons.prems in simp)
  qed
qed simp

end

context multiwrite_nor_flash
begin

lemma cache_ok_erase:
  assumes "cache_ok F r ap c" "i < page_count F r" "snd (ap i) = pre @ (True, d) # post"
    and "a = page_data_start F r i + slots_size F pre"
    and "calculate_page_index F r a = i"
    and "next_item_address F (slot_header (False, d)) a = a + slot_size F (length d)"
  shows "cache_ok F r (ap(i := (fst (ap i), pre @ (False, d) # post))) (notice_item_erased F r a (slot_header (False, d)) c)"
  unfolding cache_ok_def
proof (intro allI impI conjI)
  let ?p = "(fst (ap i), pre @ (False, d) # post)" and ?c = "notice_item_erased F r a (slot_header (False, d)) c"
  fix j assume j: "j < page_count F r"
  have old: "cached_page_state c j = Some st \<Longrightarrow> st = fst (ap j)"
    "first_item_after_written c j = Some x \<Longrightarrow> x = page_data_start F r j + slots_size F (snd (ap j))"
    "first_item_after_erased c j = Some x \<Longrightarrow>
      \<exists>k \<le> length (snd (ap j)). x = page_data_start F r j + slots_size F (take k (snd (ap j)))
        \<and> (\<forall>sl \<in> set (take k (snd (ap j))). \<not> fst sl)" for st x
    using assms(1) j unfolding cache_ok_def by blast+
  show "st = fst ((ap(i := ?p)) j)" if "cached_page_state ?c j = Some st" for st
    using that old(1) [of st] by simp
  show "x = page_data_start F r j + slots_size F (snd ((ap(i := ?p)) j))"
    if "first_item_after_written ?c j = Some x" for x
    using that old(2) [of x] assms(3) by auto
  show "\<exists>k \<le> length (snd ((ap(i := ?p)) j)). x = page_data_start F r j + slots_size F (take k (snd ((ap(i := ?p)) j)))
        \<and> (\<forall>sl \<in> set (take k (snd ((ap(i := ?p)) j))). \<not> fst sl)"
    if c: "first_item_after_erased ?c j = Some x" for x
  proof (cases "j = i")
    case False
    then show ?thesis using erased_after_item [OF c] old(3) [of x] assms(5) by auto
  next
    case True
    have dead: "k \<le> length pre" if "k \<le> length (snd (ap i))" "\<forall>sl \<in> set (take k (snd (ap i))). \<not> fst sl" for k
    proof (rule ccontr)
      assume "\<not> k \<le> length pre"
      then have "(True, d) \<in> set (take k (snd (ap i)))" using assms(3) by (simp add: take_Cons' )
      then show False using that(2) by auto
    qed
    from erased_after_item [OF c] show ?thesis
    proof
      assume "first_item_after_erased c j = Some x"
      then obtain k where k: "k \<le> length (snd (ap i))" "x = page_data_start F r i + slots_size F (take k (snd (ap i)))"
        "\<forall>sl \<in> set (take k (snd (ap i))). \<not> fst sl"
        using old(3) [of x] True by auto
      then show ?thesis using dead [OF k(1,3)] True assms(3) by (intro exI [of _ k]) auto
    next
      assume *: "j = calculate_page_index F r a \<and> x = next_item_address F (slot_header (False, d)) a
        \<and> (case first_item_after_erased c j of Some p \<Rightarrow> p
           | None \<Rightarrow> calculate_page_address F r j + WORD_SIZE F) = a"
      have "\<forall>sl \<in> set pre. \<not> fst sl"
      proof (cases "first_item_after_erased c j")
        case None
        then have "slots_size F pre = 0" using * True assms(4) by (simp add: page_data_start_def)
        then have "pre = []" by (cases pre) auto
        then show ?thesis by simp
      next
        case (Some p)
        then obtain k where k: "k \<le> length (snd (ap i))" "a = page_data_start F r i + slots_size F (take k (snd (ap i)))"
          "\<forall>sl \<in> set (take k (snd (ap i))). \<not> fst sl"
          using old(3) [of p] True * by auto
        then have "slots_size F (take k (snd (ap i))) = slots_size F (take (length pre) (snd (ap i)))"
          using assms(3,4) by simp
        then have "k = length pre" by (rule slots_size_take_inj) (use k assms(3) in simp_all)
        then show ?thesis using k(3) assms(3) by simp
      qed
      then show ?thesis using * True assms(4,6) by (intro exI [of _ "Suc (length pre)"]) auto
    qed
  qed
qed

lemma wp_erase_item:
  assumes "config_ok F r" "holds r ap s" "i < page_count F r" "snd (ap i) = pre @ (True, d) # post"
    and "a = page_data_start F r i + slots_size F pre"
  shows "wp (erase_data F (slot_header (True, d)) a)
    (\<lambda>_ t. holds r (ap(i := (fst (ap i), pre @ (False, d) # post))) t \<and> data_buffer t = data_buffer s) no_err s"
proof -
  let ?p = "(fst (ap i), pre @ (False, d) # post)" and ?m = "mem (flash s)"
  let ?hb = "header_bytes F (slot_header (False, d))" and ?n = "slot_size F (length d)"
  note cf = config_facts [OF assms(1)] and h = holds_page [OF assms(1-3)]
  note ends = page_data_end_eq [OF assms(1), of i] and hsl = header_slice_len_le [OF cf(1)]
  have pages: "pages_ok F r ?m ap" and cache: "cache_ok F r ap (cache s)"
    using assms(2) by (simp_all add: flash_holds_def)
  have wf: "page_wf F ?p" using h(3) assms(4) by (auto simp: page_wf_def)
  have fits: "page_data_start F r i \<le> a" "a + ?n + slots_size F post \<le> page_data_end F r i"
    using h(5) assms(4,5) by simp_all
  have hn: "length ?hb = header_slice_len F" "header_slice_len F \<le> ?n" using hsl by (simp_all add: slot_size_def)
  have geo: "calculate_page_address F r i + WORD_SIZE F \<le> a"
    "a + header_slice_len F + WORD_SIZE F \<le> calculate_page_address F r i + ERASE_SIZE F"
    using fits ends cf(6) hn(2) by (simp_all add: page_data_start_def)
  have chip: "calculate_page_address F r i + ERASE_SIZE F \<le> length ?m" by (rule page_in_chip [OF assms(1) pages assms(3)])
  have idx: "calculate_page_index F r a = i" using fits by (intro page_index_data [OF assms(1)]) simp_all
  have nxt: "next_item_address F (slot_header (False, d)) a = a + ?n"
    using next_item_address_slot [of "(False, d)" a] h(7) assms(4) by simp
  have dvd: "WORD_SIZE F dvd a"
    unfolding assms(5) using page_data_start_dvd [OF assms(1)] slots_size_dvd by (rule dvd_add)
  have lss: "length (slots_bytes F pre) = slots_size F pre" "length (slot_bytes F (l, d)) = ?n" for l
    using length_slots_bytes length_slot_bytes hsl by simp_all
  have area: "data_area F (pre @ (l, d) # post) (calculate_page_size F)
      = slots_bytes F pre @ slot_bytes F (l, d) @ data_area F post (calculate_page_size F - (slots_size F pre + ?n))" for l
    using h(6) assms(4) data_area_append [of pre "(l, d) # post"] data_area_Cons [of "(l, d)" post]
    by (simp add: diff_diff_left)
  have lpost: "length (data_area F post (calculate_page_size F - (slots_size F pre + ?n)))
      = calculate_page_size F - (slots_size F pre + ?n)"
    using h(6) assms(4) cf(1) by (intro length_data_area) simp_all
  have old: "bytes_at ?m (page_data_start F r i) (slots_bytes F pre)" "bytes_at ?m a (slot_bytes F (True, d))"
    "bytes_at ?m (a + ?n) (data_area F post (calculate_page_size F - (slots_size F pre + ?n)))"
    using h(4) lss assms(5) unfolding assms(4) area by (simp_all add: add.assoc)
  have "bytes_at (program a ?hb ?m) (calculate_page_address F r i) (page_bytes F ?p)"
    unfolding page_parts [OF assms(1) wf]
  proof (intro conjI)
    have at: "bytes_at ?m (calculate_page_address F r i) (page_bytes F (ap i))"
      using pages assms(3) by (simp add: pages_ok_def)
    note parts = page_parts [OF assms(1) h(3), THEN iffD1, OF at]
    show "bytes_at (program a ?hb ?m) (calculate_page_address F r i) (marker_word F (fst ?p \<noteq> Open))"
      using parts hn chip geo by (intro bytes_at_program_other) simp_all
    show "bytes_at (program a ?hb ?m) (page_data_end F r i) (marker_word F (fst ?p = Closed))"
      using parts hn chip geo fits by (intro bytes_at_program_other) simp_all
    have "bytes_at (program a ?hb ?m) (page_data_start F r i) (slots_bytes F pre)"
      using old(1) hn chip geo lss assms(5) by (intro bytes_at_program_other) simp_all
    moreover have "bytes_at (program a ?hb ?m) a (slot_bytes F (False, d))"
      using old(2) cf(1) by (rule slot_bytes_erase)
    moreover have "bytes_at (program a ?hb ?m) (a + ?n) (data_area F post (calculate_page_size F - (slots_size F pre + ?n)))"
      using old(3) hn chip geo by (intro bytes_at_program_other) simp_all
    ultimately show "bytes_at (program a ?hb ?m) (page_data_start F r i) (data_area F (snd ?p) (calculate_page_size F))"
      unfolding snd_conv area using lss assms(5) by (simp add: add.assoc)
  qed
  then have pages': "pages_ok F r (program a ?hb ?m) (ap(i := ?p))"
    using geo hn by (intro pages_ok_program [OF assms(1) pages assms(3) wf]) simp_all
  have cache': "cache_ok F r (ap(i := ?p)) (notice_item_erased F r a (slot_header (False, d)) (cache s))"
    using cache assms(3-5) idx nxt by (rule cache_ok_erase)
  show ?thesis
    using wp_erase_data [OF h(1) dvd cf(1), of True d] pages' cache' h(2) geo chip
    by (auto simp: becomes_def flash_holds_def elim!: wp_mono)
qed

end

end
