(* ===== verification/QueueRing.thy ===== *)
theory QueueRing
  imports Queue FlashState
begin

text \<open>
  The ring of pages of a queue: after the youngest page come the open pages, then the closed ones,
  oldest first. The items of the queue are the live items of the pages in that order. The theory
  proves that the searches of the queue find the youngest and the oldest page, and how the items
  change when the youngest page moves on.
\<close>

section \<open>Positions on a ring\<close>

lemma ring_self: "y < n \<Longrightarrow> (y + n) mod n = (y :: nat)"
  by simp

lemma ring_offset:
  fixes n :: nat
  assumes "i < n" "y < n" "i \<noteq> y"
  obtains m where "0 < m" "m < n" "i = (y + m) mod n"
proof (cases "y < i")
  case True
  then show thesis using that [of "i - y"] assms by simp
next
  case False
  then have "y + (i + n - y) = i + n" using assms by simp
  then have "i = (y + (i + n - y)) mod n" using assms by simp
  then show thesis using that [of "i + n - y"] False assms by simp
qed

lemma find_map_upt:
  assumes "m < n" "P (f m)" "\<And>i. i < m \<Longrightarrow> \<not> P (f i)"
  shows "find P (map f [0..<n]) = Some (f m)"
proof -
  have "[0..<n] = [0..<m] @ m # [Suc m..<n]"
    using assms(1) by (metis le_add_same_cancel1 less_imp_add_positive upt_add_eq_append upt_conv_Cons zero_le)
  moreover have "find P (map f [0..<m]) = None"
    using assms(3) by (auto simp: find_None_iff)
  moreover have "find P (xs @ ys) = (case find P xs of None \<Rightarrow> find P ys | Some x \<Rightarrow> Some x)" for xs ys
    by (induction xs) auto
  ultimately show ?thesis using assms(2) by simp
qed

section \<open>The shape of a queue\<close>

definition alive :: "slot list \<Rightarrow> u8 list list" where
  "alive ss = map snd (filter fst ss)"

lemma alive_simps [simp]:
  "alive [] = []" "alive (ss @ ts) = alive ss @ alive ts"
  "alive ((l, d) # ss) = (if l then d # alive ss else alive ss)"
  by (simp_all add: alive_def)

lemma alive_dead: "\<forall>sl \<in> set ss. \<not> fst sl \<Longrightarrow> alive ss = []"
  by (simp add: alive_def)

lemma alive_Nil_iff: "alive ss = [] \<longleftrightarrow> (\<forall>sl \<in> set ss. \<not> fst sl)"
  by (auto simp: alive_def filter_empty_conv)

text \<open>\<open>y\<close> is the youngest page, \<open>k\<close> the number of open pages behind it.\<close>

definition queue_shape :: "nat \<Rightarrow> (nat \<Rightarrow> apage) \<Rightarrow> nat \<Rightarrow> nat \<Rightarrow> bool" where
  "queue_shape n ap y k \<longleftrightarrow> y < n \<and> k < n
     \<and> (\<forall>i. 0 < i \<and> i \<le> k \<longrightarrow> ap ((y + i) mod n) = (Open, []))
     \<and> (\<forall>i. k < i \<and> i < n \<longrightarrow> fst (ap ((y + i) mod n)) = Closed)
     \<and> (fst (ap y) = PartialOpen \<or> ap y = (Open, []) \<and> y = 0 \<and> Suc k = n)"

definition page_items :: "nat \<Rightarrow> (nat \<Rightarrow> apage) \<Rightarrow> nat \<Rightarrow> nat \<Rightarrow> u8 list list" where
  "page_items n ap y i = alive (snd (ap ((y + i) mod n)))"

definition queue_items :: "nat \<Rightarrow> (nat \<Rightarrow> apage) \<Rightarrow> nat \<Rightarrow> u8 list list" where
  "queue_items n ap y = concat (map (page_items n ap y) [1..<Suc n])"

lemma shape_less [simp]:
  "queue_shape n ap y k \<Longrightarrow> y < n" "queue_shape n ap y k \<Longrightarrow> k < n" "queue_shape n ap y k \<Longrightarrow> 0 < n"
  by (auto simp: queue_shape_def)

lemma shape_open: "queue_shape n ap y k \<Longrightarrow> 0 < i \<Longrightarrow> i \<le> k \<Longrightarrow> ap ((y + i) mod n) = (Open, [])"
  unfolding queue_shape_def by blast

lemma shape_closed: "queue_shape n ap y k \<Longrightarrow> k < i \<Longrightarrow> i < n \<Longrightarrow> fst (ap ((y + i) mod n)) = Closed"
  unfolding queue_shape_def by blast

lemma shape_youngest:
  "queue_shape n ap y k \<Longrightarrow> fst (ap y) = PartialOpen \<or> ap y = (Open, []) \<and> y = 0 \<and> Suc k = n"
  unfolding queue_shape_def by blast

lemma shape_other:
  assumes "queue_shape n ap y k" "i < n" "i \<noteq> y"
  shows "fst (ap i) \<noteq> PartialOpen"
proof -
  obtain m where m: "0 < m" "m < n" "i = (y + m) mod n"
    using ring_offset [OF assms(2) shape_less(1) [OF assms(1)] assms(3)] .
  show ?thesis
  proof (cases "m \<le> k")
    case True
    then show ?thesis using shape_open [OF assms(1) m(1)] unfolding m(3) by simp
  next
    case False
    then show ?thesis using shape_closed [OF assms(1) _ m(2)] unfolding m(3) by simp
  qed
qed

lemma shape_open_empty:
  assumes "queue_shape n ap y k" "i < n" "fst (ap i) = Open"
  shows "snd (ap i) = []"
proof (cases "i = y")
  case True
  then show ?thesis using shape_youngest [OF assms(1)] assms(3) by auto
next
  case False
  obtain m where m: "0 < m" "m < n" "i = (y + m) mod n"
    using ring_offset [OF assms(2) shape_less(1) [OF assms(1)] False] .
  then have "m \<le> k" using shape_closed [OF assms(1) _ m(2)] assms(3) by (cases "m \<le> k") auto
  then show ?thesis using shape_open [OF assms(1) m(1)] m(3) by simp
qed

text \<open>The searches over the pages.\<close>

lemma find_youngest:
  assumes "queue_shape n ap y k"
  shows "find (\<lambda>i. PartialOpen = fst (ap i)) (map (\<lambda>i. i mod n) [0..<n])
    = (if fst (ap y) = PartialOpen then Some y else None)"
proof (cases "fst (ap y) = PartialOpen")
  case True
  have "\<not> PartialOpen = fst (ap (i mod n))" if "i < y" for i
    using shape_other [OF assms, of "i mod n"] that shape_less(1) [OF assms] by (metis less_trans mod_less nat_neq_iff)
  then show ?thesis
    using find_map_upt [of y n "\<lambda>i. PartialOpen = fst (ap i)" "\<lambda>i. i mod n"] shape_less(1) [OF assms] True
    by simp
next
  case False
  then have "PartialOpen \<noteq> fst (ap i)" if "i < n" for i
    using shape_other [OF assms that] by metis
  then show ?thesis using False shape_less(3) [OF assms] by (simp add: find_None_iff)
qed

lemma find_oldest:
  assumes "queue_shape n ap y k"
  shows "(case find (\<lambda>i. Closed = fst (ap i)) (map (\<lambda>i. (i + y) mod n) [0..<n]) of Some p \<Rightarrow> p | None \<Rightarrow> y)
    = (y + Suc k) mod n"
proof -
  note less = shape_less [OF assms]
  have before: "\<not> Closed = fst (ap ((i + y) mod n))" if "i \<le> k" for i
  proof (cases "i = 0")
    case True
    then show ?thesis using shape_youngest [OF assms] less by auto
  next
    case False
    then show ?thesis using shape_open [OF assms _ that] by (simp add: add.commute)
  qed
  show ?thesis
  proof (cases "Suc k < n")
    case True
    then have "Closed = fst (ap ((Suc k + y) mod n))" using shape_closed [OF assms, of "Suc k"] by (simp add: add.commute)
    then have "find (\<lambda>i. Closed = fst (ap i)) (map (\<lambda>i. (i + y) mod n) [0..<n]) = Some ((Suc k + y) mod n)"
      using True before by (intro find_map_upt) simp_all
    then show ?thesis by (simp add: add.commute)
  next
    case False
    then have k: "Suc k = n" using less by simp
    then have "find (\<lambda>i. Closed = fst (ap i)) (map (\<lambda>i. (i + y) mod n) [0..<n]) = None"
      using before by (auto simp: find_None_iff less_Suc_eq_le)
    then show ?thesis unfolding k using less by simp
  qed
qed

lemma all_open:
  assumes "queue_shape n ap y k" "fst (ap y) \<noteq> PartialOpen" "i < n"
  shows "ap i = (Open, [])"
proof (cases "i = y")
  case False
  obtain m where m: "0 < m" "m < n" "i = (y + m) mod n"
    using ring_offset [OF assms(3) shape_less(1) [OF assms(1)] False] .
  then have "m \<le> k" using shape_youngest [OF assms(1)] assms(2) by auto
  then show ?thesis using shape_open [OF assms(1) m(1)] m(3) by simp
qed (use shape_youngest [OF assms(1)] assms(2) in blast)

section \<open>The youngest page moves on\<close>

lemma queue_items_split:
  assumes "1 < n" "y < n"
  shows "queue_items n ap y = page_items n ap y 1 @ concat (map (page_items n ap y) [2..<n]) @ alive (snd (ap y))"
proof -
  have "[1..<Suc n] = 1 # [2..<n] @ [n]"
    using assms(1) by (simp add: upt_conv_Cons numeral_2_eq_2)
  then show ?thesis using assms(2) by (simp add: queue_items_def page_items_def del: upt_Suc)
qed

lemma queue_items_moved:
  assumes "1 < n" "y < n"
  shows "queue_items n ap (Suc y mod n) = concat (map (page_items n ap y) [2..<n])
    @ alive (snd (ap y)) @ alive (snd (ap (Suc y mod n)))"
proof -
  have "page_items n ap (Suc y mod n) = (\<lambda>i. page_items n ap y (Suc i))"
    by (simp add: page_items_def mod_add_left_eq fun_eq_iff)
  then have "queue_items n ap (Suc y mod n) = concat (map (page_items n ap y) (map Suc [1..<Suc n]))"
    by (simp add: queue_items_def comp_def del: upt_Suc map_Suc_upt)
  also have "map Suc [1..<Suc n] = [2..<n] @ [n, Suc n]"
    using assms(1) by (simp add: map_Suc_upt numeral_2_eq_2)
  finally have "queue_items n ap (Suc y mod n) = concat (map (page_items n ap y) [2..<n])
      @ page_items n ap y n @ page_items n ap y (Suc n)"
    by simp
  moreover have "(y + Suc n) mod n = Suc y mod n" by (simp flip: add_Suc)
  ultimately show ?thesis
    using assms by (simp add: page_items_def)
qed

text \<open>A new youngest page: the one before is closed, the new one holds what \<open>new\<close> says.\<close>

lemma shape_moved:
  assumes "queue_shape n ap y k" "1 < n"
    and "\<And>i. i < n \<Longrightarrow> i \<noteq> y \<Longrightarrow> i \<noteq> Suc y mod n \<Longrightarrow> ap' i = ap i"
    and "fst (ap' y) = Closed" "fst (ap' (Suc y mod n)) = PartialOpen"
  shows "queue_shape n ap' (Suc y mod n) (k - 1)"
proof -
  note less = shape_less [OF assms(1)]
  have off: "(Suc y mod n + i) mod n = (y + Suc i) mod n" for i by (simp add: mod_add_left_eq)
  have other: "ap' ((y + Suc i) mod n) = ap ((y + Suc i) mod n)" if "0 < i" "Suc i < n" for i
    using that less assms(2) ring_inj_iff [of "Suc i" 0 n y] ring_inj_iff [of "Suc i" 1 n y]
    by (intro assms(3)) auto
  have op: "ap' ((y + Suc i) mod n) = (Open, [])" if "0 < i" "i \<le> k - 1" for i
    using that less shape_open [OF assms(1), of "Suc i"] other [of i] by auto
  have cl: "fst (ap' ((y + Suc i) mod n)) = Closed" if "k - 1 < i" "i < n" for i
  proof (cases "Suc i = n")
    case True
    then show ?thesis using assms(4) less by simp
  next
    case False
    then show ?thesis using that assms(2) shape_closed [OF assms(1), of "Suc i"] other [of i] by (cases "i = 0") auto
  qed
  show ?thesis
    unfolding queue_shape_def off using op cl assms(2,5) less by auto
qed

lemma items_moved:
  assumes "queue_shape n ap y k" "1 < n"
    and "\<And>i. i < n \<Longrightarrow> i \<noteq> y \<Longrightarrow> i \<noteq> Suc y mod n \<Longrightarrow> ap' i = ap i"
    and "snd (ap' y) = snd (ap y)"
  shows "queue_items n ap' (Suc y mod n)
    = drop (length (page_items n ap y 1)) (queue_items n ap y) @ alive (snd (ap' (Suc y mod n)))"
proof -
  note less = shape_less [OF assms(1)]
  have "page_items n ap' y i = page_items n ap y i" if "i \<in> set [2..<n]" for i
    using that less ring_inj_iff [of i 0 n y] ring_inj_iff [of i 1 n y]
    unfolding page_items_def by (subst assms(3)) auto
  then have "concat (map (page_items n ap' y) [2..<n]) = concat (map (page_items n ap y) [2..<n])"
    by (intro arg_cong [of _ _ concat] map_cong) auto
  then show ?thesis
    using queue_items_moved [OF assms(2) less(1), of ap'] queue_items_split [OF assms(2) less(1), of ap] assms(4)
    by simp
qed

text \<open>The youngest page changes in place.\<close>

lemma shape_youngest_update:
  assumes "queue_shape n ap y k" "fst p = PartialOpen"
  shows "queue_shape n (ap(y := p)) y k"
proof -
  note less = shape_less [OF assms(1)]
  have "(y + i) mod n \<noteq> y" if "0 < i" "i < n" for i
    using that less ring_inj_iff [of i 0 n y] by simp
  then show ?thesis
    using shape_open [OF assms(1)] shape_closed [OF assms(1)] less assms(2) unfolding queue_shape_def
    by (auto simp: fun_upd_def)
qed

lemma items_youngest_update:
  assumes "y < n"
  shows "queue_items n (ap(y := p)) y = concat (map (page_items n ap y) [1..<n]) @ alive (snd p)"
    and "queue_items n ap y = concat (map (page_items n ap y) [1..<n]) @ alive (snd (ap y))"
proof -
  have "page_items n (ap(y := p)) y i = page_items n ap y i" if "i \<in> set [1..<n]" for i
    using that assms ring_inj_iff [of i 0 n y] by (auto simp: page_items_def)
  then have "concat (map (page_items n (ap(y := p)) y) [1..<n]) = concat (map (page_items n ap y) [1..<n])"
    by (intro arg_cong [of _ _ concat] map_cong) auto
  then show "queue_items n (ap(y := p)) y = concat (map (page_items n ap y) [1..<n]) @ alive (snd p)"
    using assms by (simp add: queue_items_def page_items_def)
  show "queue_items n ap y = concat (map (page_items n ap y) [1..<n]) @ alive (snd (ap y))"
    using assms by (simp add: queue_items_def page_items_def)
qed

text \<open>The oldest page may be opened.\<close>

lemma shape_open_oldest:
  assumes "queue_shape n ap y k" "Suc k < n" "p = (y + Suc k) mod n"
  shows "queue_shape n (ap(p := (Open, []))) y (Suc k)"
proof -
  note less = shape_less [OF assms(1)]
  have other: "(y + i) mod n = p \<longleftrightarrow> i = Suc k" if "i < n" for i
    unfolding assms(3) using ring_inj_iff [of i "Suc k" n y] that assms(2) by simp
  have "y \<noteq> p" using other [of 0] less by simp
  moreover have "fst (ap y) = PartialOpen" using shape_youngest [OF assms(1)] assms(2) by auto
  ultimately show ?thesis
    unfolding queue_shape_def fun_upd_def
    using less assms(2) other shape_open [OF assms(1)] shape_closed [OF assms(1)]
    by (auto simp: le_Suc_eq)
qed

section \<open>The searches of the queue\<close>

lemma get_pages_ring:
  "get_pages F r j = map (\<lambda>i. (i + j) mod page_count F r) [0..<page_count F r]"
  by (simp add: get_pages_def)

context nor_flash
begin

lemma wp_find_youngest_page:
  assumes "config_ok F r" "holds r ap s" "queue_shape (page_count F r) ap y k"
  shows "wp (find_youngest_page F) (\<lambda>p t. p = y \<and> holds r ap t \<and> data_buffer t = data_buffer s) no_err s"
proof -
  note less = shape_less [OF assms(3)]
  have first: "wp (find_first_page F 0 PartialOpen)
      (\<lambda>found t. found = (if fst (ap y) = PartialOpen then Some y else None) \<and> holds r ap t
        \<and> data_buffer t = data_buffer s) no_err s"
    using wp_find_first_page [OF assms(1,2), of 0 PartialOpen] find_youngest [OF assms(3)]
    by (simp add: get_pages_ring)
  show ?thesis
  proof (cases "fst (ap y) = PartialOpen")
    case True
    then show ?thesis
      unfolding find_youngest_page_def wp_bnd by (intro wp_mono [OF first]) auto
  next
    case False
    then have y: "y = 0" using shape_youngest [OF assms(3)] by auto
    have "find (\<lambda>i. Closed = fst (ap i)) (get_pages F r 0) = None"
      using all_open [OF assms(3) False] less by (auto simp: get_pages_ring find_None_iff)
    then have second: "wp (find_first_page F 0 Closed)
        (\<lambda>found u. found = None \<and> holds r ap u \<and> data_buffer u = data_buffer t) no_err t"
      if "holds r ap t" for t
      using wp_find_first_page [OF assms(1) that, of 0 Closed] by simp
    show ?thesis
      unfolding find_youngest_page_def wp_bnd
    proof (rule wp_mono [OF first])
      fix found t assume t: "found = (if fst (ap y) = PartialOpen then Some y else None) \<and> holds r ap t
          \<and> data_buffer t = data_buffer s"
      then have "wp (find_first_page F 0 Closed)
          (\<lambda>found u. found = None \<and> holds r ap u \<and> data_buffer u = data_buffer t) no_err t"
        using second by blast
      then show "wp (case found of Some last_used_page \<Rightarrow> ret last_used_page
          | None \<Rightarrow> bnd (find_first_page F 0 Closed) (\<lambda>first_closed_page.
              bnd (case first_closed_page of Some anchor \<Rightarrow> find_first_page F anchor Open | None \<Rightarrow> ret (Some 0))
                (\<lambda>first_open_page. case first_open_page of Some first_open_page \<Rightarrow> ret first_open_page
                  | None \<Rightarrow> fail Corrupted)))
        (\<lambda>p t. p = y \<and> holds r ap t \<and> data_buffer t = data_buffer s) no_err t"
        using t False y by (auto elim!: wp_mono)
    qed simp
  qed
qed

lemma wp_find_oldest_page:
  assumes "config_ok F r" "holds r ap s" "queue_shape (page_count F r) ap y k"
  shows "wp (find_oldest_page F)
    (\<lambda>p t. p = (y + Suc k) mod page_count F r \<and> holds r ap t \<and> data_buffer t = data_buffer s) no_err s"
  unfolding find_oldest_page_def wp_bnd
proof (rule wp_mono [OF wp_find_youngest_page [OF assms]])
  fix p t assume t: "p = y \<and> holds r ap t \<and> data_buffer t = data_buffer s"
  then have "wp (find_first_page F y Closed)
      (\<lambda>found u. found = find (\<lambda>i. Closed = fst (ap i)) (get_pages F r y) \<and> holds r ap u
        \<and> data_buffer u = data_buffer t) no_err t"
    using assms by (intro wp_find_first_page) simp_all
  then show "wp (find_first_page F p Closed) (\<lambda>found. wp (ret (case found of Some p \<Rightarrow> p | None \<Rightarrow> p))
      (\<lambda>p t. p = (y + Suc k) mod page_count F r \<and> holds r ap t \<and> data_buffer t = data_buffer s) no_err) no_err t"
    using t find_oldest [OF assms(3)] by (auto simp: get_pages_ring elim!: wp_mono)
qed simp

end

end
