(* ===== verification/QueuePush.thy ===== *)
theory QueuePush
  imports QueueRing
begin

text \<open>
  What a queue stores, and pushing: on a flash that holds a queue, \<open>push\<close> appends the item, drops
  the oldest ones only where overwriting is allowed, or fails with \<open>FullStorage\<close> and changes
  nothing.
\<close>

definition queue_repr ::
  "('s, 'e) nor_flash \<Rightarrow> ('s \<Rightarrow> bool) \<Rightarrow> ('s \<Rightarrow> u8 list) \<Rightarrow> flash_range \<Rightarrow> ('s, 'k) storage \<Rightarrow> u8 list list \<Rightarrow> bool"
where
  "queue_repr F ok chip r s q \<longleftrightarrow> (\<exists>ap y k. flash_holds F ok chip r ap s
     \<and> queue_shape (page_count F r) ap y k \<and> q = queue_items (page_count F r) ap y)"

lemma queue_reprI:
  "flash_holds F ok chip r ap s \<Longrightarrow> queue_shape (page_count F r) ap y k \<Longrightarrow>
   q = queue_items (page_count F r) ap y \<Longrightarrow> queue_repr F ok chip r s q"
  unfolding queue_repr_def by blast

lemma queue_repr_unmark [simp]:
  "queue_repr F ok chip r (s\<lparr>cache := unmark_dirty (cache s)\<rparr>) q = queue_repr F ok chip r s q"
  by (simp add: queue_repr_def flash_holds_def)

lemma flash_holds_unmark [simp]:
  "flash_holds F ok chip r ap (s\<lparr>cache := unmark_dirty (cache s)\<rparr>) = flash_holds F ok chip r ap s"
  by (simp add: flash_holds_def)

lemma wp_drop_dirty_cache:
  assumes "flash_holds F ok chip r ap s"
  shows "wp drop_dirty_cache (\<lambda>_ t. flash_holds F ok chip r ap t \<and> data_buffer t = data_buffer s) E s"
  using assms by (auto simp: drop_dirty_cache_def flash_holds_def)

text \<open>The next page is free when it is open or holds only erased items.\<close>

definition next_free :: "nat \<Rightarrow> (nat \<Rightarrow> apage) \<Rightarrow> nat \<Rightarrow> bool" where
  "next_free n ap y \<longleftrightarrow> Suc y mod n \<noteq> y
     \<and> (fst (ap (Suc y mod n)) = Open \<or> fst (ap (Suc y mod n)) = Closed \<and> alive (snd (ap (Suc y mod n))) = [])"

text \<open>There is room for an item on the youngest page, or on the next one.\<close>

definition has_room :: "('s, 'e) nor_flash \<Rightarrow> flash_range \<Rightarrow> (nat \<Rightarrow> apage) \<Rightarrow> nat \<Rightarrow> nat \<Rightarrow> bool" where
  "has_room F r ap y len \<longleftrightarrow> slots_size F (snd (ap y)) + slot_size F len \<le> calculate_page_size F
     \<or> next_free (page_count F r) ap y"

context nor_flash
begin

text \<open>An item that is not too big fits on an empty page.\<close>

lemma not_too_big:
  assumes "config_ok F r" "header_slice_len F \<le> calculate_page_size F" "\<not> item_too_big F (length d)"
  shows "length d \<le> u16_MAX" "slot_size F (length d) \<le> calculate_page_size F"
proof -
  have d: "length d \<le> calculate_page_size F - header_slice_len F" and "length d \<le> u16_MAX"
    using assms(3) by (auto simp: item_too_big_def data_address_def header_slice_len_def)
  then show "length d \<le> u16_MAX" by simp
  have "round_up_to_alignment F (length d) \<le> calculate_page_size F - header_slice_len F"
    using config_facts(7) [OF assms(1)] header_slice_dvd d
    unfolding round_up_to_alignment_def by (intro next_multiple_of_least dvd_diff_nat)
  then show "slot_size F (length d) \<le> calculate_page_size F"
    using assms(2) by (simp add: slot_size_def)
qed

text \<open>Moving on to the next page leaves an empty youngest page behind all items that stay.\<close>

definition next_page_taken :: "flash_range \<Rightarrow> (nat \<Rightarrow> apage) \<Rightarrow> nat \<Rightarrow> bool \<Rightarrow> nat \<Rightarrow> ('s, 'k) storage \<Rightarrow> bool" where
  "next_page_taken r ap y allow a t \<longleftrightarrow> (\<exists>ap' k' j. holds r ap' t
     \<and> queue_shape (page_count F r) ap' (Suc y mod page_count F r) k'
     \<and> ap' (Suc y mod page_count F r) = (PartialOpen, [])
     \<and> queue_items (page_count F r) ap' (Suc y mod page_count F r) = drop j (queue_items (page_count F r) ap y)
     \<and> (j = 0 \<or> allow) \<and> a = page_data_start F r (Suc y mod page_count F r))"

lemma taken_moved:
  assumes "queue_shape (page_count F r) ap y k" "1 < page_count F r"
    and "holds r (ap(y := (Closed, snd (ap y)), Suc y mod page_count F r := (PartialOpen, []))) t"
    and "alive (snd (ap (Suc y mod page_count F r))) = [] \<or> allow"
    and "a = page_data_start F r (Suc y mod page_count F r)"
  shows "next_page_taken r ap y allow a t"
proof -
  let ?n = "page_count F r" and ?y = "Suc y mod page_count F r"
  let ?ap = "ap(y := (Closed, snd (ap y)), ?y := (PartialOpen, []))"
  have y: "?y \<noteq> y" using ring_inj_iff [of 1 0 ?n y] assms(1,2) by simp
  have "queue_shape ?n ?ap ?y (k - 1)"
    by (rule shape_moved [OF assms(1,2)]) (use y in auto)
  moreover have "queue_items ?n ?ap ?y = drop (length (page_items ?n ap y 1)) (queue_items ?n ap y)"
    using items_moved [OF assms(1,2), of ?ap] y by simp
  ultimately show ?thesis
    unfolding next_page_taken_def using assms(3-5)
    by (intro exI [of _ ?ap] exI [of _ "k - 1"] exI [of _ "length (page_items ?n ap y 1)"])
      (auto simp: page_items_def)
qed

lemma taken_single:
  assumes "queue_shape (page_count F r) ap y k" "page_count F r = 1"
    and "holds r (ap(y := (PartialOpen, []))) t" "allow" "a = page_data_start F r (Suc y mod page_count F r)"
  shows "next_page_taken r ap y allow a t"
proof -
  let ?ap = "ap(y := (PartialOpen, []))"
  have y: "y = 0" "Suc y mod page_count F r = y" using shape_less [OF assms(1)] assms(2) by simp_all
  have "queue_shape (page_count F r) ?ap y k"
    by (rule shape_youngest_update [OF assms(1)]) simp
  moreover have "queue_items (page_count F r) ?ap y = drop (length (queue_items (page_count F r) ap y)) (queue_items (page_count F r) ap y)"
    using items_youngest_update(1) [OF shape_less(1) [OF assms(1)], of ap "(PartialOpen, [])"] assms(2) by simp
  ultimately show ?thesis
    unfolding next_page_taken_def y(2) using assms(3-5) y(2)
    by (intro exI [of _ ?ap] exI [of _ k] exI [of _ "length (queue_items (page_count F r) ap y)"]) auto
qed

text \<open>The two ways to the next page, as sequences of page operations.\<close>

lemma wp_close_and_start:
  assumes "config_ok F r" "holds r ap s" "y < page_count F r" "y' < page_count F r" "y' \<noteq> y"
    and "ap y' = (Open, [])"
  shows "wp (sq (close_page F y) (sq (partial_close_page F y') (ret a)))
    (\<lambda>b t. b = a \<and> holds r (ap(y := (Closed, snd (ap y)), y' := (PartialOpen, []))) t
      \<and> data_buffer t = data_buffer s) no_err s"
  unfolding wp_sq
proof (rule wp_mono [OF wp_close_page [OF assms(1-3)]])
  let ?ap = "ap(y := (Closed, snd (ap y)))"
  fix u t assume t: "holds r ?ap t \<and> data_buffer t = data_buffer s"
  have "partially_closed (?ap y') = (PartialOpen, [])" using assms(5,6) by (simp add: partially_closed_def)
  then show "wp (partial_close_page F y') (\<lambda>_. wp (ret a) (\<lambda>b t. b = a
      \<and> holds r (ap(y := (Closed, snd (ap y)), y' := (PartialOpen, []))) t \<and> data_buffer t = data_buffer s) no_err) no_err t"
    using t wp_partial_close_page [OF assms(1) _ assms(4), of ?ap t] by (auto elim!: wp_mono)
qed simp

lemma wp_open_close_and_start:
  assumes "config_ok F r" "holds r ap s" "y < page_count F r" "y' < page_count F r"
  shows "wp (sq (open_page F y') (sq (if y' \<noteq> y then close_page F y else ret ())
      (sq (partial_close_page F y') (ret a))))
    (\<lambda>b t. b = a \<and> holds r (if y' = y then ap(y := (PartialOpen, []))
        else ap(y := (Closed, snd (ap y)), y' := (PartialOpen, []))) t
      \<and> data_buffer t = data_buffer s) no_err s"
proof -
  let ?ap = "ap(y' := (Open, []))"
  note op = wp_open_page [OF assms(1,2,4)]
  show ?thesis
  proof (cases "y' = y")
    case True
    have "partially_closed (?ap y') = (PartialOpen, [])" by (simp add: partially_closed_def)
    then have "wp (partial_close_page F y') (\<lambda>_ u. holds r (ap(y := (PartialOpen, []))) u
        \<and> data_buffer u = data_buffer s) no_err t" if "holds r ?ap t" "data_buffer t = data_buffer s" for t :: "('s, 'c) storage"
      using that wp_partial_close_page [OF assms(1) that(1) assms(4)] True by (auto elim!: wp_mono)
    then show ?thesis
      unfolding wp_sq using True by (intro wp_mono [OF op]) (auto elim!: wp_mono)
  next
    case False
    have "wp (sq (close_page F y) (sq (partial_close_page F y') (ret a)))
        (\<lambda>b u. b = a \<and> holds r (ap(y := (Closed, snd (ap y)), y' := (PartialOpen, []))) u
          \<and> data_buffer u = data_buffer s) no_err t"
      if "holds r ?ap t" "data_buffer t = data_buffer s" for t :: "('s, 'c) storage"
      using wp_close_and_start [OF assms(1) that(1) assms(3,4) False, of a] that(2) False
      by (simp add: fun_upd_twist [of y' y] del: wp_sq wp_ret)
    then show ?thesis
      using False unfolding wp_sq by (intro wp_mono [OF op]) auto
  qed
qed

lemma wp_overwrite_next:
  fixes s :: "('s, 'k) storage"
  assumes "config_ok F r" "holds r ap s" "queue_shape (page_count F r) ap y k"
    and "y' = Suc y mod page_count F r" "st = fst (ap y')" "st = Closed \<or> st = PartialOpen \<and> y' = y"
    and "fst (ap y) = PartialOpen"
  shows "wp (bnd (if \<not> allow then bnd (is_page_empty F y' (Some st)) (\<lambda>e. ret (\<not> e)) else ret False) (\<lambda>full.
      if full then sq (on_cache unmark_dirty) (fail FullStorage)
      else sq (open_page F y') (sq (if \<not> y' = y then close_page F y else ret ())
        (sq (partial_close_page F y') (ret (page_data_start F r y'))))))
    (\<lambda>a t. next_page_taken r ap y allow a t \<and> (allow \<or> next_free (page_count F r) ap y) \<and> data_buffer t = data_buffer s)
    (\<lambda>e t. e = FullStorage \<and> \<not> allow \<and> \<not> next_free (page_count F r) ap y \<and> holds r ap t \<and> data_buffer t = data_buffer s) s"
proof -
  let ?n = "page_count F r"
  have y: "y < ?n" "y' < ?n" using shape_less [OF assms(3)] assms(4) by simp_all
  have many: "1 < ?n" if "y' \<noteq> y"
    using that y assms(4) by (cases "?n = 1") auto
  have one: "?n = 1" if "y' = y"
    using that y assms(4) ring_inj_iff [of 1 0 ?n y] by (cases "1 < ?n") auto
  define go where "go = sq (open_page F y') (sq (if y' \<noteq> y then close_page F y else ret ())
        (sq (partial_close_page F y') (ret (page_data_start F r y') :: (('s, 'k) storage, 'e error, nat) m)))"
  have go: "wp go (\<lambda>a u. next_page_taken r ap y allow a u \<and> (allow \<or> next_free ?n ap y) \<and> data_buffer u = data_buffer s) no_err t"
    if t: "holds r ap t" "data_buffer t = data_buffer s" and room: "allow \<or> y' \<noteq> y \<and> alive (snd (ap y')) = []" for t
    unfolding go_def
  proof (rule wp_mono [OF wp_open_close_and_start [OF assms(1) t(1) y]])
    fix a and u :: "('s, 'k) storage"
    assume u: "a = page_data_start F r y'
      \<and> holds r (if y' = y then ap(y := (PartialOpen, [])) else ap(y := (Closed, snd (ap y)), y' := (PartialOpen, []))) u
      \<and> data_buffer u = data_buffer t"
    have "next_page_taken r ap y allow a u"
    proof (cases "y' = y")
      case True
      have a: "a = page_data_start F r (Suc y mod page_count F r)" using u unfolding assms(4) by simp
      have "holds r (ap(y := (PartialOpen, []))) u" "allow" using u room True by simp_all
      then show ?thesis using taken_single [OF assms(3) one [OF True] _ _ a] by simp
    next
      case False
      have a: "a = page_data_start F r (Suc y mod page_count F r)" using u unfolding assms(4) by simp
      have "holds r (ap(y := (Closed, snd (ap y)), y' := (PartialOpen, []))) u" "alive (snd (ap y')) = [] \<or> allow"
        using u room False by auto
      then show ?thesis unfolding assms(4) by (rule taken_moved [OF assms(3) many [OF False] _ _ a])
    qed
    then show "next_page_taken r ap y allow a u \<and> (allow \<or> next_free ?n ap y) \<and> data_buffer u = data_buffer s"
      using u t room assms(4-6) by (auto simp: next_free_def)
  qed simp
  have empty: "wp (is_page_empty F y' (Some st))
      (\<lambda>e t. e = (st = Closed \<and> alive (snd (ap y')) = []) \<and> holds r ap t \<and> data_buffer t = data_buffer s) no_err s"
    by (rule wp_mono [OF wp_is_page_empty [OF assms(1,2) y(2), of st]])
      (use assms(6) in \<open>auto simp: alive_Nil_iff\<close>)
  have "wp (if full then sq (on_cache unmark_dirty) (fail FullStorage) else go)
      (\<lambda>a t. next_page_taken r ap y allow a t \<and> (allow \<or> next_free (page_count F r) ap y) \<and> data_buffer t = data_buffer s)
      (\<lambda>e t. e = FullStorage \<and> \<not> allow \<and> \<not> next_free (page_count F r) ap y \<and> holds r ap t \<and> data_buffer t = data_buffer s) t"
    if "holds r ap t" "data_buffer t = data_buffer s" "full = (\<not> allow \<and> \<not> (st = Closed \<and> alive (snd (ap y')) = []))" for full t
  proof (cases full)
    case False
    have "st = Closed \<Longrightarrow> y' \<noteq> y" using assms(5,7) by auto
    then show ?thesis using False that by (auto intro!: wp_mono [OF go])
  next
    case True
    then show ?thesis using that assms(4-6) by (auto simp: next_free_def)
  qed
  note rest = this
  show ?thesis
  proof (cases allow)
    case True
    then show ?thesis
      unfolding go_def [symmetric] wp_bnd using rest [of s False] assms(2) by simp
  next
    case False
    then have "wp (bnd (is_page_empty F y' (Some st)) (\<lambda>e. ret (\<not> e)))
        (\<lambda>full. wp (if full then sq (on_cache unmark_dirty) (fail FullStorage) else go)
          (\<lambda>a t. next_page_taken r ap y allow a t \<and> (allow \<or> next_free (page_count F r) ap y) \<and> data_buffer t = data_buffer s)
          (\<lambda>e t. e = FullStorage \<and> \<not> allow \<and> \<not> next_free (page_count F r) ap y \<and> holds r ap t \<and> data_buffer t = data_buffer s))
        (\<lambda>e t. e = FullStorage \<and> \<not> allow \<and> \<not> next_free (page_count F r) ap y \<and> holds r ap t \<and> data_buffer t = data_buffer s) s"
      unfolding wp_bnd wp_ret using rest by (intro wp_mono [OF empty]) auto
    then show ?thesis
      unfolding go_def [symmetric] wp_bnd using False by simp
  qed
qed

lemma wp_take_next_page:
  fixes s :: "('s, 'k) storage"
  assumes "config_ok F r" "holds r ap s" "queue_shape (page_count F r) ap y k" "fst (ap y) = PartialOpen"
  shows "wp (take_next_page F y allow)
    (\<lambda>a t. next_page_taken r ap y allow a t \<and> (allow \<or> next_free (page_count F r) ap y) \<and> data_buffer t = data_buffer s)
    (\<lambda>e t. e = FullStorage \<and> \<not> allow \<and> \<not> next_free (page_count F r) ap y \<and> holds r ap t \<and> data_buffer t = data_buffer s) s"
proof -
  let ?n = "page_count F r"
  define y' where "y' = Suc y mod ?n"
  have y: "y < ?n" "y' < ?n" using shape_less [OF assms(3)] y'_def by simp_all
  have nxt: "next_page F r y = y'" by (simp add: next_page_def y'_def)
  have st: "fst (ap y') = Open \<and> ap y' = (Open, []) \<and> y' \<noteq> y \<or> fst (ap y') = Closed \<or> fst (ap y') = PartialOpen \<and> y' = y"
  proof (cases "1 < ?n")
    case True
    then have "y' \<noteq> y" using ring_inj_iff [of 1 0 ?n y] y unfolding y'_def by simp
    then show ?thesis
      using shape_open [OF assms(3), of 1] shape_closed [OF assms(3), of 1] True unfolding y'_def
      by (cases "k = 0") auto
  next
    case False
    then have "?n = 1" using y by linarith
    then have "y' = y" using y by (simp add: y'_def)
    then show ?thesis using assms(4) by simp
  qed
  show ?thesis
    unfolding take_next_page_def wp_bnd wp_gets holds_page(2) [OF assms(1,2) y(1)] nxt Let_def
  proof (rule wp_mono [OF wp_get_page_state [OF assms(1,2) y(2)]])
    fix x and t :: "('s, 'k) storage"
    assume t: "x = fst (ap y') \<and> holds r ap t \<and> data_buffer t = data_buffer s"
    note over = wp_overwrite_next [OF assms(1) _ assms(3) y'_def, of t x allow]
    have open_next: "wp (sq (close_page F y) (sq (partial_close_page F y') (ret (page_data_start F r y'))))
        (\<lambda>a t. next_page_taken r ap y allow a t \<and> (allow \<or> next_free (page_count F r) ap y) \<and> data_buffer t = data_buffer s)
        (\<lambda>e t. e = FullStorage \<and> \<not> allow \<and> \<not> next_free (page_count F r) ap y \<and> holds r ap t \<and> data_buffer t = data_buffer s) t"
      if "ap y' = (Open, [])" "y' \<noteq> y"
    proof -
      have h: "holds r ap t" using t by simp
      have many: "1 < ?n" using that(2) y y'_def by (cases "?n = 1") auto
      have "next_page_taken r ap y allow a u"
        if "a = page_data_start F r y'" "holds r (ap(y := (Closed, snd (ap y)), y' := (PartialOpen, []))) u"
        for a and u :: "('s, 'k) storage"
        using that \<open>ap y' = (Open, [])\<close> unfolding y'_def by (intro taken_moved [OF assms(3) many]) auto
      then show ?thesis
        using wp_close_and_start [where r = r and ap = ap and s = t and y = y and y' = y'
            and a = "page_data_start F r y'", OF assms(1) h y that(2,1)] t that y'_def
        by (elim wp_mono) (auto simp: next_free_def)
    qed
    show "wp (case (x, y' = y) of
          (Open, _) \<Rightarrow> sq (close_page F y) (sq (partial_close_page F y') (ret (page_data_start F r y')))
        | (PartialOpen, False) \<Rightarrow> fail Corrupted
        | _ \<Rightarrow> bnd (if \<not> allow then bnd (is_page_empty F y' (Some x)) (\<lambda>e. ret (\<not> e)) else ret False) (\<lambda>full.
            if full then sq (on_cache unmark_dirty) (fail FullStorage)
            else sq (open_page F y') (sq (if \<not> y' = y then close_page F y else ret ())
              (sq (partial_close_page F y') (ret (page_data_start F r y'))))))
        (\<lambda>a t. next_page_taken r ap y allow a t \<and> (allow \<or> next_free (page_count F r) ap y) \<and> data_buffer t = data_buffer s)
        (\<lambda>e t. e = FullStorage \<and> \<not> allow \<and> \<not> next_free (page_count F r) ap y \<and> holds r ap t \<and> data_buffer t = data_buffer s) t"
      using st t open_next over assms(4)
      by (cases x; cases "y' = y") (auto simp del: wp_sq wp_bnd)
  qed simp
qed

lemma wp_write_youngest:
  assumes "config_ok F r" "holds r ap s" "queue_shape (page_count F r) ap y k" "fst (ap y) = PartialOpen"
    and "length d \<le> u16_MAX" "slots_size F (snd (ap y)) + slot_size F (length d) \<le> calculate_page_size F"
    and "a = page_data_start F r y + slots_size F (snd (ap y))"
  shows "wp (sq (write_new F a d) (on_cache unmark_dirty))
    (\<lambda>_ t. queue_repr F inv mem r t (queue_items (page_count F r) ap y @ [d])
      \<and> data_buffer t = data_buffer s) no_err s"
proof -
  let ?n = "page_count F r"
  have y: "y < ?n" using shape_less [OF assms(3)] by simp
  let ?ap = "ap(y := (fst (ap y), snd (ap y) @ [(True, d)]))"
  have "wp (write_new F a d) (\<lambda>_ t. holds r ?ap t \<and> data_buffer t = data_buffer s) no_err s"
    using assms y by (intro wp_append_item) simp_all
  moreover have "queue_shape ?n ?ap y k" using assms(4) by (intro shape_youngest_update [OF assms(3)]) simp
  moreover have "queue_items ?n ?ap y = queue_items ?n ap y @ [d]"
    using items_youngest_update [OF y, of ap] by simp
  ultimately show ?thesis
    unfolding wp_sq wp_on_cache by (elim wp_mono) (auto intro: queue_reprI)
qed

lemma youngest_partially_closed:
  assumes "queue_shape n ap y k"
  shows "partially_closed (ap y) = (PartialOpen, snd (ap y))"
  using shape_youngest [OF assms] by (cases "ap y") (auto simp: partially_closed_def)

lemma wp_push_inner_at:
  fixes s :: "('s, 'k) storage"
  assumes "config_ok F r" "header_slice_len F \<le> calculate_page_size F"
    and h: "holds r ap s" and shape: "queue_shape (page_count F r) ap y k" and q: "q = queue_items (page_count F r) ap y"
  shows "wp (push_inner F d allow)
    (\<lambda>_ t. \<not> item_too_big F (length d) \<and> (allow \<or> has_room F r ap y (length d))
      \<and> (\<exists>j. (j = 0 \<or> allow) \<and> queue_repr F inv mem r t (drop j q @ [d])) \<and> data_buffer t = data_buffer s)
    (\<lambda>e t. (e = ItemTooBig \<and> item_too_big F (length d) \<or> e = FullStorage \<and> \<not> item_too_big F (length d) \<and> \<not> allow \<and> \<not> has_room F r ap y (length d))
      \<and> queue_repr F inv mem r t q \<and> data_buffer t = data_buffer s) s"
    (is "wp _ ?Q ?E s")
proof -
  let ?n = "page_count F r"
  have y: "y < ?n" using shape_less [OF shape] by simp
  let ?ap = "ap(y := (PartialOpen, snd (ap y)))"
  have shape': "queue_shape ?n ?ap y k" by (rule shape_youngest_update [OF shape]) simp
  have q': "queue_items ?n ?ap y = q"
    using items_youngest_update(1) [OF y, of ap "(PartialOpen, snd (ap y))"] items_youngest_update(2) [OF y, of ap] q
    by simp
  have fin: "wp (sq (write_new F a d) (on_cache unmark_dirty)) ?Q ?E t"
    if "holds r ap' t" "queue_shape ?n ap' z l" "fst (ap' z) = PartialOpen"
      "slots_size F (snd (ap' z)) + slot_size F (length d) \<le> calculate_page_size F"
      "a = page_data_start F r z + slots_size F (snd (ap' z))" "\<not> item_too_big F (length d)"
      "queue_items ?n ap' z = drop j q" "j = 0 \<or> allow" "allow \<or> has_room F r ap y (length d)" "data_buffer t = data_buffer s"
    for ap' z l a j and t :: "('s, 'k) storage"
    using wp_write_youngest [OF assms(1) that(1-3) _ that(4,5)] not_too_big(1) [OF assms(1,2) that(6)] that(6-10)
    by (auto elim!: wp_mono)
  have taken: "wp (sq (write_new F a d) (on_cache unmark_dirty)) ?Q ?E t"
    if t: "next_page_taken r ?ap y allow a t" "data_buffer t = data_buffer s" and small: "\<not> item_too_big F (length d)"
      and room: "allow \<or> has_room F r ap y (length d)"
    for a and t :: "('s, 'k) storage"
  proof -
    obtain ap' k' j where "holds r ap' t" "queue_shape ?n ap' (Suc y mod ?n) k'"
      "ap' (Suc y mod ?n) = (PartialOpen, [])" "queue_items ?n ap' (Suc y mod ?n) = drop j q"
      "j = 0 \<or> allow" "a = page_data_start F r (Suc y mod ?n)"
      using t(1) unfolding next_page_taken_def q' by blast
    then show ?thesis
      using t(2) small room not_too_big(2) [OF assms(1,2) small] by (intro fin) simp_all
  qed
  have free: "next_free ?n ?ap y = next_free ?n ap y" by (simp add: next_free_def)
  have full: "?E FullStorage t" if "\<not> item_too_big F (length d)" "\<not> allow" "\<not> has_room F r ap y (length d)" "holds r ?ap t" "data_buffer t = data_buffer s" for t
    using that shape' q' by (auto intro: queue_reprI)
  have spot: "wp (bnd (case next_address of Some address \<Rightarrow> ret address | None \<Rightarrow> take_next_page F y allow)
      (\<lambda>address. sq (write_new F address d) (on_cache unmark_dirty))) ?Q ?E t"
    if t: "holds r ?ap t" "data_buffer t = data_buffer s" and small: "\<not> item_too_big F (length d)"
      and next_address: "next_address = (if slots_size F (snd (ap y)) + slot_size F (length d) \<le> calculate_page_size F
          then Some (page_data_start F r y + slots_size F (snd (ap y))) else None)"
    for next_address and t :: "('s, 'k) storage"
  proof (cases "slots_size F (snd (ap y)) + slot_size F (length d) \<le> calculate_page_size F")
    case True
    then show ?thesis
      using t small shape' q' next_address fin [OF t(1) shape', of _ 0] by (simp add: has_room_def del: wp_sq)
  next
    case False
    then have room: "has_room F r ap y (length d) \<longleftrightarrow> next_free ?n ?ap y" unfolding has_room_def free by simp
    from False show ?thesis
      unfolding next_address wp_bnd
      using taken full t small room
      by (simp del: wp_sq) (rule wp_mono [OF wp_take_next_page [OF assms(1) t(1) shape']]; auto simp del: wp_sq)
  qed
  have pc: "partially_closed (ap y) = (PartialOpen, snd (ap y))" by (rule youngest_partially_closed [OF shape])
  have go: "wp (bnd (find_youngest_page F) (\<lambda>current_page. bnd (gets flash_range) (\<lambda>r.
        sq (partial_close_page F current_page)
        (bnd (find_next_free_item_spot F (page_data_start F r current_page) (page_data_end F r current_page) (length d))
          (\<lambda>next_address. bnd (case next_address of Some address \<Rightarrow> ret address
              | None \<Rightarrow> take_next_page F current_page allow)
            (\<lambda>address. sq (write_new F address d) (on_cache unmark_dirty))))))) ?Q ?E t"
    if t: "holds r ap t" "data_buffer t = data_buffer s" and small: "\<not> item_too_big F (length d)"
    for t :: "('s, 'k) storage"
    unfolding wp_bnd [of "find_youngest_page F"]
  proof (rule wp_mono [OF wp_find_youngest_page [OF assms(1) t(1) shape]])
    fix c and u :: "('s, 'k) storage" assume u: "c = y \<and> holds r ap u \<and> data_buffer u = data_buffer t"
    then have r: "flash_range u = r" and u': "holds r ap u" by (simp_all add: flash_holds_def)
    show "wp (bnd (gets flash_range) (\<lambda>r. sq (partial_close_page F c)
        (bnd (find_next_free_item_spot F (page_data_start F r c) (page_data_end F r c) (length d))
          (\<lambda>next_address. bnd (case next_address of Some address \<Rightarrow> ret address | None \<Rightarrow> take_next_page F c allow)
            (\<lambda>address. sq (write_new F address d) (on_cache unmark_dirty)))))) ?Q ?E u"
      unfolding wp_bnd [of "gets flash_range"] wp_gets r wp_sq [of "partial_close_page F y"] conjunct1 [OF u]
    proof (rule wp_mono [OF wp_partial_close_page [OF assms(1) u' y]])
      fix x and v :: "('s, 'k) storage"
      assume v: "x = fst (partially_closed (ap y)) \<and> holds r (ap(y := partially_closed (ap y))) v
          \<and> data_buffer v = data_buffer u"
      then have v': "holds r ?ap v" "data_buffer v = data_buffer s" using pc u t(2) by simp_all
      show "wp (bnd (find_next_free_item_spot F (page_data_start F r y) (page_data_end F r y) (length d))
          (\<lambda>next_address. bnd (case next_address of Some address \<Rightarrow> ret address | None \<Rightarrow> take_next_page F y allow)
            (\<lambda>address. sq (write_new F address d) (on_cache unmark_dirty)))) ?Q ?E v"
        unfolding wp_bnd [of "find_next_free_item_spot F _ _ _"]
        by (rule wp_mono [OF wp_find_next_free_item_spot [OF assms(1) v'(1) y]])
          (rule spot, use v'(2) small in \<open>simp_all\<close>)
    qed simp
  qed simp
  show ?thesis
    unfolding push_inner_def wp_sq [of drop_dirty_cache]
  proof (rule wp_mono [OF wp_drop_dirty_cache [OF h]])
    fix x and t :: "('s, 'k) storage" assume t: "holds r ap t \<and> data_buffer t = data_buffer s"
    then have "queue_repr F inv mem r t q" using shape q by (auto intro: queue_reprI)
    then show "wp (if item_too_big F (length d) then sq (on_cache unmark_dirty) (fail ItemTooBig)
        else bnd (find_youngest_page F) (\<lambda>current_page. bnd (gets flash_range) (\<lambda>r.
        sq (partial_close_page F current_page)
        (bnd (find_next_free_item_spot F (page_data_start F r current_page) (page_data_end F r current_page) (length d))
          (\<lambda>next_address. bnd (case next_address of Some address \<Rightarrow> ret address
              | None \<Rightarrow> take_next_page F current_page allow)
            (\<lambda>address. sq (write_new F address d) (on_cache unmark_dirty))))))) ?Q ?E t"
      using go [of t] t by (cases "item_too_big F (length d)") (simp_all del: wp_bnd)
  qed (auto)
qed

lemma wp_push_inner:
  fixes s :: "('s, 'k) storage"
  assumes "config_ok F r" "header_slice_len F \<le> calculate_page_size F" "queue_repr F inv mem r s q"
  shows "wp (push_inner F d allow)
    (\<lambda>_ t. \<not> item_too_big F (length d) \<and> (\<exists>j. (j = 0 \<or> allow) \<and> queue_repr F inv mem r t (drop j q @ [d]))
      \<and> data_buffer t = data_buffer s)
    (\<lambda>e t. (e = ItemTooBig \<and> item_too_big F (length d) \<or> e = FullStorage \<and> \<not> item_too_big F (length d) \<and> \<not> allow)
      \<and> queue_repr F inv mem r t q \<and> data_buffer t = data_buffer s) s"
proof -
  from assms(3) obtain ap y k where "holds r ap s" "queue_shape (page_count F r) ap y k"
    "q = queue_items (page_count F r) ap y" by (auto simp: queue_repr_def)
  from wp_push_inner_at [OF assms(1,2) this] show ?thesis by (rule wp_mono) auto
qed

end

end
