(* ===== verification/QueuePop.thy ===== *)
theory QueuePop
  imports QueuePush
begin

text \<open>
  Reading the queue: the iterator visits the live items from the oldest to the youngest, and opens
  a page it leaves when all items before were popped. A position of the iterator is the offset of
  its page from the youngest one and the number of slots of the page that are behind it.
\<close>

section \<open>Pages by their offset\<close>

lemma upt_split_at:
  assumes "1 \<le> j" "j \<le> n"
  shows "[1..<Suc n] = [1..<j] @ j # [Suc j..<Suc n]"
proof -
  have "[1..<Suc n] = [1..<j] @ [j..<Suc n]"
    using assms upt_add_eq_append [of 1 j "Suc n - j"] by simp
  then show ?thesis using assms by (simp add: upt_conv_Cons)
qed

lemma queue_items_at:
  assumes "1 \<le> j" "j \<le> n"
  shows "queue_items n ap y = concat (map (page_items n ap y) [1..<j])
    @ page_items n ap y j @ concat (map (page_items n ap y) [Suc j..<Suc n])"
  unfolding queue_items_def upt_split_at [OF assms] by simp

lemma page_items_update:
  assumes "1 \<le> i" "i \<le> n" "1 \<le> j" "j \<le> n" "p = (y + j) mod n"
  shows "page_items n (ap(p := q)) y i = (if i = j then alive (snd q) else page_items n ap y i)"
  using assms ring_inj_iff [of i j n y] by (auto simp: page_items_def)

lemma page_items_update_map:
  assumes "1 \<le> j" "j \<le> n" "p = (y + j) mod n" "j \<notin> set is" "\<forall>i \<in> set is. 1 \<le> i \<and> i \<le> n"
  shows "map (page_items n (ap(p := q)) y) is = map (page_items n ap y) is"
  using assms page_items_update [OF _ _ assms(1,2,3), of _ ap q] by (intro map_cong) auto

lemma queue_items_update:
  assumes "1 \<le> j" "j \<le> n" "p = (y + j) mod n"
  shows "queue_items n (ap(p := q)) y = concat (map (page_items n ap y) [1..<j])
    @ alive (snd q) @ concat (map (page_items n ap y) [Suc j..<Suc n])"
proof -
  have eqs: "map (page_items n (ap(p := q)) y) [1..<j] = map (page_items n ap y) [1..<j]"
    "map (page_items n (ap(p := q)) y) [Suc j..<Suc n] = map (page_items n ap y) [Suc j..<Suc n]"
    using assms by (intro page_items_update_map [OF assms]; auto simp del: upt_Suc)+
  show ?thesis
    unfolding queue_items_at [OF assms(1,2), of "ap(p := q)"] eqs
    using page_items_update [OF assms(1,2,1,2,3), of ap q] by simp
qed

text \<open>A page that is not open may change its slots.\<close>

lemma shape_update_slots:
  assumes "queue_shape n ap y k" "fst (ap p) \<noteq> Open"
  shows "queue_shape n (ap(p := (fst (ap p), ss))) y k"
proof -
  have "ap ((y + i) mod n) = (Open, []) \<Longrightarrow> (y + i) mod n \<noteq> p" for i using assms(2) by auto
  moreover have "ap y = (Open, []) \<Longrightarrow> y \<noteq> p" using assms(2) by auto
  moreover have "fst (ap p) = Closed" if "(y + i) mod n = p" "k < i" "i < n" for i
    using shape_closed [OF assms(1) that(2,3)] that(1) by simp
  ultimately show ?thesis
    unfolding queue_shape_def fun_upd_def
    using shape_less [OF assms(1)] shape_open [OF assms(1)] shape_closed [OF assms(1)] shape_youngest [OF assms(1)]
    by auto
qed

lemma shape_last_not_open:
  assumes "queue_shape n ap y k" "k < i" "i \<le> n" "Suc k < n"
  shows "fst (ap ((y + i) mod n)) \<noteq> Open"
proof (cases "i = n")
  case True
  then show ?thesis using shape_youngest [OF assms(1)] shape_less [OF assms(1)] assms(4) by auto
next
  case False
  then show ?thesis using shape_closed [OF assms(1,2)] assms(3) by simp
qed

section \<open>Where the iterator is\<close>

text \<open>
  Position \<open>(j, m)\<close>: \<open>m\<close> slots of the page at offset \<open>j\<close> are behind the iterator. What is still
  to come is \<open>items_from\<close>; what was passed is dead as long as all items were popped.
\<close>

definition items_from :: "nat \<Rightarrow> (nat \<Rightarrow> apage) \<Rightarrow> nat \<Rightarrow> nat \<Rightarrow> nat \<Rightarrow> u8 list list" where
  "items_from n ap y j m = alive (drop m (snd (ap ((y + j) mod n)))) @ concat (map (page_items n ap y) [Suc j..<Suc n])"

definition iter_at ::
  "('s, 'e) nor_flash \<Rightarrow> flash_range \<Rightarrow> (nat \<Rightarrow> apage) \<Rightarrow> nat \<Rightarrow> nat \<Rightarrow> queue_iterator \<Rightarrow> nat \<Rightarrow> nat \<Rightarrow> bool"
where
  "iter_at F r ap y k it j m \<longleftrightarrow> (let n = page_count F r; p = (y + j) mod n; ss = snd (ap p) in
     k < j \<and> j \<le> n \<and> m \<le> length ss
     \<and> (iter_next_address it = Address (page_data_start F r p + slots_size F (take m ss))
        \<or> iter_next_address it = PageAfter p \<and> m = length ss)
     \<and> (\<exists>h. 1 \<le> h \<and> h \<le> Suc k \<and> iter_oldest_page it = (y + h) mod n)
     \<and> (iter_previous_item_states it = AllPopped \<longrightarrow> j = Suc k \<and> alive (take m ss) = []))"

lemma items_from_next:
  assumes "j < n"
  shows "items_from n ap y j (length (snd (ap ((y + j) mod n)))) = items_from n ap y (Suc j) 0"
  using assms by (simp add: items_from_def page_items_def upt_conv_Cons del: upt_Suc)

lemma items_from_last:
  "items_from n ap y n (length (snd (ap ((y + n) mod n)))) = []"
  by (simp add: items_from_def)

lemma alive_split:
  assumes "alive ss = d # ds"
  obtains pre post where "ss = pre @ (True, d) # post" "alive pre = []" "alive post = ds"
proof -
  have "\<exists>pre post. ss = pre @ (True, d) # post \<and> alive pre = [] \<and> alive post = ds"
    using assms
  proof (induction ss)
    case (Cons sl ss)
    obtain l e where sl: "sl = (l, e)" by (cases sl)
    show ?case
    proof (cases l)
      case True
      then show ?thesis using Cons.prems sl by (intro exI [of _ "[]"] exI [of _ ss]) simp
    next
      case False
      then obtain pre post where "ss = pre @ (True, d) # post \<and> alive pre = [] \<and> alive post = ds"
        using Cons sl by auto
      then show ?thesis using sl False by (intro exI [of _ "sl # pre"] exI [of _ post]) simp
    qed
  qed simp
  then show thesis using that by blast
qed

section \<open>Looking for the next item on a page\<close>

context nor_flash
begin

lemma walk_dead:
  "alive ss = [] \<Longrightarrow> walk (\<lambda>h. ih_crc h = None) ss a = (None, a + slots_size F ss)"
  "alive pre = [] \<Longrightarrow> walk (\<lambda>h. ih_crc h = None) (pre @ (True, d) # post) a
    = (Some (slot_header (True, d)), a + slots_size F pre)"
proof (induction ss arbitrary: a)
  case (Cons sl ss)
  case 1
  have "\<not> fst sl" "alive ss = []" using 1 by (cases sl; simp split: if_splits)+
  then show ?case using Cons(1) [of "a + slot_size F (length (snd sl))"] by (simp add: walk_skip)
next
  case Nil
  case 1
  show ?case by (simp add: walk_def)
next
  show "walk (\<lambda>h. ih_crc h = None) (pre @ (True, d) # post) a = (Some (slot_header (True, d)), a + slots_size F pre)"
    if "alive pre = []" for pre a
    using that
  proof (induction pre arbitrary: a)
    case (Cons sl pre)
    have "\<not> fst sl" "alive pre = []" using Cons.prems by (cases sl; simp split: if_splits)+
    then show ?case using Cons.IH [of "a + slot_size F (length (snd sl))"] by (simp add: walk_skip)
  qed (simp add: walk_hit)
qed

text \<open>An iterator on a queue with the items \<open>q\<close>, of which \<open>rest\<close> are still to come.\<close>

definition iterator_repr ::
  "flash_range \<Rightarrow> ('s, 'k) storage \<times> queue_iterator \<Rightarrow> u8 list list \<Rightarrow> u8 list list \<Rightarrow> bool"
where
  "iterator_repr r t q rest \<longleftrightarrow> (\<exists>ap y k j m. holds r ap (fst t) \<and> queue_shape (page_count F r) ap y k
     \<and> queue_items (page_count F r) ap y = q \<and> iter_at F r ap y k (snd t) j m
     \<and> items_from (page_count F r) ap y j m = rest)"

text \<open>
  What a search for the next item gives, on a queue with items \<open>q\<close> of which \<open>rest\<close> are still to
  come: nothing, or the header and the address of the first of them, with the bytes in the buffer
  and the iterator behind the item.
\<close>

definition found_at ::
  "flash_range \<Rightarrow> nat \<Rightarrow> u8 list list \<Rightarrow> u8 list \<Rightarrow> u8 list list \<Rightarrow> bool \<Rightarrow> item_header \<times> nat
    \<Rightarrow> ('s, 'k) storage \<times> queue_iterator \<Rightarrow> bool"
where
  "found_at r y q d ds popped res t \<longleftrightarrow> (\<exists>ap k j pre post. let n = page_count F r; p = (y + j) mod n in
     holds r ap (fst t) \<and> queue_shape n ap y k \<and> queue_items n ap y = q \<and> k < j \<and> j \<le> n
     \<and> snd (ap p) = pre @ (True, d) # post
     \<and> res = (slot_header (True, d), page_data_start F r p + slots_size F pre)
     \<and> take (length d) (data_buffer (fst t)) = d
     \<and> iter_at F r ap y k (snd t) j (Suc (length pre)) \<and> items_from n ap y j (Suc (length pre)) = ds
     \<and> iter_previous_item_states (snd t) \<noteq> AllPopped
     \<and> (iter_previous_item_states (snd t) = AllButCurrentPopped \<longleftrightarrow> popped)
     \<and> (popped \<longrightarrow> j = Suc k \<and> alive pre = []))"

definition search_ok ::
  "flash_range \<Rightarrow> nat \<Rightarrow> u8 list list \<Rightarrow> u8 list list \<Rightarrow> bool \<Rightarrow> nat \<Rightarrow> (item_header \<times> nat) option
    \<Rightarrow> ('s, 'k) storage \<times> queue_iterator \<Rightarrow> bool"
where
  "search_ok r y q rest popped len res t \<longleftrightarrow> length (data_buffer (fst t)) = len \<and> (case rest of
     [] \<Rightarrow> res = None \<and> iterator_repr r t q []
   | d # ds \<Rightarrow> round_up_to_alignment F (length d) \<le> len \<and> (\<exists>x. res = Some x \<and> found_at r y q d ds popped x t))"

definition search_fails ::
  "flash_range \<Rightarrow> nat \<Rightarrow> u8 list list \<Rightarrow> u8 list list \<Rightarrow> nat \<Rightarrow> 'e error \<Rightarrow> ('s, 'k) storage \<times> queue_iterator \<Rightarrow> bool"
where
  "search_fails r y q rest len e t \<longleftrightarrow> rest \<noteq> [] \<and> e = BufferTooSmall (round_up_to_alignment F (length (hd rest)))
     \<and> len < round_up_to_alignment F (length (hd rest)) \<and> length (data_buffer (fst t)) = len
     \<and> (\<exists>ap k. holds r ap (fst t) \<and> queue_shape (page_count F r) ap y k \<and> queue_items (page_count F r) ap y = q)"

lemma search_okI:
  assumes "holds r ap (fst t)" "queue_shape (page_count F r) ap y k" "queue_items (page_count F r) ap y = q"
    and "k < j" "j \<le> page_count F r" "p = (y + j) mod page_count F r" "snd (ap p) = pre @ (True, d) # post"
    and "take (length d) (data_buffer (fst t)) = d" "round_up_to_alignment F (length d) \<le> len"
    and "length (data_buffer (fst t)) = len"
    and "iter_at F r ap y k (snd t) j (Suc (length pre))" "items_from (page_count F r) ap y j (Suc (length pre)) = ds"
    and "iter_previous_item_states (snd t) \<noteq> AllPopped"
    and "iter_previous_item_states (snd t) = AllButCurrentPopped \<longleftrightarrow> popped" "popped \<Longrightarrow> j = Suc k \<and> alive pre = []"
    and "a = page_data_start F r p + slots_size F pre" "rest = d # ds"
  shows "search_ok r y q rest popped len (Some (slot_header (True, d), a)) t"
proof -
  have "found_at r y q d ds popped (slot_header (True, d), a) t"
    unfolding found_at_def Let_def using assms
    by (intro exI [of _ ap] exI [of _ k] exI [of _ j] exI [of _ pre] exI [of _ post]) simp
  then show ?thesis unfolding search_ok_def using assms by simp
qed

lemma wp_set_next_address [simp]:
  "wp (set_next_address a) Q E t = Q () (fst t, (snd t)\<lparr> iter_next_address := a \<rparr>)"
  by (cases t) (simp add: set_next_address_def)

lemma wp_set_item_states [simp]:
  "wp (set_item_states p) Q E t = Q () (fst t, (snd t)\<lparr> iter_previous_item_states := p \<rparr>)"
  by (cases t) (simp add: set_item_states_def)

text \<open>After the found item the iterator stands behind its slot.\<close>

lemma iter_at_behind:
  assumes "iter_at F r ap y k it j m" "p = (y + j) mod page_count F r" "snd (ap p) = pre @ (True, d) # post"
    and "page_data_start F r p + slots_size F (snd (ap p)) \<le> page_data_end F r p"
    and "b = page_data_start F r p + slots_size F pre + slot_size F (length d)"
    and "iter_previous_item_states it' \<noteq> AllPopped" "iter_oldest_page it' = iter_oldest_page it"
    and "iter_next_address it' = (if b \<ge> page_data_end F r p then PageAfter p else Address b)"
  shows "iter_at F r ap y k it' j (Suc (length pre))"
proof -
  have "post = []" if "b \<ge> page_data_end F r p"
  proof -
    have "slots_size F post = 0" using that assms(3-5) by simp
    then show ?thesis using header_slice_len_ge [of F] by (cases post) (simp_all add: slot_size_def)
  qed
  then show ?thesis
    using assms unfolding iter_at_def Let_def by auto
qed

lemma wp_visit_page:
  fixes s :: "('s, 'k) storage"
  assumes "config_ok F r" "holds r ap s" "queue_shape (page_count F r) ap y k" "iter_at F r ap y k it j m"
    and "p = (y + j) mod page_count F r" "a = page_data_start F r p + slots_size F (take m (snd (ap p)))"
    and "q = queue_items (page_count F r) ap y" "rest = items_from (page_count F r) ap y j m"
    and "len = length (data_buffer s)" "popped = (iter_previous_item_states it = AllPopped)"
    and "iter_previous_item_states it \<noteq> AllButCurrentPopped"
    and again: "\<And>s' :: ('s, 'k) storage. holds r ap s' \<Longrightarrow> data_buffer s' = data_buffer s \<Longrightarrow> alive (drop m (snd (ap p))) = [] \<Longrightarrow>
      wp ag (search_ok r y q rest popped len) (search_fails r y q rest len)
        (s', it\<lparr> iter_next_address := PageAfter p \<rparr>)"
  shows "wp (visit_page F ag p a (page_data_end F r p))
    (search_ok r y q rest popped len) (search_fails r y q rest len) (s, it)"
proof -
  let ?n = "page_count F r" and ?ss = "snd (ap p)"
  have it: "k < j" "j \<le> ?n" "m \<le> length ?ss"
    and pop: "iter_previous_item_states it = AllPopped \<Longrightarrow> j = Suc k \<and> alive (take m ?ss) = []"
    using assms(4) unfolding iter_at_def Let_def assms(5) by auto
  have p: "p < ?n" using shape_less(3) [OF assms(3)] assms(5) by simp
  note page = holds_page [OF assms(1,2) p]
  note trav = wp_traverse_page [OF assms(1,2) p it(3) assms(6), of "\<lambda>h. ih_crc h = None"]
  show ?thesis
    unfolding visit_page_def wp_bnd [of "lift_local _"] wp_lift_local fst_conv snd_conv
  proof (rule wp_mono [OF trav])
    fix res and t :: "('s, 'k) storage"
    assume t: "res = walk (\<lambda>h. ih_crc h = None) (drop m ?ss) a \<and> holds r ap t \<and> data_buffer t = data_buffer s"
    show "wp (case res of (found, found_address) \<Rightarrow> case found of
        None \<Rightarrow> sq (set_next_address (PageAfter p)) ag
      | Some found_header \<Rightarrow>
          bnd (lift_local (read_item F found_header found_address (page_data_end F r p))) (\<lambda>maybe_item.
          case maybe_item of
            CorruptedItem h _ \<Rightarrow> sq (advance_past F p (page_data_end F r p) h found_address) ag
          | ErasedItem _ _ \<Rightarrow> fail LogicBug
          | Present it \<Rightarrow>
              sq (advance_past F p (page_data_end F r p) (item_header it) found_address)
              (bnd (gets (\<lambda>t. iter_previous_item_states (snd t))) (\<lambda>states.
               sq (if states = AllPopped then set_item_states AllButCurrentPopped else ret ())
               (sq (lift_local (on_cache unmark_dirty))
                   (ret (Some (item_header it, found_address))))))))
      (search_ok r y q rest popped len) (search_fails r y q rest len) (t, it)"
    proof (cases "alive (drop m ?ss)")
      case Nil
      then have res: "res = (None, a + slots_size F (drop m ?ss))" using t walk_dead(1) by simp
      have "holds r ap t" "data_buffer t = data_buffer s" using t by simp_all
      from again [OF this Nil] show ?thesis unfolding res prod.case option.case by simp
    next
      case (Cons d ds)
      then obtain pre post where split: "drop m ?ss = pre @ (True, d) # post" "alive pre = []" "alive post = ds"
        by (rule alive_split)
      define pre' where "pre' = take m ?ss @ pre"
      have ss: "?ss = pre' @ (True, d) # post"
        unfolding pre'_def using split(1) append_take_drop_id [of m ?ss] by simp
      define a' where "a' = page_data_start F r p + slots_size F pre'"
      have res: "res = (Some (slot_header (True, d)), a')"
        using t split(1) walk_dead(2) [OF split(2)] assms(6) by (simp add: a'_def pre'_def)
      have d: "length d \<le> u16_MAX" using page(7) ss by simp
      have rest: "rest = d # items_from ?n ap y j (Suc (length pre'))"
        unfolding assms(8) items_from_def assms(5) [symmetric] using split ss by simp
      have nxt: "next_item_address F (slot_header (True, d)) a' = a' + slot_size F (length d)"
        using next_item_address_slot [of "(True, d)"] d by simp
      show ?thesis
        unfolding res prod.case option.case wp_bnd [of "lift_local _"] wp_lift_local fst_conv snd_conv
      proof (rule wp_mono [OF wp_read_item_at [OF assms(1) conjunct1 [OF conjunct2 [OF t]] p ss a'_def]])
        fix mi and u :: "('s, 'k) storage"
        assume u: "mi = Present \<lparr> item_header = slot_header (True, d), item_data_buffer = data_buffer u \<rparr>
          \<and> holds r ap u \<and> take (length d) (data_buffer u) = d \<and> length (data_buffer u) = length (data_buffer t)
          \<and> round_up_to_alignment F (length d) \<le> length (data_buffer t)"
        define b where "b = a' + slot_size F (length d)"
        define it' where "it' = (let it1 = it\<lparr> iter_next_address := (if b \<ge> page_data_end F r p then PageAfter p else Address b) \<rparr>
          in if iter_previous_item_states it = AllPopped then it1\<lparr> iter_previous_item_states := AllButCurrentPopped \<rparr> else it1)"
        have at: "iter_at F r ap y k it' j (Suc (length pre'))"
          by (rule iter_at_behind [OF assms(4,5) ss page(5), of b])
            (simp_all add: b_def a'_def it'_def Let_def)
        have "search_ok r y q rest popped len (Some (slot_header (True, d), a')) (u\<lparr> cache := unmark_dirty (cache u) \<rparr>, it')"
        proof (rule search_okI [OF _ assms(3) assms(7) [symmetric] it(1,2) assms(5) ss])
          show "iter_at F r ap y k (snd (u\<lparr> cache := unmark_dirty (cache u) \<rparr>, it')) j (Suc (length pre'))" using at by simp
          show "j = Suc k \<and> alive pre' = []" if popped
            using that pop split(2) assms(10) by (simp add: pre'_def)
          show "iter_previous_item_states (snd (u\<lparr> cache := unmark_dirty (cache u) \<rparr>, it')) = AllButCurrentPopped \<longleftrightarrow> popped"
            using assms(10,11) by (simp add: it'_def Let_def)
        qed (use u t rest assms(9) in \<open>auto simp: a'_def it'_def Let_def\<close>)
        then show "wp (case mi of CorruptedItem h _ \<Rightarrow> sq (advance_past F p (page_data_end F r p) h a') ag
          | ErasedItem _ _ \<Rightarrow> fail LogicBug
          | Present it \<Rightarrow>
              sq (advance_past F p (page_data_end F r p) (item_header it) a')
              (bnd (gets (\<lambda>t. iter_previous_item_states (snd t))) (\<lambda>states.
               sq (if states = AllPopped then set_item_states AllButCurrentPopped else ret ())
               (sq (lift_local (on_cache unmark_dirty))
                   (ret (Some (item_header it, a')))))))
          (search_ok r y q rest popped len) (search_fails r y q rest len) (u, it)"
          using u by (auto simp: advance_past_def nxt Let_def b_def it'_def split: if_splits)
      next
        fix e :: "'e error" and u :: "('s, 'k) storage"
        assume u: "e = BufferTooSmall (round_up_to_alignment F (length d)) \<and> holds r ap u
          \<and> data_buffer u = data_buffer t \<and> length (data_buffer t) < round_up_to_alignment F (length d)"
        then show "search_fails r y q rest len e (u, it)"
          unfolding search_fails_def using rest t assms(3,7,9) by auto
      qed
    qed
  qed simp
qed

end

lemma items_from_update:
  assumes "1 \<le> j" "j < i" "i \<le> n" "p = (y + j) mod n"
  shows "items_from n (ap(p := q)) y i 0 = items_from n ap y i 0"
proof -
  have from0: "items_from n ap y i 0 = concat (map (page_items n ap y) [i..<Suc n])" for ap
    using assms(3) by (simp add: items_from_def page_items_def upt_conv_Cons del: upt_Suc)
  have "map (page_items n (ap(p := q)) y) [i..<Suc n] = map (page_items n ap y) [i..<Suc n]"
    using assms by (intro page_items_update_map [OF assms(1) _ assms(4)]; auto simp del: upt_Suc)
  then show ?thesis by (simp only: from0)
qed

context nor_flash
begin

text \<open>
  Leaving a page: the iterator is at the end, or at the start of the next page, with the page that
  was left opened if all its items were popped.
\<close>

definition moved_on ::
  "flash_range \<Rightarrow> nat \<Rightarrow> u8 list list \<Rightarrow> u8 list list \<Rightarrow> queue_iterator \<Rightarrow> nat \<Rightarrow> (nat \<times> nat) option
    \<Rightarrow> ('s, 'k) storage \<times> queue_iterator \<Rightarrow> bool"
where
  "moved_on r y q rest it j pos t \<longleftrightarrow> (\<exists>ap k. let n = page_count F r; p = (y + Suc j) mod n in
     holds r ap (fst t) \<and> queue_shape n ap y k \<and> queue_items n ap y = q
     \<and> (if j = n then pos = None \<and> rest = [] \<and> iterator_repr r t q []
        else pos = Some (p, page_data_start F r p) \<and> iter_at F r ap y k (snd t) (Suc j) 0
          \<and> (\<exists>a. iter_next_address (snd t) = Address a) \<and> items_from n ap y (Suc j) 0 = rest
          \<and> iter_previous_item_states (snd t) = iter_previous_item_states it))"

lemma moved_onI:
  assumes "holds r ap (fst t)" "queue_shape (page_count F r) ap y k" "queue_items (page_count F r) ap y = q"
    and "j < page_count F r" "p = (y + Suc j) mod page_count F r" "pos = Some (p, page_data_start F r p)"
    and "iter_at F r ap y k (snd t) (Suc j) 0" "iter_next_address (snd t) = Address a"
    and "items_from (page_count F r) ap y (Suc j) 0 = rest"
    and "iter_previous_item_states (snd t) = iter_previous_item_states it"
  shows "moved_on r y q rest it j pos t"
  unfolding moved_on_def Let_def using assms by (intro exI [of _ ap] exI [of _ k]) simp

lemma wp_go_to_page_after:
  fixes s :: "('s, 'k) storage"
  assumes "config_ok F r" "holds r ap s" "queue_shape (page_count F r) ap y k" "iter_at F r ap y k it j m"
    and "iter_next_address it = PageAfter p"
  shows "wp (go_to_page_after F p)
    (\<lambda>pos t. moved_on r y (queue_items (page_count F r) ap y) (items_from (page_count F r) ap y j m) it j pos t
      \<and> data_buffer (fst t) = data_buffer s) no_err (s, it)"
proof -
  let ?n = "page_count F r"
  let ?q = "queue_items ?n ap y" and ?rest = "items_from ?n ap y j m"
  note less = shape_less [OF assms(3)]
  have it: "k < j" "j \<le> ?n" "p = (y + j) mod ?n" "m = length (snd (ap p))"
    and pop: "iter_previous_item_states it = AllPopped \<Longrightarrow> j = Suc k \<and> alive (snd (ap p)) = []"
    using assms(4,5) unfolding iter_at_def Let_def by auto
  obtain h where h: "1 \<le> h" "h \<le> Suc k" "iter_oldest_page it = (y + h) mod ?n"
    using assms(4) unfolding iter_at_def Let_def by auto
  define p' where "p' = (y + Suc j) mod ?n"
  have p: "p < ?n" "p' < ?n" using less(3) it(3) by (simp_all add: p'_def)
  have nxt: "next_page F r p = p'" unfolding next_page_def it(3) p'_def by (simp add: mod_Suc_eq)
  have stop: "fst (ap p') = Open \<or> p' = iter_oldest_page it \<longleftrightarrow> j = ?n"
  proof (cases "j = ?n")
    case True
    then have "p' = (y + 1) mod ?n" by (simp add: p'_def mod_add_self2 flip: add_Suc)
    then show ?thesis using True shape_open [OF assms(3), of 1] h by (cases "k = 0") auto
  next
    case False
    then have "fst (ap p') \<noteq> Open"
      unfolding p'_def using shape_last_not_open [OF assms(3), of "Suc j"] it(1,2) by simp
    moreover have "p' \<noteq> iter_oldest_page it"
      unfolding p'_def h(3) using ring_inj_iff [of "Suc j" h ?n y] h(1,2) it(1,2) False by auto
    ultimately show ?thesis using False by simp
  qed
  have start: "iter_at F r ap' y k' (it\<lparr> iter_next_address := Address (page_data_start F r p') \<rparr>) (Suc j) 0"
    if "k' < Suc j" "k \<le> k'" "j < ?n" "iter_previous_item_states it = AllPopped \<longrightarrow> j = k'" for ap' k'
    using that h unfolding iter_at_def Let_def p'_def [symmetric] by (auto intro!: exI [of _ h])
  have go: "wp (sq (if iter_previous_item_states it = AllPopped then lift_local (open_page F p) else ret ())
      (sq (set_next_address (Address (page_data_start F r p'))) (ret (Some (p', page_data_start F r p')))))
      (\<lambda>pos t. moved_on r y ?q ?rest it j pos t \<and> data_buffer (fst t) = data_buffer s) no_err (t, it)"
    if t: "holds r ap t" "data_buffer t = data_buffer s" and j: "j < ?n" for t :: "('s, 'k) storage"
  proof (cases "iter_previous_item_states it = AllPopped")
    case True
    let ?ap = "ap(p := (Open, []))"
    have k: "j = Suc k" "alive (snd (ap p)) = []" using pop [OF True] by simp_all
    have shape: "queue_shape ?n ?ap y (Suc k)"
      using shape_open_oldest [OF assms(3)] j k(1) it(3) by simp
    have items: "queue_items ?n ?ap y = ?q"
      using queue_items_update [of j ?n p y ap "(Open, [])"] queue_items_at [of j ?n ap y] k(2) it by (simp add: page_items_def)
    have rest: "items_from ?n ?ap y (Suc j) 0 = ?rest"
      using items_from_update [of j "Suc j" ?n p y ap] items_from_next [OF j, of ap y] j it by simp
    have "moved_on r y ?q ?rest it j (Some (p', page_data_start F r p')) (u, it\<lparr> iter_next_address := Address (page_data_start F r p') \<rparr>)"
      if "holds r ?ap u" for u :: "('s, 'k) storage"
      by (rule moved_onI [OF _ shape items j p'_def]) (use that rest start [of "Suc k" ?ap] j k(1) in simp_all)
    then show ?thesis
      unfolding wp_sq using True
      by simp (rule wp_mono [OF wp_open_page [OF assms(1) t(1) p(1)]];
        use t(2) in simp)
  next
    case False
    then show ?thesis
      using t j assms(3) it items_from_next [OF j, of ap y] start [of k ap]
      by (auto simp: moved_on_def Let_def p'_def)
  qed
  have same: "flash_range s = r" using assms(2) by (simp add: flash_holds_def)
  show ?thesis
    unfolding go_to_page_after_def wp_bnd [of "gets (\<lambda>t. flash_range (fst t))"] wp_gets fst_conv same nxt Let_def
      wp_bnd [of "lift_local _"] wp_lift_local snd_conv
  proof (rule wp_mono [OF wp_get_page_state [OF assms(1,2) p(2)]])
    fix st and t :: "('s, 'k) storage"
    assume t: "st = fst (ap p') \<and> holds r ap t \<and> data_buffer t = data_buffer s"
    show "wp (bnd (gets snd) (\<lambda>it. if is_open st \<or> p' = iter_oldest_page it
        then sq (lift_local (on_cache unmark_dirty)) (ret None)
        else sq (if iter_previous_item_states it = AllPopped then lift_local (open_page F p) else ret ())
          (sq (set_next_address (Address (page_data_start F r p'))) (ret (Some (p', page_data_start F r p'))))))
      (\<lambda>pos t. moved_on r y ?q ?rest it j pos t \<and> data_buffer (fst t) = data_buffer s) no_err (t, it)"
    proof (cases "j = ?n")
      case True
      have "?rest = []" using True items_from_last [of ?n ap y] it(3,4) by simp
      moreover have "iterator_repr r (u, it) ?q ?rest" if "holds r ap u" for u :: "('s, 'k) storage"
        unfolding iterator_repr_def using that assms(3,4)
        by (intro exI [of _ ap] exI [of _ y] exI [of _ k] exI [of _ j] exI [of _ m]) simp
      ultimately have "moved_on r y ?q ?rest it j None (u, it)" if "holds r ap u" for u :: "('s, 'k) storage"
        unfolding moved_on_def Let_def using True that assms(3) by (intro exI [of _ ap] exI [of _ k]) simp
      then show ?thesis using True stop t by (simp add: is_open_def)
    next
      case False
      then have "j < ?n" using it(2) by simp
      then show ?thesis using False stop t go [of t] by (simp add: is_open_def del: wp_sq)
    qed
  qed simp
qed

lemma iter_at_page_done:
  assumes "iter_at F r ap y k it j m" "p = (y + j) mod page_count F r" "alive (drop m (snd (ap p))) = []"
  shows "iter_at F r ap y k (it\<lparr> iter_next_address := PageAfter p \<rparr>) j (length (snd (ap p)))"
    and "items_from (page_count F r) ap y j (length (snd (ap p))) = items_from (page_count F r) ap y j m"
proof -
  have "alive (snd (ap p)) = alive (take m (snd (ap p)))"
    using assms(3) alive_simps(2) [of "take m (snd (ap p))" "drop m (snd (ap p))"] by simp
  then show "iter_at F r ap y k (it\<lparr> iter_next_address := PageAfter p \<rparr>) j (length (snd (ap p)))"
    using assms(1,2) unfolding iter_at_def Let_def by auto
  show "items_from (page_count F r) ap y j (length (snd (ap p))) = items_from (page_count F r) ap y j m"
    using assms(2,3) by (simp add: items_from_def)
qed

lemma wp_next_rounds:
  fixes s :: "('s, 'k) storage"
  assumes "config_ok F r" "holds r ap s" "queue_shape (page_count F r) ap y k" "iter_at F r ap y k it j m"
    and "(page_count F r - j) + (case iter_next_address it of Address _ \<Rightarrow> 2 | PageAfter _ \<Rightarrow> 1) \<le> fuel"
    and "iter_previous_item_states it \<noteq> AllButCurrentPopped"
  shows "wp (next_rounds F fuel)
    (search_ok r y (queue_items (page_count F r) ap y) (items_from (page_count F r) ap y j m)
       (iter_previous_item_states it = AllPopped) (length (data_buffer s)))
    (search_fails r y (queue_items (page_count F r) ap y) (items_from (page_count F r) ap y j m)
       (length (data_buffer s))) (s, it)"
  using assms(2-)
proof (induction fuel arbitrary: ap k it j m s)
  case 0
  then show ?case by (cases "iter_next_address it") simp_all
next
  case (Suc fuel)
  let ?n = "page_count F r"
  have visit: "wp (visit_page F (next_rounds F fuel) p a (page_data_end F r p))
      (search_ok r y (queue_items ?n ap y) (items_from ?n ap y j m)
         (iter_previous_item_states it = AllPopped) (length (data_buffer s)))
      (search_fails r y (queue_items ?n ap y) (items_from ?n ap y j m) (length (data_buffer s))) (s, it)"
    if h: "holds r ap s" "queue_shape ?n ap y k" "iter_at F r ap y k it j m" and p: "p = (y + j) mod ?n"
      and a: "a = page_data_start F r p + slots_size F (take m (snd (ap p)))" and f: "?n - j + 1 \<le> fuel"
      and st: "iter_previous_item_states it \<noteq> AllButCurrentPopped"
    for ap k it j m p a and s :: "('s, 'k) storage"
  proof (rule wp_visit_page [OF assms(1) h p a refl refl refl refl st])
    fix s' :: "('s, 'k) storage"
    assume s': "holds r ap s'" "data_buffer s' = data_buffer s" and "alive (drop m (snd (ap p))) = []"
    note finished = iter_at_page_done [OF h(3) p this(3)]
    show "wp (next_rounds F fuel)
        (search_ok r y (queue_items ?n ap y) (items_from ?n ap y j m)
          (iter_previous_item_states it = AllPopped) (length (data_buffer s)))
        (search_fails r y (queue_items ?n ap y) (items_from ?n ap y j m) (length (data_buffer s)))
        (s', it\<lparr> iter_next_address := PageAfter p \<rparr>)"
      using Suc.IH [OF s'(1) h(2) finished(1)] f st s'(2) finished(2) by simp
  qed
  have n: "0 < ?n" and r: "flash_range s = r" using config_facts(4) [OF assms(1)] Suc.prems(1) by (simp_all add: flash_holds_def)
  define p where "p = (y + j) mod ?n"
  note page = holds_page [OF assms(1) Suc.prems(1), of p]
  have p: "p < ?n" using n by (simp add: p_def)
  show ?case
    unfolding next_rounds.simps(2) wp_bnd [of "gets _"] wp_gets fst_conv snd_conv r
  proof (cases "iter_next_address it")
    case (Address a)
    then have a: "a = page_data_start F r p + slots_size F (take m (snd (ap p)))"
      using Suc.prems(3) unfolding iter_at_def Let_def p_def by auto
    have "page_data_start F r p \<le> a" "a \<le> page_data_end F r p"
      using a page(5) [OF p] slots_size_take_drop [of m "snd (ap p)"] by simp_all
    then have idx: "calculate_page_index F r a = p" by (rule page_index_data [OF assms(1)])
    show "wp (bnd (case iter_next_address it of PageAfter left_page \<Rightarrow> go_to_page_after F left_page
          | Address address \<Rightarrow> ret (Some (calculate_page_index F r address, address)))
        (\<lambda>position. case position of None \<Rightarrow> ret None
          | Some (current_page, current_addr) \<Rightarrow> visit_page F (next_rounds F fuel) current_page current_addr (page_data_end F r current_page)))
      (search_ok r y (queue_items ?n ap y) (items_from ?n ap y j m) (iter_previous_item_states it = AllPopped) (length (data_buffer s)))
      (search_fails r y (queue_items ?n ap y) (items_from ?n ap y j m) (length (data_buffer s))) (s, it)"
      using visit [OF Suc.prems(1,2,3) p_def a _ Suc.prems(5)] Suc.prems(4) Address idx by simp
  next
    case (PageAfter p')
    have go: "wp (go_to_page_after F p') (\<lambda>pos t. moved_on r y (queue_items ?n ap y) (items_from ?n ap y j m) it j pos t
        \<and> data_buffer (fst t) = data_buffer s) no_err (s, it)"
      by (rule wp_go_to_page_after [OF assms(1) Suc.prems(1,2,3) PageAfter])
    show "wp (bnd (case iter_next_address it of PageAfter left_page \<Rightarrow> go_to_page_after F left_page
          | Address address \<Rightarrow> ret (Some (calculate_page_index F r address, address)))
        (\<lambda>position. case position of None \<Rightarrow> ret None
          | Some (current_page, current_addr) \<Rightarrow> visit_page F (next_rounds F fuel) current_page current_addr (page_data_end F r current_page)))
      (search_ok r y (queue_items ?n ap y) (items_from ?n ap y j m) (iter_previous_item_states it = AllPopped) (length (data_buffer s)))
      (search_fails r y (queue_items ?n ap y) (items_from ?n ap y j m) (length (data_buffer s))) (s, it)"
      unfolding PageAfter next_address.case wp_bnd
    proof (rule wp_mono [OF go])
      fix pos and t :: "('s, 'k) storage \<times> queue_iterator"
      assume t: "moved_on r y (queue_items ?n ap y) (items_from ?n ap y j m) it j pos t \<and> data_buffer (fst t) = data_buffer s"
      obtain ap' k' where ap': "holds r ap' (fst t)" "queue_shape ?n ap' y k'" "queue_items ?n ap' y = queue_items ?n ap y"
        and m: "if j = ?n then pos = None \<and> items_from ?n ap y j m = [] \<and> iterator_repr r t (queue_items ?n ap y) []
          else pos = Some ((y + Suc j) mod ?n, page_data_start F r ((y + Suc j) mod ?n)) \<and> iter_at F r ap' y k' (snd t) (Suc j) 0
            \<and> (\<exists>a. iter_next_address (snd t) = Address a) \<and> items_from ?n ap' y (Suc j) 0 = items_from ?n ap y j m
            \<and> iter_previous_item_states (snd t) = iter_previous_item_states it"
        using t unfolding moved_on_def Let_def by blast
      show "wp (case pos of None \<Rightarrow> ret None
          | Some (current_page, current_addr) \<Rightarrow> visit_page F (next_rounds F fuel) current_page current_addr (page_data_end F r current_page))
        (search_ok r y (queue_items ?n ap y) (items_from ?n ap y j m) (iter_previous_item_states it = AllPopped) (length (data_buffer s)))
        (search_fails r y (queue_items ?n ap y) (items_from ?n ap y j m) (length (data_buffer s))) t"
      proof (cases "j = ?n")
        case True
        then show ?thesis using m ap' t by (auto simp: search_ok_def)
      next
        case False
        have "j \<le> ?n" "?n - j \<le> fuel" using Suc.prems(3,4) PageAfter unfolding iter_at_def Let_def by simp_all
        then have "?n - Suc j + 1 \<le> fuel" using False by linarith
        from visit [OF ap'(1,2) conjunct1 [OF conjunct2 [OF m [unfolded if_not_P [OF False]]]] refl _ this]
        show ?thesis using False m ap'(3) t Suc.prems(5) by (cases t) simp
      qed
    qed simp
  qed
qed

section \<open>The iterator and its entries\<close>

lemma iterator_queue: "iterator_repr r t q rest \<Longrightarrow> queue_repr F inv mem r (fst t) q"
  by (auto simp: iterator_repr_def intro: queue_reprI)

lemma open_pages_empty:
  assumes "queue_shape n ap y k" "i \<le> Suc k"
  shows "concat (map (page_items n ap y) [1..<i]) = []"
  using shape_open [OF assms(1)] assms(2) by (auto simp: page_items_def)

lemma iter_at_start:
  assumes "config_ok F r" "holds r ap s" "queue_shape (page_count F r) ap y k"
    and "p = (y + Suc k) mod page_count F r"
    and "a = (case first_item_after_erased (cache s) p of Some a \<Rightarrow> a | None \<Rightarrow> page_data_start F r p)"
  shows "iterator_repr r (s, \<lparr> iter_next_address = Address a, iter_previous_item_states = AllPopped,
      iter_oldest_page = calculate_page_index F r a \<rparr>)
    (queue_items (page_count F r) ap y) (queue_items (page_count F r) ap y)"
proof -
  let ?n = "page_count F r" and ?ss = "snd (ap p)"
  note less = shape_less [OF assms(3)]
  have p: "p < ?n" using less(3) assms(4) by simp
  obtain m where m: "m \<le> length ?ss" "\<forall>sl \<in> set (take m ?ss). \<not> fst sl"
    "a = page_data_start F r p + slots_size F (take m ?ss)"
    using erased_pointer [OF assms(2) p] unfolding assms(5) by metis
  note page = holds_page [OF assms(1,2) p]
  have "page_data_start F r p \<le> a" "a \<le> page_data_end F r p"
    using m(3) page(5) slots_size_take_drop [of m ?ss] by simp_all
  then have idx: "calculate_page_index F r a = p" by (rule page_index_data [OF assms(1)])
  have dead: "alive (take m ?ss) = []" using m(2) by (rule alive_dead)
  then have "alive ?ss = alive (drop m ?ss)"
    using alive_simps(2) [of "take m ?ss" "drop m ?ss"] by simp
  then have items: "queue_items ?n ap y = items_from ?n ap y (Suc k) m"
    using queue_items_at [of "Suc k" ?n ap y] open_pages_empty [OF assms(3), of "Suc k"] less(2)
    by (simp add: items_from_def page_items_def assms(4))
  have "iter_at F r ap y k \<lparr> iter_next_address = Address a, iter_previous_item_states = AllPopped,
      iter_oldest_page = calculate_page_index F r a \<rparr> (Suc k) m"
    unfolding iter_at_def Let_def assms(4) [symmetric] idx
    using m dead less(2) assms(4) by (auto intro!: exI [of _ "Suc k"])
  then show ?thesis
    unfolding iterator_repr_def using assms(2,3) items
    by (intro exI [of _ ap] exI [of _ y] exI [of _ k] exI [of _ "Suc k"] exI [of _ m]) simp
qed

lemma wp_queue_iterator_new:
  fixes s :: "('s, 'k) storage"
  assumes "config_ok F r" "queue_repr F inv mem r s q"
  shows "wp (queue_iterator_new F) (\<lambda>it t. iterator_repr r (t, it) q q
    \<and> iter_previous_item_states it = AllPopped \<and> data_buffer t = data_buffer s) no_err s"
proof -
  from assms(2) obtain ap y k where h: "holds r ap s" and shape: "queue_shape (page_count F r) ap y k"
    and q: "q = queue_items (page_count F r) ap y" by (auto simp: queue_repr_def)
  define p where "p = (y + Suc k) mod page_count F r"
  have start: "wp (find_start_address F) (\<lambda>next_addr t. \<exists>a. next_addr = Address a
      \<and> a = (case first_item_after_erased (cache t) p of Some a \<Rightarrow> a | None \<Rightarrow> page_data_start F r p)
      \<and> holds r ap t \<and> data_buffer t = data_buffer s) no_err s"
    unfolding find_start_address_def wp_sq
  proof (rule wp_mono [OF wp_drop_dirty_cache [OF h]])
    fix u and t :: "('s, 'k) storage" assume t: "holds r ap t \<and> data_buffer t = data_buffer s"
    then have h': "holds r ap t" by simp
    show "wp (bnd (find_oldest_page F) (\<lambda>oldest_page.
        bnd (gets (\<lambda>s. first_item_after_erased (cache s) oldest_page)) (\<lambda>cached.
        bnd (gets flash_range) (\<lambda>r.
        ret (Address (case cached of Some address \<Rightarrow> address | None \<Rightarrow> page_data_start F r oldest_page))))))
      (\<lambda>next_addr t. \<exists>a. next_addr = Address a
        \<and> a = (case first_item_after_erased (cache t) p of Some a \<Rightarrow> a | None \<Rightarrow> page_data_start F r p)
        \<and> holds r ap t \<and> data_buffer t = data_buffer s) no_err t"
      unfolding wp_bnd
      by (rule wp_mono [OF wp_find_oldest_page [OF assms(1) h' shape, folded p_def]])
        (use t in \<open>auto simp: flash_holds_def\<close>)
  qed simp
  show ?thesis
    unfolding queue_iterator_new_def wp_bnd [of "run_with_auto_repair _ _"]
  proof (rule wp_mono [OF wp_run_with_auto_repair [OF start]])
    fix next_addr and t :: "('s, 'k) storage"
    assume "\<exists>a. next_addr = Address a
        \<and> a = (case first_item_after_erased (cache t) p of Some a \<Rightarrow> a | None \<Rightarrow> page_data_start F r p)
        \<and> holds r ap t \<and> data_buffer t = data_buffer s"
    then show "wp (bnd (gets flash_range) (\<lambda>r. ret \<lparr> iter_next_address = next_addr,
           iter_previous_item_states = AllPopped, iter_oldest_page = (case next_addr of
              Address address \<Rightarrow> calculate_page_index F r address | PageAfter index \<Rightarrow> next_page F r index) \<rparr>))
        (\<lambda>it t. iterator_repr r (t, it) q q \<and> iter_previous_item_states it = AllPopped
          \<and> data_buffer t = data_buffer s) no_err t"
      using iter_at_start [OF assms(1) _ shape p_def, of t] q by (auto simp: flash_holds_def)
  qed simp_all
qed

text \<open>
  An entry for the item \<open>d\<close>: \<open>before\<close> are the items that the iterator passed, none when all of
  them were popped.
\<close>

definition entry_ok ::
  "flash_range \<Rightarrow> u8 list list \<Rightarrow> u8 list \<Rightarrow> u8 list list \<Rightarrow> bool \<Rightarrow> item \<times> nat
    \<Rightarrow> ('s, 'k) storage \<times> queue_iterator \<Rightarrow> bool"
where
  "entry_ok r q d ds popped entry t \<longleftrightarrow> item_header (fst entry) = slot_header (True, d)
     \<and> item_data_buffer (fst entry) = d \<and> take (length d) (data_buffer (fst t)) = d
     \<and> (\<exists>y. found_at r y q d ds popped (slot_header (True, d), snd entry) t)"

lemma next_fuel_enough:
  assumes "config_ok F r" "j \<le> n" "n = page_count F r"
  shows "n - j + 2 \<le> next_fuel F r"
proof -
  have "0 < ERASE_SIZE F" by (rule erase_pos)
  then have "(n + 1) * 2 \<le> next_fuel F r" unfolding next_fuel_def assms(3) by (intro mult_le_mono2) simp
  then show ?thesis by simp
qed

lemma found_small:
  assumes "config_ok F r" "found_at r y q d ds popped x t"
  shows "length d \<le> u16_MAX"
proof -
  obtain ap k j pre post where f: "holds r ap (fst t)" "queue_shape (page_count F r) ap y k"
    "snd (ap ((y + j) mod page_count F r)) = pre @ (True, d) # post"
    using assms(2) unfolding found_at_def Let_def by blast
  have "(y + j) mod page_count F r < page_count F r" using shape_less(3) [OF f(2)] by simp
  from holds_page(7) [OF assms(1) f(1) this] show ?thesis using f(3) by simp
qed

lemma found_iterator: "found_at r y q d ds popped x t \<Longrightarrow> iterator_repr r t q ds"
  unfolding found_at_def iterator_repr_def Let_def by blast

lemma iter_at_states:
  "iter_at F r ap y k it j m \<Longrightarrow> st \<noteq> AllPopped \<Longrightarrow> iter_at F r ap y k (it\<lparr> iter_previous_item_states := st \<rparr>) j m"
  by (auto simp: iter_at_def Let_def)

lemma wp_next_inner:
  fixes s :: "('s, 'k) storage"
  assumes "config_ok F r" "iterator_repr r (s, it) q rest" "iter_previous_item_states it \<noteq> AllButCurrentPopped"
  shows "wp (next_inner F)
    (\<lambda>res t. \<exists>y. search_ok r y q rest (iter_previous_item_states it = AllPopped) (length (data_buffer s)) res t)
    (\<lambda>e t. \<exists>y. search_fails r y q rest (length (data_buffer s)) e t) (s, it)"
proof -
  obtain ap y k j m where h: "holds r ap s" "queue_shape (page_count F r) ap y k"
    "queue_items (page_count F r) ap y = q" "iter_at F r ap y k it j m" "items_from (page_count F r) ap y j m = rest"
    using assms(2) by (auto simp: iterator_repr_def)
  have j: "j \<le> page_count F r" using h(4) by (simp add: iter_at_def Let_def)
  have enough: "(page_count F r - j) + (case iter_next_address it of Address _ \<Rightarrow> 2 | PageAfter _ \<Rightarrow> 1) \<le> next_fuel F r"
    using next_fuel_enough [OF assms(1) j refl] by (cases "iter_next_address it") simp_all
  show ?thesis
    unfolding next_inner_def wp_sq wp_lift_local fst_conv snd_conv
  proof (rule wp_mono [OF wp_drop_dirty_cache [OF h(1)]])
    fix u and t :: "('s, 'k) storage"
    assume t: "holds r ap t \<and> data_buffer t = data_buffer s"
    then have r: "flash_range t = r" by (simp add: flash_holds_def)
    show "wp (bnd (gets (\<lambda>t. next_fuel F (flash_range (fst t)))) (next_rounds F))
      (\<lambda>res t. \<exists>y. search_ok r y q rest (iter_previous_item_states it = AllPopped) (length (data_buffer s)) res t)
      (\<lambda>e t. \<exists>y. search_fails r y q rest (length (data_buffer s)) e t) (t, it)"
      unfolding wp_bnd wp_gets fst_conv r
      using wp_next_rounds [OF assms(1) conjunct1 [OF t] h(2,4) enough assms(3)] h(3,5) t
      by (elim wp_mono) auto
  qed simp
qed

lemma wp_queue_iterator_next:
  fixes s :: "('s, 'k) storage"
  assumes "config_ok F r" "iterator_repr r (s, it) q rest"
  shows "wp (queue_iterator_next F)
    (\<lambda>res t. length (data_buffer (fst t)) = length (data_buffer s) \<and> (case rest of
         [] \<Rightarrow> res = None \<and> iterator_repr r t q []
       | d # ds \<Rightarrow> \<exists>entry. res = Some entry
           \<and> entry_ok r q d ds (iter_previous_item_states it = AllPopped) entry t))
    (\<lambda>e t. rest \<noteq> [] \<and> e = BufferTooSmall (round_up_to_alignment F (length (hd rest)))
      \<and> length (data_buffer s) < round_up_to_alignment F (length (hd rest))
      \<and> queue_repr F inv mem r (fst t) q) (s, it)"
proof -
  define it0 where "it0 = (if iter_previous_item_states it = AllButCurrentPopped
      then it\<lparr> iter_previous_item_states := Unpopped \<rparr> else it)"
  obtain ap y k j m where at: "holds r ap s" "queue_shape (page_count F r) ap y k"
    "queue_items (page_count F r) ap y = q" "iter_at F r ap y k it j m" "items_from (page_count F r) ap y j m = rest"
    using assms(2) by (auto simp: iterator_repr_def)
  then have "iter_at F r ap y k it0 j m" using iter_at_states [OF at(4), of Unpopped] by (simp add: it0_def)
  then have repr: "iterator_repr r (s, it0) q rest"
    unfolding iterator_repr_def using at
    by (intro exI [of _ ap] exI [of _ y] exI [of _ k] exI [of _ j] exI [of _ m]) simp
  have popped: "iter_previous_item_states it0 = AllPopped \<longleftrightarrow> iter_previous_item_states it = AllPopped"
    by (simp add: it0_def)
  have state: "iter_previous_item_states it0 \<noteq> AllButCurrentPopped" by (simp add: it0_def)
  have set_states: "wp (if iter_previous_item_states it = AllButCurrentPopped then set_item_states Unpopped else ret ()) Q E (s, it)
      = Q () (s, it0)" for Q :: "unit \<Rightarrow> ('s, 'k) storage \<times> queue_iterator \<Rightarrow> bool" and E :: "'e error \<Rightarrow> ('s, 'k) storage \<times> queue_iterator \<Rightarrow> bool"
    by (simp add: it0_def)
  show ?thesis
    unfolding queue_iterator_next_def wp_bnd [of "gets (\<lambda>t. iter_previous_item_states (snd t))"] wp_gets snd_conv
      wp_sq set_states wp_bnd [of "run_with_auto_repair _ _"]
  proof (rule wp_mono [OF wp_run_with_auto_repair [OF wp_next_inner [OF assms(1) repr state]]])
    fix res and t :: "('s, 'k) storage \<times> queue_iterator"
    assume "\<exists>y. search_ok r y q rest (iter_previous_item_states it0 = AllPopped) (length (data_buffer s)) res t"
    then obtain y where t: "length (data_buffer (fst t)) = length (data_buffer s)"
      and c: "case rest of
         [] \<Rightarrow> res = None \<and> iterator_repr r t q []
       | d # ds \<Rightarrow> round_up_to_alignment F (length d) \<le> length (data_buffer s)
          \<and> (\<exists>x. res = Some x \<and> found_at r y q d ds (iter_previous_item_states it = AllPopped) x t)"
      unfolding search_ok_def popped by blast
    show "wp (case res of None \<Rightarrow> ret None
      | Some (h, address) \<Rightarrow>
          bnd (gets (\<lambda>t. data_buffer (fst t))) (\<lambda>buffer.
          case reborrow h buffer of
            None \<Rightarrow> fail LogicBug
          | Some it \<Rightarrow> ret (Some (it, address))))
      (\<lambda>res t. length (data_buffer (fst t)) = length (data_buffer s) \<and> (case rest of
         [] \<Rightarrow> res = None \<and> iterator_repr r t q []
       | d # ds \<Rightarrow> \<exists>entry. res = Some entry
           \<and> entry_ok r q d ds (iter_previous_item_states it = AllPopped) entry t))
      (\<lambda>e t. rest \<noteq> [] \<and> e = BufferTooSmall (round_up_to_alignment F (length (hd rest)))
        \<and> length (data_buffer s) < round_up_to_alignment F (length (hd rest))
        \<and> queue_repr F inv mem r (fst t) q) t"
    proof (cases rest)
      case Nil
      then show ?thesis using c t by (auto intro: queue_reprI)
    next
      case (Cons d ds)
      then obtain h a where res: "res = Some (h, a)"
        and f: "found_at r y q d ds (iter_previous_item_states it = AllPopped) (h, a) t"
        and fits: "round_up_to_alignment F (length d) \<le> length (data_buffer s)"
        using c by auto
      have h: "h = slot_header (True, d)" and d: "take (length d) (data_buffer (fst t)) = d"
        using f by (auto simp: found_at_def Let_def)
      have "length d \<le> length (data_buffer (fst t))" using fits round_up_ge [of "length d" F] t by linarith
      then have "reborrow h (data_buffer (fst t)) = Some \<lparr> item_header = h, item_data_buffer = d \<rparr>"
        using found_small [OF assms(1) f] d by (simp add: reborrow_def h slot_header_def unat_of_nat)
      then show ?thesis using f h d t by (auto simp: res Cons entry_ok_def)
    qed
  next
    fix e and t :: "('s, 'k) storage \<times> queue_iterator"
    assume "\<exists>y. search_fails r y q rest (length (data_buffer s)) e t"
    then show "rest \<noteq> [] \<and> e = BufferTooSmall (round_up_to_alignment F (length (hd rest)))
      \<and> length (data_buffer s) < round_up_to_alignment F (length (hd rest)) \<and> queue_repr F inv mem r (fst t) q"
      by (auto simp: search_fails_def intro: queue_reprI)
  qed (auto simp: search_fails_def)
qed

section \<open>Peeking and popping\<close>

text \<open>Looking at the oldest item needs no more than \<open>NorFlash\<close>; popping overwrites its header.\<close>

lemma wp_peek:
  fixes s :: "('s, 'k) storage"
  assumes "config_ok F r" "queue_repr F inv mem r s q"
  shows "wp (peek F)
    (\<lambda>res t. res = (case q of [] \<Rightarrow> None | d # _ \<Rightarrow> Some d) \<and> queue_repr F inv mem r t q
      \<and> length (data_buffer t) = length (data_buffer s) \<and> (q \<noteq> [] \<longrightarrow> take (length (hd q)) (data_buffer t) = hd q))
    (\<lambda>e t. q \<noteq> [] \<and> e = BufferTooSmall (round_up_to_alignment F (length (hd q)))
      \<and> length (data_buffer s) < round_up_to_alignment F (length (hd q)) \<and> queue_repr F inv mem r t q) s"
  unfolding peek_def wp_bnd [of "queue_iterator_new F"]
proof (rule wp_mono [OF wp_queue_iterator_new [OF assms]])
  fix it and t :: "('s, 'k) storage"
  assume t: "iterator_repr r (t, it) q q \<and> iter_previous_item_states it = AllPopped \<and> data_buffer t = data_buffer s"
  then have repr: "iterator_repr r (t, it) q q" by simp
  show "wp (with_local it (bnd (queue_iterator_next F) (\<lambda>next_value.
       ret (case next_value of Some entry \<Rightarrow> Some (item_data_buffer (fst entry)) | None \<Rightarrow> None))))
    (\<lambda>res t. res = (case q of [] \<Rightarrow> None | d # _ \<Rightarrow> Some d) \<and> queue_repr F inv mem r t q
      \<and> length (data_buffer t) = length (data_buffer s) \<and> (q \<noteq> [] \<longrightarrow> take (length (hd q)) (data_buffer t) = hd q))
    (\<lambda>e t. q \<noteq> [] \<and> e = BufferTooSmall (round_up_to_alignment F (length (hd q)))
      \<and> length (data_buffer s) < round_up_to_alignment F (length (hd q)) \<and> queue_repr F inv mem r t q) t"
    unfolding wp_with_local wp_bnd
    by (rule wp_mono [OF wp_queue_iterator_next [OF assms(1) repr]])
      (use t in \<open>auto simp: entry_ok_def split: list.splits intro: iterator_queue found_iterator\<close>)
qed simp

end

context multiwrite_nor_flash
begin

lemma wp_entry_pop:
  fixes s :: "('a, 'k) storage"
  assumes "config_ok F r" "entry_ok r q d ds popped entry (s, it)"
  shows "wp (entry_pop F entry)
    (\<lambda>b t. b = d \<and> data_buffer (fst t) = data_buffer s
      \<and> (\<exists>before. q = before @ d # ds \<and> (popped \<longrightarrow> before = []) \<and> iterator_repr r t (before @ ds) ds)) no_err (s, it)"
proof -
  let ?n = "page_count F r"
  obtain y ap k j pre post where f: "holds r ap s" "queue_shape ?n ap y k" "queue_items ?n ap y = q" "k < j" "j \<le> ?n"
    and slots: "snd (ap ((y + j) mod ?n)) = pre @ (True, d) # post"
    and a: "snd entry = page_data_start F r ((y + j) mod ?n) + slots_size F pre"
    and at: "iter_at F r ap y k it j (Suc (length pre))" and ds: "items_from ?n ap y j (Suc (length pre)) = ds"
    and st: "iter_previous_item_states it \<noteq> AllPopped" "iter_previous_item_states it = AllButCurrentPopped \<longleftrightarrow> popped"
      "popped \<longrightarrow> j = Suc k \<and> alive pre = []"
  proof -
    obtain y where "found_at r y q d ds popped (slot_header (True, d), snd entry) (s, it)"
      using assms(2) unfolding entry_ok_def by blast
    then show thesis
      unfolding found_at_def Let_def fst_conv snd_conv prod.inject by (elim exE conjE) (rule that)
  qed
  define p where "p = (y + j) mod ?n"
  define it' where "it' = (if iter_previous_item_states it = AllButCurrentPopped
      then it\<lparr> iter_previous_item_states := AllPopped \<rparr> else it)"
  define before where "before = concat (map (page_items ?n ap y) [1..<j]) @ alive pre"
  let ?p = "(fst (ap p), pre @ (False, d) # post)"
  have p: "p < ?n" using shape_less(3) [OF f(2)] by (simp add: p_def)
  have j: "1 \<le> j" using f(4) by simp
  have "fst (ap p) \<noteq> Open"
    using holds_page(3) [OF assms(1) f(1) p] slots by (auto simp: page_wf_def p_def)
  then have shape: "queue_shape ?n (ap(p := ?p)) y k" by (rule shape_update_slots [OF f(2)])
  have ds': "ds = alive post @ concat (map (page_items ?n ap y) [Suc j..<Suc n])" if "n = ?n" for n
    using ds slots that by (simp add: items_from_def del: upt_Suc)
  have q: "q = before @ d # ds"
    using queue_items_at [OF j f(5), of ap y] slots ds' f(3)
    by (simp add: before_def page_items_def del: upt_Suc)
  have items: "queue_items ?n (ap(p := ?p)) y = before @ ds"
    using queue_items_update [OF j f(5) p_def, of ap ?p] ds' by (simp add: before_def del: upt_Suc)
  have later: "map (page_items ?n (ap(p := ?p)) y) [Suc j..<Suc ?n] = map (page_items ?n ap y) [Suc j..<Suc ?n]"
    using f(5) by (intro page_items_update_map [OF j f(5) p_def]) (auto simp del: upt_Suc)
  have rest: "items_from ?n (ap(p := ?p)) y j (Suc (length pre)) = ds"
    unfolding items_from_def p_def [symmetric] later using ds' by (simp del: upt_Suc)
  have "iter_at F r (ap(p := ?p)) y k it' j (Suc (length pre))"
    using at st slots unfolding iter_at_def Let_def p_def [symmetric] it'_def by auto
  then have repr: "iterator_repr r (u, it') (before @ ds) ds" if "holds r (ap(p := ?p)) u" for u :: "('a, 'k) storage"
    unfolding iterator_repr_def using shape items rest that
    by (intro exI [of _ "ap(p := ?p)"] exI [of _ y] exI [of _ k] exI [of _ j] exI [of _ "Suc (length pre)"]) simp
  have "popped \<longrightarrow> before = []" using st(3) open_pages_empty [OF f(2), of "Suc k"] by (auto simp: before_def)
  then have after: "\<exists>before. q = before @ d # ds \<and> (popped \<longrightarrow> before = []) \<and> iterator_repr r (u, it') (before @ ds) ds"
    if "holds r (ap(p := ?p)) u" for u :: "('a, 'k) storage"
    using q repr [OF that] by blast
  have h: "item_header (fst entry) = slot_header (True, d)" "item_data_buffer (fst entry) = d"
    using assms(2) by (simp_all add: entry_ok_def)
  have set_states: "wp (if iter_previous_item_states it = AllButCurrentPopped then set_item_states AllPopped else ret ()) Q E (s, it)
      = Q () (s, it')" for Q :: "unit \<Rightarrow> ('a, 'k) storage \<times> queue_iterator \<Rightarrow> bool" and E :: "'b error \<Rightarrow> ('a, 'k) storage \<times> queue_iterator \<Rightarrow> bool"
    by (simp add: it'_def)
  have erase: "wp (erase_data F (slot_header (True, d)) (snd entry))
      (\<lambda>_ t. holds r (ap(p := ?p)) t \<and> data_buffer t = data_buffer s) no_err s"
    by (rule wp_erase_item [OF assms(1) f(1) p]) (use slots a in \<open>simp_all add: p_def\<close>)
  show ?thesis
    unfolding entry_pop_def wp_bnd [of "gets (\<lambda>t. iter_previous_item_states (snd t))"] wp_gets snd_conv
      wp_sq set_states wp_lift_local fst_conv wp_bnd h
    by (rule wp_mono [OF erase]) (use after in simp_all)
qed

lemma wp_pop:
  fixes s :: "('a, 'k) storage"
  assumes "config_ok F r" "queue_repr F inv mem r s q"
  shows "wp (pop F)
    (\<lambda>res t. res = (case q of [] \<Rightarrow> None | d # _ \<Rightarrow> Some d) \<and> queue_repr F inv mem r t (tl q)
      \<and> length (data_buffer t) = length (data_buffer s) \<and> (q \<noteq> [] \<longrightarrow> take (length (hd q)) (data_buffer t) = hd q))
    (\<lambda>e t. q \<noteq> [] \<and> e = BufferTooSmall (round_up_to_alignment F (length (hd q)))
      \<and> length (data_buffer s) < round_up_to_alignment F (length (hd q)) \<and> queue_repr F inv mem r t q) s"
    (is "wp _ ?Q ?E s")
  unfolding pop_def wp_bnd [of "queue_iterator_new F"]
proof (rule wp_mono [OF wp_queue_iterator_new [OF assms]])
  fix it and t :: "('a, 'k) storage"
  assume t: "iterator_repr r (t, it) q q \<and> iter_previous_item_states it = AllPopped \<and> data_buffer t = data_buffer s"
  then have repr: "iterator_repr r (t, it) q q" by simp
  show "wp (with_local it (bnd (queue_iterator_next F) (\<lambda>next_value. case next_value of
       Some entry \<Rightarrow> bnd (entry_pop F entry) (\<lambda>data. ret (Some data))
     | None \<Rightarrow> ret None))) ?Q ?E t"
    unfolding wp_with_local wp_bnd [of "queue_iterator_next F"]
  proof (rule wp_mono [OF wp_queue_iterator_next [OF assms(1) repr]])
    fix res and u :: "('a, 'k) storage \<times> queue_iterator"
    assume u: "length (data_buffer (fst u)) = length (data_buffer t) \<and> (case q of
         [] \<Rightarrow> res = None \<and> iterator_repr r u q []
       | d # ds \<Rightarrow> \<exists>entry. res = Some entry \<and> entry_ok r q d ds (iter_previous_item_states it = AllPopped) entry u)"
    show "wp (case res of Some entry \<Rightarrow> bnd (entry_pop F entry) (\<lambda>data. ret (Some data)) | None \<Rightarrow> ret None)
      (\<lambda>a t. ?Q a (fst t)) (\<lambda>e t. ?E e (fst t)) u"
    proof (cases q)
      case (Cons d ds)
      obtain v it' where v: "u = (v, it')" by (cases u)
      obtain entry where res: "res = Some entry" and e: "entry_ok r q d ds True entry (v, it')"
        using u t Cons unfolding v by auto
      have buffer: "take (length d) (data_buffer v) = d" using e by (simp add: entry_ok_def)
      show ?thesis
        unfolding res option.case wp_bnd v
      proof (rule wp_mono [OF wp_entry_pop [OF assms(1) e]], goal_cases)
        case (1 b w)
        then have "b = d" "data_buffer (fst w) = data_buffer v" "iterator_repr r w ds ds" by auto
        then show ?case
          using iterator_queue [of r w ds ds] u t Cons buffer v by simp
      qed simp
    qed (use u t in \<open>auto intro: iterator_queue\<close>)
  qed (use t in auto)
qed simp

end

end
