(* ===== verification/MockFlash.thy ===== *)
theory MockFlash
  imports NorFlash
begin

text \<open>
  \<open>src/src/mock_flash.rs\<close>: the in-memory NOR flash the crate is tested on, with its write counting,
  its power-loss countdown and its bounds checks. The const generics \<open>BYTES_PER_WORD\<close> and
  \<open>PAGE_WORDS\<close> are arguments, \<open>PAGES\<close> shows in the lengths of the two vectors. The position of a
  write buffer in RAM, which \<open>alignment_check\<close> looks at, and the floating-point averages of the
  statistics are not modelled.

  The last section shows that the mock flash, when it does not count writes and no power loss is
  scheduled, is a \<open>MultiwriteNorFlash\<close> in the sense of \<open>NorFlash\<close>.
\<close>

section \<open>State\<close>

datatype writable = Writable_T | Writable_O | Writable_N

datatype write_count_check = OnceOnly | TwiceDifferent | Twice | TwiceWithZero | Disabled

datatype operation = Read | Write | Erase

datatype mock_flash_error = OutOfBounds | NotAligned | NotWritable nat | EarlyShutoff nat operation

record flash_stats =
  erases :: nat
  reads :: nat
  writes :: nat
  bytes_read :: nat
  bytes_written :: nat

record mock_flash =
  writable :: "writable list"
  mdata :: "u8 list"
  current_stats :: flash_stats
  write_count_check :: write_count_check
  bytes_until_shutoff :: "nat option"

definition mock_new :: "nat \<Rightarrow> nat \<Rightarrow> nat \<Rightarrow> write_count_check \<Rightarrow> nat option \<Rightarrow> mock_flash" where
  "mock_new pages bytes_per_word page_words check shutoff =
     \<lparr> writable = replicate (pages * page_words) Writable_T,
       mdata = replicate (pages * page_words * bytes_per_word) 0xFF,
       current_stats = \<lparr> erases = 0, reads = 0, writes = 0, bytes_read = 0, bytes_written = 0 \<rparr>,
       write_count_check = check,
       bytes_until_shutoff = shutoff \<rparr>"

abbreviation capacity_bytes :: "mock_flash \<Rightarrow> nat" where
  "capacity_bytes s \<equiv> length (mdata s)"

definition stats_compare_to :: "flash_stats \<Rightarrow> flash_stats \<Rightarrow> (unit, flash_stats) outcome" where
  "stats_compare_to old new =
     (if erases old \<le> erases new \<and> reads old \<le> reads new \<and> writes old \<le> writes new
         \<and> bytes_read old \<le> bytes_read new \<and> bytes_written old \<le> bytes_written new
      then Ok \<lparr> erases = erases new - erases old, reads = reads new - reads old,
                writes = writes new - writes old, bytes_read = bytes_read new - bytes_read old,
                bytes_written = bytes_written new - bytes_written old \<rparr>
      else Panic)"

definition stats_add :: "flash_stats \<Rightarrow> flash_stats \<Rightarrow> flash_stats" where
  "stats_add a b = \<lparr> erases = erases a + erases b, reads = reads a + reads b,
     writes = writes a + writes b, bytes_read = bytes_read a + bytes_read b,
     bytes_written = bytes_written a + bytes_written b \<rparr>"

section \<open>Operations\<close>

type_synonym 'a mock = "(mock_flash, mock_flash_error, 'a) m"

definition validate_operation :: "nat \<Rightarrow> nat \<Rightarrow> nat \<Rightarrow> unit mock" where
  "validate_operation bpw offset len =
     bnd (gets mdata) (\<lambda>d.
       if offset mod bpw \<noteq> 0 \<or> len = 0 \<or> len mod bpw \<noteq> 0 then fail NotAligned
       else if offset > length d \<or> offset + len > length d then fail OutOfBounds
       else ret ())"

definition check_shutoff :: "nat \<Rightarrow> operation \<Rightarrow> unit mock" where
  "check_shutoff address op =
     bnd (gets bytes_until_shutoff) (\<lambda>b. case b of
       Some n \<Rightarrow>
         (if 1 \<le> n then modify (\<lambda>s. s\<lparr>bytes_until_shutoff := Some (n - 1)\<rparr>)
          else sq (modify (\<lambda>s. s\<lparr>bytes_until_shutoff := None\<rparr>)) (fail (EarlyShutoff address op)))
     | None \<Rightarrow> ret ())"

definition mock_read :: "nat \<Rightarrow> nat \<Rightarrow> nat \<Rightarrow> u8 list mock" where
  "mock_read bpw offset len =
     sq (modify (\<lambda>s. s\<lparr>current_stats := (current_stats s)
          \<lparr>reads := reads (current_stats s) + 1, bytes_read := bytes_read (current_stats s) + len\<rparr>\<rparr>))
     (if len mod bpw \<noteq> 0 then panic
      else sq (validate_operation bpw offset len) (gets (\<lambda>s. sub_list offset len (mdata s))))"

definition mock_erase_byte :: "nat \<Rightarrow> nat \<Rightarrow> unit mock" where
  "mock_erase_byte bpw index =
     sq (check_shutoff index Erase)
     (sq (modify (\<lambda>s. s\<lparr>mdata := (mdata s)[index := 0xFF]\<rparr>))
     (if index mod bpw = 0 then modify (\<lambda>s. s\<lparr>writable := (writable s)[index div bpw := Writable_T]\<rparr>)
      else ret ()))"

primrec mock_erase_bytes :: "nat \<Rightarrow> nat list \<Rightarrow> unit mock" where
  "mock_erase_bytes bpw [] = ret ()"
| "mock_erase_bytes bpw (index # rest) = sq (mock_erase_byte bpw index) (mock_erase_bytes bpw rest)"

definition mock_erase :: "nat \<Rightarrow> nat \<Rightarrow> nat \<Rightarrow> nat \<Rightarrow> unit mock" where
  "mock_erase bpw page_words from to =
     sq (modify (\<lambda>s. s\<lparr>current_stats := (current_stats s)\<lparr>erases := erases (current_stats s) + 1\<rparr>\<rparr>))
     (sq (assert_that (from \<le> to))
     (bnd (gets mdata) (\<lambda>d.
       if to > length d then fail OutOfBounds
       else if from mod (page_words * bpw) \<noteq> 0 \<or> to mod (page_words * bpw) \<noteq> 0 then fail NotAligned
       else mock_erase_bytes bpw [from..<to])))"

text \<open>The write count of a word after one more write, \<open>None\<close> when the write is refused.\<close>

fun next_writable :: "writable \<Rightarrow> write_count_check \<Rightarrow> u8 list \<Rightarrow> u8 list \<Rightarrow> writable option" where
  "next_writable v Disabled source_word old = Some v"
| "next_writable Writable_T _ source_word old = Some Writable_O"
| "next_writable Writable_O Twice source_word old = Some Writable_N"
| "next_writable Writable_O TwiceDifferent source_word old =
     (if source_word = old then Some Writable_O else Some Writable_N)"
| "next_writable Writable_O TwiceWithZero source_word old =
     (if list_all (\<lambda>b. b = 0) source_word then Some Writable_N else None)"
| "next_writable _ _ source_word old = None"

definition mark_written :: "nat \<Rightarrow> u8 list \<Rightarrow> nat \<Rightarrow> unit mock" where
  "mark_written bpw source_word address =
     bnd (gets (\<lambda>s. next_writable (writable s ! (address div bpw)) (write_count_check s) source_word
            (sub_list address bpw (mdata s)))) (\<lambda>w. case w of
       Some v \<Rightarrow> modify (\<lambda>s. s\<lparr>writable := (writable s)[address div bpw := v]\<rparr>)
     | None \<Rightarrow> fail (NotWritable address))"

definition and_byte :: "nat \<Rightarrow> u8 \<Rightarrow> mock_flash \<Rightarrow> mock_flash" where
  "and_byte index byte s = s\<lparr>mdata := (mdata s)[index := (mdata s ! index) AND byte],
     current_stats := (current_stats s)\<lparr>bytes_written := bytes_written (current_stats s) + 1\<rparr>\<rparr>"

fun mock_write_word :: "nat \<Rightarrow> u8 list \<Rightarrow> nat \<Rightarrow> nat \<Rightarrow> u8 list \<Rightarrow> unit mock" where
  "mock_write_word bpw source_word address byte_index [] = ret ()"
| "mock_write_word bpw source_word address byte_index (byte # rest) =
     sq (check_shutoff (address + byte_index) Write)
     (sq (if byte_index = 0 then mark_written bpw source_word address else ret ())
     (sq (modify (and_byte (address + byte_index) byte))
     (mock_write_word bpw source_word address (byte_index + 1) rest)))"

text \<open>\<open>chunks_exact\<close>, and the words of a write with their addresses.\<close>

definition chunks_exact :: "nat \<Rightarrow> 'a list \<Rightarrow> 'a list list" where
  "chunks_exact n xs = map (\<lambda>i. sub_list (i * n) n xs) [0..<length xs div n]"

fun mock_write_words :: "nat \<Rightarrow> nat \<Rightarrow> u8 list list \<Rightarrow> unit mock" where
  "mock_write_words bpw address [] = ret ()"
| "mock_write_words bpw address (source_word # rest) =
     sq (mock_write_word bpw source_word address 0 source_word)
     (mock_write_words bpw (address + bpw) rest)"

definition mock_write :: "nat \<Rightarrow> nat \<Rightarrow> u8 list \<Rightarrow> unit mock" where
  "mock_write bpw offset bytes =
     sq (modify (\<lambda>s. s\<lparr>current_stats := (current_stats s)\<lparr>writes := writes (current_stats s) + 1\<rparr>\<rparr>))
     (sq (validate_operation bpw offset (length bytes))
     (if length bytes mod bpw \<noteq> 0 then panic
      else mock_write_words bpw offset (chunks_exact bpw bytes)))"

definition mock_ops :: "nat \<Rightarrow> nat \<Rightarrow> (mock_flash, mock_flash_error) nor_flash" where
  "mock_ops bpw page_words =
     \<lparr> READ_SIZE = bpw, WRITE_SIZE = bpw, ERASE_SIZE = page_words * bpw,
       nf_read = mock_read bpw, nf_write = mock_write bpw, nf_erase = mock_erase bpw page_words \<rparr>"

section \<open>The mock flash is a multiwrite NOR flash\<close>

text \<open>A mock flash of whole words that does not count writes and has no power loss scheduled.\<close>

definition mock_ok :: "nat \<Rightarrow> mock_flash \<Rightarrow> bool" where
  "mock_ok bpw s \<longleftrightarrow> write_count_check s = Disabled \<and> bytes_until_shutoff s = None"

lemma mock_erase_bytes_wp:
  assumes "mock_ok bpw s" and "set is \<subseteq> {..<length (mdata s)}"
  shows "wp (mock_erase_bytes bpw is)
    (\<lambda>_ s'. mock_ok bpw s' \<and> length (mdata s') = length (mdata s)
      \<and> (\<forall>i < length (mdata s). mdata s' ! i = (if i \<in> set is then 0xFF else mdata s ! i))) no_err s"
  using assms
proof (induction "is" arbitrary: s)
  case Nil
  then show ?case by simp
next
  case (Cons j js)
  have step: "wp (mock_erase_byte bpw j)
      (\<lambda>_ s'. mock_ok bpw s' \<and> mdata s' = (mdata s)[j := 0xFF]) no_err s"
    using Cons.prems(1) by (auto simp: mock_erase_byte_def check_shutoff_def mock_ok_def)
  show ?case
    unfolding mock_erase_bytes.simps wp_sq
  proof (rule wp_mono [OF step])
    fix a s' assume s': "mock_ok bpw s' \<and> mdata s' = (mdata s)[j := 0xFF]"
    with Cons.prems have "mock_ok bpw s'" "set js \<subseteq> {..<length (mdata s')}" by auto
    from Cons.IH [OF this] show "wp (mock_erase_bytes bpw js)
      (\<lambda>_ s'. mock_ok bpw s' \<and> length (mdata s') = length (mdata s)
        \<and> (\<forall>i < length (mdata s). mdata s' ! i = (if i \<in> set (j # js) then 0xFF else mdata s ! i))) no_err s'"
      by (rule wp_mono) (use s' in \<open>auto simp: nth_list_update\<close>)
  qed simp
qed

lemma overwrite_erased_nth:
  assumes "length d = length m" "a \<le> b" "b \<le> length m"
    and "\<forall>i < length m. d ! i = (if i \<in> set [a..<b] then 0xFF else m ! i)"
  shows "d = overwrite a (erased (b - a)) m"
  using assms
  by (intro nth_equalityI) (auto simp: overwrite_def erased_def nth_append)

lemma check_shutoff_None: "bytes_until_shutoff s = None \<Longrightarrow> check_shutoff a op s = (Ok (), s)"
  by (simp add: check_shutoff_def bnd_def gets_def ret_def)

lemma mark_written_ok:
  "mock_ok bpw s \<Longrightarrow> wp (mark_written bpw w address) (\<lambda>_ t. mock_ok bpw t \<and> mdata t = mdata s) no_err s"
  by (simp add: mark_written_def mock_ok_def)

lemma mock_write_word_wp:
  assumes "mock_ok bpw s" and "address + k + length bs \<le> length (mdata s)"
  shows "wp (mock_write_word bpw w address k bs)
    (\<lambda>_ s'. mock_ok bpw s' \<and> mdata s' = program (address + k) bs (mdata s)) no_err s"
  using assms
proof (induction bs arbitrary: s k)
  case Nil
  then show ?case by (simp add: program_def overwrite_def)
next
  case (Cons b bs)
  have rest: "wp (mock_write_word bpw w address (k + 1) bs)
      (\<lambda>_ s'. mock_ok bpw s' \<and> mdata s' = program (address + k) (b # bs) (mdata s)) no_err
      (and_byte (address + k) b t)" if t: "mock_ok bpw t" "mdata t = mdata s" for t
  proof -
    have "mock_ok bpw (and_byte (address + k) b t)" using t by (simp add: mock_ok_def and_byte_def)
    moreover have d: "mdata (and_byte (address + k) b t)
        = (mdata s)[address + k := (mdata s ! (address + k)) AND b]"
      using t by (simp add: and_byte_def)
    ultimately have "wp (mock_write_word bpw w address (k + 1) bs)
        (\<lambda>_ s'. mock_ok bpw s' \<and> mdata s'
           = program (address + (k + 1)) bs (mdata (and_byte (address + k) b t))) no_err
        (and_byte (address + k) b t)"
      using Cons.prems by (intro Cons.IH) simp_all
    then show ?thesis
      using program_Cons [of "address + k" b bs "mdata s"] Cons.prems unfolding d by simp
  qed
  have "wp (if k = 0 then mark_written bpw w address else ret ())
      (\<lambda>_ t. mock_ok bpw t \<and> mdata t = mdata s) no_err s"
    using Cons.prems mark_written_ok by simp
  then have "wp (if k = 0 then mark_written bpw w address else ret ())
      (\<lambda>_ t. wp (mock_write_word bpw w address (k + 1) bs)
        (\<lambda>_ s'. mock_ok bpw s' \<and> mdata s' = program (address + k) (b # bs) (mdata s)) no_err
        (and_byte (address + k) b t)) no_err s"
    by (rule wp_mono) (use rest in auto)
  moreover have "wp (check_shutoff (address + k) Write) (\<lambda>_ t. t = s) no_err s"
    using Cons.prems by (intro wp_OkI [OF check_shutoff_None]) (simp_all add: mock_ok_def)
  ultimately show ?case
    unfolding mock_write_word.simps wp_sq wp_modify by (auto elim: wp_mono)
qed

lemma mock_write_words_wp:
  assumes "mock_ok bpw s" and "\<forall>w \<in> set ws. length w = bpw"
    and "address + length (concat ws) \<le> length (mdata s)"
  shows "wp (mock_write_words bpw address ws)
    (\<lambda>_ s'. mock_ok bpw s' \<and> mdata s' = program address (concat ws) (mdata s)) no_err s"
  using assms
proof (induction ws arbitrary: s address)
  case Nil
  then show ?case by (simp add: program_def overwrite_def)
next
  case (Cons w ws)
  have w: "wp (mock_write_word bpw w address 0 w)
      (\<lambda>_ s'. mock_ok bpw s' \<and> mdata s' = program address w (mdata s)) no_err s"
    using mock_write_word_wp [of bpw s address 0 w w] Cons.prems by simp
  show ?case
    unfolding mock_write_words.simps wp_sq
  proof (rule wp_mono [OF w])
    fix a s' assume s': "mock_ok bpw s' \<and> mdata s' = program address w (mdata s)"
    then have "wp (mock_write_words bpw (address + bpw) ws)
        (\<lambda>_ t. mock_ok bpw t \<and> mdata t = program (address + bpw) (concat ws) (mdata s')) no_err s'"
      using Cons.prems by (intro Cons.IH) simp_all
    then show "wp (mock_write_words bpw (address + bpw) ws)
        (\<lambda>_ t. mock_ok bpw t \<and> mdata t = program address (concat (w # ws)) (mdata s)) no_err s'"
      by (rule wp_mono)
        (use s' Cons.prems program_append2 [of address w "concat ws" "mdata s"] in auto)
  qed simp
qed

lemma concat_chunks_exact:
  "n dvd length xs \<Longrightarrow> concat (chunks_exact n xs) = xs"
proof -
  assume "n dvd length xs"
  then obtain k where k: "length xs = k * n" by (metis dvd_def mult.commute)
  have "concat (map (\<lambda>i. sub_list (i * n) n xs) [0..<j]) = take (j * n) xs" if "j \<le> k" for j
    using that
  proof (induction j)
    case (Suc j)
    then have "j * n \<le> length xs" using k by simp
    then show ?case using Suc by (simp add: sub_list_def take_add [symmetric] add.commute)
  qed simp
  then show ?thesis by (cases "n = 0") (use k in \<open>auto simp: chunks_exact_def\<close>)
qed

lemma length_chunks_exact: "w \<in> set (chunks_exact n xs) \<Longrightarrow> length w = n"
proof -
  assume "w \<in> set (chunks_exact n xs)"
  then obtain i where i: "i < length xs div n" "w = sub_list (i * n) n xs"
    by (auto simp: chunks_exact_def)
  then have "(i + 1) * n \<le> (length xs div n) * n" by (intro mult_le_mono1) simp
  also have "\<dots> \<le> length xs" by (simp add: div_times_less_eq_dividend)
  finally show "length w = n" using i by simp
qed

lemma mock_write_wp:
  assumes "0 < bpw" "mock_ok bpw s" "bpw dvd a" "bpw dvd length bs" "bs \<noteq> []" "a + length bs \<le> length (mdata s)"
  shows "wp (mock_write bpw a bs) (\<lambda>_ s'. mock_ok bpw s' \<and> mdata s' = program a bs (mdata s)) no_err s"
proof -
  let ?s = "s\<lparr>current_stats := (current_stats s)\<lparr>writes := writes (current_stats s) + 1\<rparr>\<rparr>"
  have c: "concat (chunks_exact bpw bs) = bs" using assms by (intro concat_chunks_exact)
  have "wp (mock_write_words bpw a (chunks_exact bpw bs))
      (\<lambda>_ s'. mock_ok bpw s' \<and> mdata s' = program a (concat (chunks_exact bpw bs)) (mdata ?s)) no_err ?s"
    using assms c by (intro mock_write_words_wp) (auto simp: mock_ok_def length_chunks_exact)
  then show ?thesis using assms c by (simp add: mock_write_def validate_operation_def mod_eq_0_iff_dvd)
qed

lemma mock_multiwrite:
  assumes "0 < bpw" "0 < page_words"
  shows "multiwrite_nor_flash (mock_ops bpw page_words) (mock_ok bpw) mdata"
proof
  fix s a n assume "mock_ok bpw s" "READ_SIZE (mock_ops bpw page_words) dvd a"
    "READ_SIZE (mock_ops bpw page_words) dvd n" "0 < n" "a + n \<le> length (mdata s)"
  then show "wp (nf_read (mock_ops bpw page_words) a n)
      (\<lambda>bs s'. bs = sub_list a n (mdata s) \<and> mock_ok bpw s' \<and> mdata s' = mdata s) no_err s"
    by (simp add: mock_ops_def mock_read_def validate_operation_def mock_ok_def mod_eq_0_iff_dvd)
next
  fix s a b assume *: "mock_ok bpw s" "ERASE_SIZE (mock_ops bpw page_words) dvd a"
    "ERASE_SIZE (mock_ops bpw page_words) dvd b" "a \<le> b" "b \<le> length (mdata s)"
  let ?s = "s\<lparr>current_stats := (current_stats s)\<lparr>erases := erases (current_stats s) + 1\<rparr>\<rparr>"
  have "wp (mock_erase_bytes bpw [a..<b])
      (\<lambda>_ s'. mock_ok bpw s' \<and> length (mdata s') = length (mdata ?s)
        \<and> (\<forall>i < length (mdata ?s). mdata s' ! i = (if i \<in> set [a..<b] then 0xFF else mdata ?s ! i)))
      no_err ?s"
    using * by (intro mock_erase_bytes_wp) (auto simp: mock_ok_def)
  then have "wp (mock_erase_bytes bpw [a..<b])
      (\<lambda>_ s'. mock_ok bpw s' \<and> mdata s' = overwrite a (erased (b - a)) (mdata s)) no_err ?s"
    by (rule wp_mono) (use * in \<open>auto intro!: overwrite_erased_nth\<close>)
  then show "wp (nf_erase (mock_ops bpw page_words) a b)
      (\<lambda>_ s'. mock_ok bpw s' \<and> mdata s' = overwrite a (erased (b - a)) (mdata s)) no_err s"
    using * by (simp add: mock_ops_def mock_erase_def mod_eq_0_iff_dvd)
qed (use assms mock_write_wp in \<open>simp_all add: mock_ops_def assert_read_write_sizes_def WORD_SIZE_def\<close>)

text \<open>For all positive word sizes and page sizes.\<close>

interpretation mock: multiwrite_nor_flash "mock_ops (Suc b) (Suc w)" "mock_ok (Suc b)" mdata for b w
  by (rule mock_multiwrite) simp_all

end
