(* ===== verification/Example.thy ===== *)
theory Example
  imports FlashState MockFlash
begin

text \<open>
  The flash the theorems are applied to: the mock flash of the repository with words of 4 bytes,
  and a range of two pages of 16 words.
\<close>

abbreviation example_flash :: "(mock_flash, mock_flash_error) nor_flash" where
  "example_flash \<equiv> mock_ops 4 16"

abbreviation example_range :: flash_range where
  "example_range \<equiv> (0, 128)"

lemma example_driver: "multiwrite_nor_flash example_flash (mock_ok 4) mdata"
  by (rule mock_multiwrite) simp_all

lemmas example_nor_flash = multiwrite_nor_flash.axioms(1) [OF example_driver]

lemmas example_sizes = mock_ops_def WORD_SIZE_def MAX_WORD_SIZE_def header_slice_len_def calculate_page_size_def
  round_up_to_alignment_def next_multiple_of_def ItemHeader_LENGTH_def

lemma example_config:
  "queue_config_try_new example_flash example_range = Ok (Some example_range)"
  "header_slice_len example_flash \<le> calculate_page_size example_flash"
  by (simp_all add: queue_config_try_new_def config_try_new_def example_sizes)

lemma example_config_ok: "config_ok example_flash example_range"
  using queue_config_ok [OF example_config(1)] by simp

lemma example_count: "page_count example_flash example_range = 2"
  by (simp add: page_count_def mock_ops_def)

text \<open>The storage whose flash holds two given pages.\<close>

definition example_with :: "(nat \<Rightarrow> apage) \<Rightarrow> 'k cache \<Rightarrow> u8 list \<Rightarrow> (mock_flash, 'k) storage" where
  "example_with ap c b = \<lparr> flash = (mock_new 2 4 16 Disabled None)
       \<lparr> mdata := page_bytes example_flash (ap 0) @ page_bytes example_flash (ap 1) \<rparr>,
     flash_range = example_range, cache = c, data_buffer = b \<rparr>"

lemma example_with_simps [simp]:
  "flash_range (example_with ap c b) = example_range" "cache (example_with ap c b) = c" "data_buffer (example_with ap c b) = b"
  by (simp_all add: example_with_def)

lemma example_page_length: "page_wf example_flash p \<Longrightarrow> length (page_bytes example_flash p) = 64"
  using nor_flash.length_page_bytes [OF example_nor_flash example_config_ok]
  by (simp add: mock_ops_def)

lemma example_with_holds:
  assumes "page_wf example_flash (ap 0)" "page_wf example_flash (ap 1)" "cache_ok example_flash example_range ap c"
  shows "flash_holds example_flash (mock_ok 4) mdata example_range ap (example_with ap c b)"
proof -
  have at: "bytes_at (p @ q) 0 p" "bytes_at (p @ q) 64 q" if "length p = 64" for p q :: "u8 list"
    using that by (simp_all add: bytes_at_def sub_list_def)
  have "bytes_at (mdata (flash (example_with ap c b))) (calculate_page_address example_flash example_range i)
      (page_bytes example_flash (ap i))" if "i < 2" for i
    using that at [OF example_page_length [OF assms(1)]]
    by (auto simp: example_with_def calculate_page_address_def mock_ops_def less_2_cases_iff)
  then have "pages_ok example_flash example_range (mdata (flash (example_with ap c b))) ap"
    unfolding pages_ok_def example_count using assms(1,2) less_2_cases_iff by auto
  then show ?thesis
    using assms(3) by (simp add: flash_holds_def example_with_def mock_ok_def mock_new_def)
qed

end
