(* ===== verification/QueueFifo.thy ===== *)
theory QueueFifo
  imports QueuePop Example
begin

text \<open>
  What the users of the queue rely on, as theorems on the public operations: an erased flash holds
  an empty queue, and \<open>push\<close> behaves as on a list. The example they are applied to is the mock
  flash of the repository with words of 4 bytes and pages of 16 words.
\<close>

section \<open>A new queue\<close>

context nor_flash
begin

lemma queue_repr_new:
  assumes "config_ok F r" "inv (flash s)" "bytes_at (mem (flash s)) (fst r) (erased (snd r - fst r))"
    and "flash_range s = r" "\<And>i. cached_page_state (cache s) i = None \<and> first_item_after_written (cache s) i = None
       \<and> first_item_after_erased (cache s) i = None"
  shows "queue_repr F inv mem r s []"
proof -
  let ?ap = "\<lambda>_ :: nat. (Open, []) :: apage"
  note facts = config_facts [OF assms(1)]
  have "holds r ?ap s" by (rule holds_erased [OF assms])
  moreover have "queue_shape (page_count F r) ?ap 0 (page_count F r - 1)"
    unfolding queue_shape_def using facts(4) by (simp, linarith)
  moreover have "[] = queue_items (page_count F r) ?ap 0"
    by (simp add: queue_items_def page_items_def del: upt_Suc)
  ultimately show ?thesis by (rule queue_reprI)
qed

end

section \<open>The example\<close>

text \<open>Two erased pages, with the page pointer cache.\<close>

definition example_storage :: "(mock_flash, unit) storage" where
  "example_storage = \<lparr> flash = mock_new 2 4 16 Disabled None, flash_range = example_range,
     cache = PagePointerCache_new 2, data_buffer = replicate 64 0 \<rparr>"

lemma example_queue: "queue_repr example_flash (mock_ok 4) mdata example_range example_storage []"
  by (rule nor_flash.queue_repr_new [OF example_nor_flash example_config_ok])
    (simp_all add: example_storage_def mock_new_def mock_ok_def bytes_at_def sub_list_def erased_def)

text \<open>
  The same flash in use: a closed page with an erased item and the oldest item, and an open page
  with the youngest one.
\<close>

definition used_pages :: "nat \<Rightarrow> apage" where
  "used_pages i = (if i = 0 then (Closed, [(False, [9]), (True, [1, 2])]) else (PartialOpen, [(True, [3])]))"

abbreviation used_storage :: "unit cache \<Rightarrow> (mock_flash, unit) storage" where
  "used_storage c \<equiv> example_with used_pages c (replicate 64 0)"

lemma used_pages_wf: "page_wf example_flash (used_pages i)"
  by (simp add: page_wf_def used_pages_def slots_size_def slot_size_def example_sizes)

lemma used_pages_hold:
  "cache_ok example_flash example_range used_pages c \<Longrightarrow>
   flash_holds example_flash (mock_ok 4) mdata example_range used_pages (used_storage c)"
  by (rule example_with_holds [OF used_pages_wf used_pages_wf])

lemma used_queue:
  assumes "cache_ok example_flash example_range used_pages c"
  shows "queue_repr example_flash (mock_ok 4) mdata example_range (used_storage c) [[1, 2], [3]]"
proof -
  note used_pages_hold [OF assms]
  moreover have "queue_shape 2 used_pages 1 0"
  proof -
    have "fst (used_pages ((1 + i) mod 2)) = Closed" if "0 < i" "i < 2" for i
    proof -
      have "i = 1" using that by linarith
      then show ?thesis by (simp add: used_pages_def)
    qed
    then show ?thesis unfolding queue_shape_def by (intro conjI allI impI) (simp_all add: used_pages_def)
  qed
  moreover have "[[1, 2], [3]] = queue_items 2 used_pages 1"
    by (simp add: queue_items_def page_items_def used_pages_def upt_conv_Cons alive_def)
  ultimately show ?thesis unfolding example_count [symmetric] by (rule queue_reprI)
qed

lemma used_queue_new: "queue_repr example_flash (mock_ok 4) mdata example_range (used_storage (PagePointerCache_new 2)) [[1, 2], [3]]"
  by (rule used_queue, rule cache_ok_unknown) simp

lemma example_fits [simp]:
  "round_up_to_alignment example_flash (Suc (Suc 0)) = 4" "round_up_to_alignment example_flash (Suc 0) = 4"
  by (simp_all add: example_sizes)

section \<open>Pushing\<close>

context nor_flash
begin

lemma wp_push:
  fixes s :: "('s, 'k) storage"
  assumes "config_ok F r" "header_slice_len F \<le> calculate_page_size F" "queue_repr F inv mem r s q"
  shows "wp (push F d allow)
    (\<lambda>_ t. \<not> item_too_big F (length d) \<and> (\<exists>j. (j = 0 \<or> allow) \<and> queue_repr F inv mem r t (drop j q @ [d]))
      \<and> data_buffer t = data_buffer s)
    (\<lambda>e t. (e = ItemTooBig \<and> item_too_big F (length d) \<or> e = FullStorage \<and> \<not> item_too_big F (length d) \<and> \<not> allow)
      \<and> queue_repr F inv mem r t q \<and> data_buffer t = data_buffer s) s"
  unfolding push_def by (rule wp_run_with_auto_repair, rule wp_mono [OF wp_push_inner [OF assms]]) auto

end

text \<open>
  C1: on a flash that holds the queue \<open>q\<close>, and that has to be writable only where it is erased,
  \<open>push\<close> ends without a panic. When it succeeds the item
  was not too big and is the youngest one, and items were dropped, the oldest ones, only if
  overwriting was allowed. When it fails, it is with \<open>ItemTooBig\<close>, exactly for the items that are,
  or with \<open>FullStorage\<close> while overwriting was not allowed, and the flash still holds \<open>q\<close>.
\<close>

theorem push_appends:
  assumes "nor_flash F ok chip" "queue_config_try_new F r = Ok (Some r)"
    and "header_slice_len F \<le> calculate_page_size F" "queue_repr F ok chip r s q"
  shows "wp (push F d allow)
    (\<lambda>_ t. \<not> item_too_big F (length d) \<and> (\<exists>j. (j = 0 \<or> allow) \<and> queue_repr F ok chip r t (drop j q @ [d])))
    (\<lambda>e t. (e = ItemTooBig \<and> item_too_big F (length d) \<or> e = FullStorage \<and> \<not> item_too_big F (length d) \<and> \<not> allow)
      \<and> queue_repr F ok chip r t q) s"
proof -
  have config: "config_ok F r" using queue_config_ok [OF assms(2)] by simp
  show ?thesis
    by (rule wp_mono [OF nor_flash.wp_push [OF assms(1) config assms(3,4)]]) auto
qed

lemma push_appends_witness:
  "wp (push example_flash [4] True)
    (\<lambda>_ t. \<exists>j. queue_repr example_flash (mock_ok 4) mdata example_range t (drop j [[1, 2], [3]] @ [[4]]))
    no_err (used_storage (PagePointerCache_new 2))"
proof -
  have "\<not> item_too_big example_flash (length [4 :: u8])"
    by (simp add: item_too_big_def mock_ops_def calculate_page_size_def WORD_SIZE_def data_address_def
        round_up_to_alignment_def next_multiple_of_def ItemHeader_LENGTH_def)
  then show ?thesis
    using push_appends [OF example_nor_flash example_config used_queue_new, of "[4]" True]
    by (elim wp_mono) auto
qed

section \<open>Peeking and popping\<close>

text \<open>
  C2: \<open>pop\<close> returns the oldest item and takes it off the queue, and returns \<open>None\<close> on an empty
  queue. It fails only with \<open>BufferTooSmall\<close>, when the oldest item does not fit the data buffer; the
  error carries the size that would do, and the queue stays as it was.
\<close>

theorem pop_takes_oldest:
  assumes "multiwrite_nor_flash F ok chip" "queue_config_try_new F r = Ok (Some r)" "queue_repr F ok chip r s q"
  shows "wp (pop F)
    (\<lambda>res t. res = (case q of [] \<Rightarrow> None | d # _ \<Rightarrow> Some d) \<and> queue_repr F ok chip r t (tl q))
    (\<lambda>e t. q \<noteq> [] \<and> e = BufferTooSmall (round_up_to_alignment F (length (hd q)))
      \<and> length (data_buffer s) < round_up_to_alignment F (length (hd q)) \<and> queue_repr F ok chip r t q) s"
proof -
  have "config_ok F r" using queue_config_ok [OF assms(2)] by simp
  then show ?thesis by (rule wp_mono [OF multiwrite_nor_flash.wp_pop [OF assms(1) _ assms(3)]]) auto
qed

lemma pop_takes_oldest_witness:
  "wp (pop example_flash)
    (\<lambda>res t. res = Some [1, 2] \<and> queue_repr example_flash (mock_ok 4) mdata example_range t [[3]]) no_err
    (used_storage (PagePointerCache_new 2))"
  by (rule wp_mono [OF pop_takes_oldest [OF example_driver example_config(1) used_queue_new]])
    (auto simp: example_fits)

text \<open>
  C3: \<open>peek\<close> returns the oldest item, which it leaves at the start of the data buffer, and changes
  nothing of the queue.
\<close>

theorem peek_sees_oldest:
  assumes "nor_flash F ok chip" "queue_config_try_new F r = Ok (Some r)" "queue_repr F ok chip r s q"
  shows "wp (peek F)
    (\<lambda>res t. res = (case q of [] \<Rightarrow> None | d # _ \<Rightarrow> Some d) \<and> queue_repr F ok chip r t q
      \<and> (q \<noteq> [] \<longrightarrow> take (length (hd q)) (data_buffer t) = hd q))
    (\<lambda>e t. q \<noteq> [] \<and> e = BufferTooSmall (round_up_to_alignment F (length (hd q)))
      \<and> length (data_buffer s) < round_up_to_alignment F (length (hd q)) \<and> queue_repr F ok chip r t q) s"
proof -
  have "config_ok F r" using queue_config_ok [OF assms(2)] by simp
  then show ?thesis by (rule wp_mono [OF nor_flash.wp_peek [OF assms(1) _ assms(3)]]) auto
qed

lemma peek_sees_oldest_witness:
  "wp (peek example_flash)
    (\<lambda>res t. res = Some [1, 2] \<and> queue_repr example_flash (mock_ok 4) mdata example_range t [[1, 2], [3]]) no_err
    (used_storage (PagePointerCache_new 2))"
  by (rule wp_mono [OF peek_sees_oldest [OF example_nor_flash example_config(1) used_queue_new]])
    (auto simp: example_fits)

section \<open>Iterating\<close>

text \<open>
  A client of the iterator: it looks at every entry, and pops those it does not want to keep. The
  fuel bounds the number of entries it looks at.
\<close>

primrec retain_entries ::
  "('s, 'e) nor_flash \<Rightarrow> (u8 list \<Rightarrow> bool) \<Rightarrow> nat \<Rightarrow> (('s, 'k) storage \<times> queue_iterator, 'e error, u8 list list) m"
where
  "retain_entries F keep 0 = diverge"
| "retain_entries F keep (Suc fuel) =
     bnd (queue_iterator_next F) (\<lambda>next_value. case next_value of
       None \<Rightarrow> ret []
     | Some entry \<Rightarrow>
         bnd (if keep (item_data_buffer (fst entry)) then ret (item_data_buffer (fst entry))
              else entry_pop F entry) (\<lambda>d.
         bnd (retain_entries F keep fuel) (\<lambda>ds. ret (d # ds))))"

definition retain :: "('s, 'e) nor_flash \<Rightarrow> (u8 list \<Rightarrow> bool) \<Rightarrow> nat \<Rightarrow> (('s, 'k) storage, 'e error, u8 list list) m" where
  "retain F keep fuel = bnd (queue_iterator_new F) (\<lambda>iterator. with_local iterator (retain_entries F keep fuel))"

context multiwrite_nor_flash
begin

lemma wp_retain_entries:
  fixes s :: "('a, 'k) storage"
  assumes "config_ok F r" "iterator_repr r (s, it) (kept @ rest) rest"
    and "\<forall>d \<in> set rest. round_up_to_alignment F (length d) \<le> length (data_buffer s)"
  shows "wp (retain_entries F keep (Suc (length rest)))
    (\<lambda>ds t. ds = rest \<and> queue_repr F inv mem r (fst t) (kept @ filter keep rest)) no_err (s, it)"
  using assms(2,3)
proof (induction rest arbitrary: s it kept)
  case Nil
  show ?case
    unfolding retain_entries.simps wp_bnd
    by (rule wp_mono [OF wp_queue_iterator_next [OF assms(1) Nil(1)]]) (auto intro: iterator_queue)
next
  case (Cons d rest)
  let ?q = "kept @ d # rest"
  have later: "wp (bnd (retain_entries F keep (Suc (length rest))) (\<lambda>ds. ret (d # ds)))
      (\<lambda>ds t. ds = d # rest \<and> queue_repr F inv mem r (fst t) (kept @ filter keep (d # rest))) no_err u"
    if "iterator_repr r u ((if keep d then kept @ [d] else kept) @ rest) rest"
      "length (data_buffer (fst u)) = length (data_buffer s)" for u :: "('a, 'k) storage \<times> queue_iterator"
  proof -
    obtain v it' where u: "u = (v, it')" by (cases u)
    show ?thesis
      unfolding u wp_bnd
      by (rule wp_mono [OF Cons.IH [OF that(1) [unfolded u]]]) (use Cons.prems(2) that(2) u in auto)
  qed
  show ?case
    unfolding retain_entries.simps(2) [of F keep "length (d # rest)"] wp_bnd [of "queue_iterator_next F"]
  proof (rule wp_mono [OF wp_queue_iterator_next [OF assms(1) Cons.prems(1)]], goal_cases)
    case (1 res u)
    obtain v it' where u: "u = (v, it')" by (cases u)
    obtain entry where res: "res = Some entry"
      and e: "entry_ok r ?q d rest (iter_previous_item_states it = AllPopped) entry (v, it')"
      using 1 unfolding u by auto
    have data: "item_data_buffer (fst entry) = d" using e by (simp add: entry_ok_def)
    have len: "length (data_buffer v) = length (data_buffer s)" using 1 unfolding u by simp
    show ?case
    proof (cases "keep d")
      case True
      have "iterator_repr r (v, it') ?q rest"
        using e unfolding entry_ok_def by (blast intro: found_iterator)
      then have "iterator_repr r (v, it') ((if keep d then kept @ [d] else kept) @ rest) rest" using True by simp
      from later [OF this] show ?thesis using True len by (simp add: res data u)
    next
      case False
      show ?thesis
        unfolding res option.case data u if_not_P [OF False] wp_bnd [of "entry_pop F entry"]
      proof (rule wp_mono [OF wp_entry_pop [OF assms(1) e]], goal_cases)
        case (1 b w)
        then obtain before where "?q = before @ d # rest" and it: "iterator_repr r w (before @ rest) rest"
          and b: "b = d" "data_buffer (fst w) = data_buffer v" by auto
        then have "before = kept" by simp
        then have "iterator_repr r w ((if keep d then kept @ [d] else kept) @ rest) rest" using it False by simp
        from later [OF this] show ?case using b len by simp
      qed simp
    qed
  qed (use Cons.prems(2) in auto)
qed

lemma wp_retain:
  fixes s :: "('a, 'k) storage"
  assumes "config_ok F r" "queue_repr F inv mem r s q"
    and "\<forall>d \<in> set q. round_up_to_alignment F (length d) \<le> length (data_buffer s)"
  shows "wp (retain F keep (Suc (length q)))
    (\<lambda>ds t. ds = q \<and> queue_repr F inv mem r t (filter keep q)) no_err s"
  unfolding retain_def wp_bnd [of "queue_iterator_new F"] wp_with_local
proof (rule wp_mono [OF wp_queue_iterator_new [OF assms(1,2)]], goal_cases)
  case (1 it t)
  then have "iterator_repr r (t, it) ([] @ q) q" by simp
  from wp_retain_entries [OF assms(1) this, of keep] show ?case using 1 assms(3) by simp
qed simp

end

text \<open>
  C4: iterating over the queue gives its items from the oldest to the youngest, each once, and
  popping some of the entries on the way, in any pattern, takes exactly these off the queue and
  disturbs neither the rest nor the iteration.
\<close>

theorem iterator_filters_queue:
  assumes "multiwrite_nor_flash F ok chip" "queue_config_try_new F r = Ok (Some r)" "queue_repr F ok chip r s q"
    and "\<forall>d \<in> set q. round_up_to_alignment F (length d) \<le> length (data_buffer s)"
  shows "wp (retain F keep (Suc (length q))) (\<lambda>ds t. ds = q \<and> queue_repr F ok chip r t (filter keep q)) no_err s"
proof -
  have "config_ok F r" using queue_config_ok [OF assms(2)] by simp
  then show ?thesis by (rule multiwrite_nor_flash.wp_retain [OF assms(1) _ assms(3,4)])
qed

lemma iterator_filters_queue_witness:
  "wp (retain example_flash (\<lambda>d. length d = 1) 3)
    (\<lambda>ds t. ds = [[1, 2], [3]] \<and> queue_repr example_flash (mock_ok 4) mdata example_range t [[3]]) no_err
    (used_storage (PagePointerCache_new 2))"
  using iterator_filters_queue [OF example_driver example_config(1) used_queue_new, of "\<lambda>d. length d = 1"]
  by (simp add: example_fits numeral_3_eq_3)

section \<open>Sequences of operations\<close>

text \<open>Pushing a list of items, and popping until the queue is empty or enough items are out.\<close>

primrec push_all :: "('s, 'e) nor_flash \<Rightarrow> u8 list list \<Rightarrow> (('s, 'k) storage, 'e error, unit) m" where
  "push_all F [] = ret ()"
| "push_all F (d # ds) = sq (push F d False) (push_all F ds)"

primrec pop_times :: "('s, 'e) nor_flash \<Rightarrow> nat \<Rightarrow> (('s, 'k) storage, 'e error, u8 list list) m" where
  "pop_times F 0 = ret []"
| "pop_times F (Suc n) = bnd (pop F) (\<lambda>res. case res of
     None \<Rightarrow> ret []
   | Some d \<Rightarrow> bnd (pop_times F n) (\<lambda>ds. ret (d # ds)))"

context multiwrite_nor_flash
begin

lemma wp_push_all:
  fixes s :: "('a, 'k) storage"
  assumes "config_ok F r" "header_slice_len F \<le> calculate_page_size F" "queue_repr F inv mem r s q"
  shows "wp (push_all F ds)
    (\<lambda>_ t. queue_repr F inv mem r t (q @ ds) \<and> data_buffer t = data_buffer s)
    (\<lambda>e t. e = ItemTooBig \<or> e = FullStorage) s"
  using assms(3)
proof (induction ds arbitrary: s q)
  case (Cons d ds)
  show ?case
    unfolding push_all.simps wp_sq
  proof (rule wp_mono [OF wp_push [OF assms(1,2) Cons.prems]], goal_cases)
    case (1 _ t)
    then have "queue_repr F inv mem r t (q @ [d])" "data_buffer t = data_buffer s" by auto
    then show ?case using Cons.IH [of t "q @ [d]"] by simp
  qed auto
qed simp

lemma wp_pop_times:
  fixes s :: "('a, 'k) storage"
  assumes "config_ok F r" "queue_repr F inv mem r s q"
    and "\<forall>d \<in> set q. round_up_to_alignment F (length d) \<le> length (data_buffer s)"
  shows "wp (pop_times F n) (\<lambda>ds t. ds = take n q \<and> queue_repr F inv mem r t (drop n q)) no_err s"
  using assms(2,3)
proof (induction n arbitrary: s q)
  case (Suc n)
  show ?case
    unfolding pop_times.simps wp_bnd [of "pop F"]
  proof (rule wp_mono [OF wp_pop [OF assms(1) Suc.prems(1)]], goal_cases)
    case (1 res t)
    show ?case
    proof (cases q)
      case (Cons d ds)
      then have "queue_repr F inv mem r t ds"
        "\<forall>d \<in> set ds. round_up_to_alignment F (length d) \<le> length (data_buffer t)"
        using 1 Suc.prems(2) by auto
      then show ?thesis using Suc.IH [of t ds] 1 Cons by (auto elim: wp_mono)
    qed (use 1 in simp)
  next
    case (2 e t)
    then show ?case using Suc.prems(2) by (cases q) auto
  qed
qed simp

end

text \<open>
  C5: first in, first out. What was on the queue and what is pushed on top comes out again in this
  order, byte for byte, and the queue is empty at the end; the only errors are those of \<open>push\<close>.
\<close>

theorem queue_round_trip:
  assumes "multiwrite_nor_flash F ok chip" "queue_config_try_new F r = Ok (Some r)"
    and "header_slice_len F \<le> calculate_page_size F" "queue_repr F ok chip r s q"
    and "\<forall>d \<in> set (q @ ds). round_up_to_alignment F (length d) \<le> length (data_buffer s)"
  shows "wp (sq (push_all F ds) (pop_times F (length (q @ ds))))
    (\<lambda>res t. res = q @ ds \<and> queue_repr F ok chip r t [])
    (\<lambda>e t. e = ItemTooBig \<or> e = FullStorage) s"
  unfolding wp_sq
proof -
  have config: "config_ok F r" using queue_config_ok [OF assms(2)] by simp
  show "wp (push_all F ds) (\<lambda>_. wp (pop_times F (length (q @ ds)))
      (\<lambda>res t. res = q @ ds \<and> queue_repr F ok chip r t []) (\<lambda>e t. e = ItemTooBig \<or> e = FullStorage))
    (\<lambda>e t. e = ItemTooBig \<or> e = FullStorage) s"
  proof (rule wp_mono [OF multiwrite_nor_flash.wp_push_all [OF assms(1) config assms(3,4)]], goal_cases)
    case (1 _ t)
    then have t: "queue_repr F ok chip r t (q @ ds)"
      "\<forall>d \<in> set (q @ ds). round_up_to_alignment F (length d) \<le> length (data_buffer t)"
      using assms(5) by auto
    show ?case
      by (rule wp_mono [OF multiwrite_nor_flash.wp_pop_times [OF assms(1) config t, of "length (q @ ds)"]]) simp_all
  qed
qed

lemma queue_round_trip_witness:
  "wp (sq (push_all example_flash [[4, 5]]) (pop_times example_flash 3))
    (\<lambda>res t. res = [[1, 2], [3], [4, 5]] \<and> queue_repr example_flash (mock_ok 4) mdata example_range t [])
    (\<lambda>e t. e = ItemTooBig \<or> e = FullStorage)
    (used_storage (PagePointerCache_new 2))"
  using queue_round_trip [OF example_driver example_config used_queue_new, of "[[4, 5]]"]
  by (simp add: numeral_3_eq_3)

text \<open>
  The items survive a restart. What the flash holds does not depend on the cache: with a cache
  that knows nothing, as after the program starts again, the storage holds the same queue.
\<close>

theorem queue_survives_restart:
  assumes "queue_repr F ok chip r s q"
  shows "queue_repr F ok chip r (s\<lparr> cache := invalidate_cache_state c, data_buffer := b \<rparr>) q"
  using assms unfolding queue_repr_def flash_holds_def by auto

lemma queue_survives_restart_witness:
  "queue_repr example_flash (mock_ok 4) mdata example_range
    (used_storage (invalidate_cache_state (PagePointerCache_new 2))) [[1, 2], [3]]"
  using queue_survives_restart [OF used_queue_new, where c = "PagePointerCache_new 2" and b = "replicate 64 0"]
  by (simp add: example_with_def)

section \<open>Erasing everything\<close>

text \<open>A cache as the operations leave it for the flash in use: it knows the states of both pages.\<close>

definition used_cache :: "unit cache" where
  "used_cache = notice_page_state 1 PartialOpen False (notice_page_state 0 Closed False (PagePointerCache_new 2))"


end
