(* ===== verification/RamRing.thy ===== *)
theory RamRing
  imports Prelude
begin

text \<open>
  \<open>RamRing\<close> of \<open>src/src/queue/buffered.rs\<close>: a ring buffer of bytes that holds items of variable
  length, each after its length in two little-endian bytes. An index out of range, a remainder by
  0 and an underflow are panics; the loop that makes room is given as many rounds as there are
  items, for on an empty ring it would change nothing any more.

  The ring implements a queue of byte lists: \<open>ring_repr r items\<close> says that the used bytes, read
  round the end of the buffer, are the encodings of the items, oldest first. Every operation is
  shown to act on the items, and none to panic or to hang.
\<close>

section \<open>The ring\<close>

record ram_ring =
  buf :: "u8 list"
  read_pos :: nat
  write_pos :: nat
  used :: nat
  item_count :: nat

type_synonym ('e, 'a) ring_m = "(ram_ring, 'e, 'a) m"

abbreviation ring_size :: "ram_ring \<Rightarrow> nat" where
  "ring_size r \<equiv> length (buf r)"

definition ram_ring_new :: "nat \<Rightarrow> ram_ring" where
  "ram_ring_new N = \<lparr> buf = replicate N 0, read_pos = 0, write_pos = 0, used = 0, item_count = 0 \<rparr>"

definition ring_len :: "ram_ring \<Rightarrow> nat" where
  "ring_len r = item_count r"

definition ring_is_empty :: "ram_ring \<Rightarrow> bool" where
  "ring_is_empty r \<longleftrightarrow> item_count r = 0"

definition ring_bytes_used :: "ram_ring \<Rightarrow> nat" where
  "ring_bytes_used r = used r"

definition index_buf :: "nat \<Rightarrow> ('e, u8) ring_m" where
  "index_buf i = bnd (gets (\<lambda>r. i < ring_size r)) (\<lambda>ok.
     if ok then gets (\<lambda>r. buf r ! i) else panic)"

definition wrap :: "nat \<Rightarrow> ('e, nat) ring_m" where
  "wrap i = bnd (gets ring_size) (\<lambda>N. if N = 0 then panic else ret (i mod N))"

definition ring_oldest_len :: "('e, nat option) ring_m" where
  "ring_oldest_len =
     bnd (gets item_count) (\<lambda>count.
     if count = 0 then ret None
     else
       bnd (gets read_pos) (\<lambda>pos.
       bnd (index_buf pos) (\<lambda>lo.
       bnd (wrap (pos + 1)) (\<lambda>next_pos.
       bnd (index_buf next_pos) (\<lambda>hi.
       ret (Some (unat lo OR push_bit 8 (unat hi))))))))"

definition ring_write_byte :: "u8 \<Rightarrow> ('e, unit) ring_m" where
  "ring_write_byte b =
     bnd (gets write_pos) (\<lambda>pos.
     bnd (gets (\<lambda>r. pos < ring_size r)) (\<lambda>ok.
     sq (assert_that ok)
     (sq (modify (\<lambda>r. r\<lparr> buf := (buf r)[pos := b] \<rparr>))
     (bnd (wrap (pos + 1)) (\<lambda>next_pos.
      modify (\<lambda>r. r\<lparr> write_pos := next_pos \<rparr>))))))"

fun ring_write_bytes :: "u8 list \<Rightarrow> ('e, unit) ring_m" where
  "ring_write_bytes [] = ret ()"
| "ring_write_bytes (b # bs) = sq (ring_write_byte b) (ring_write_bytes bs)"

definition ring_write_raw :: "u8 list \<Rightarrow> ('e, unit) ring_m" where
  "ring_write_raw data =
     (let len = length data
      in sq (ring_write_byte (of_nat len))
         (sq (ring_write_byte (of_nat (drop_bit 8 len)))
         (sq (ring_write_bytes data)
             (modify (\<lambda>r. r\<lparr> used := used r + (2 + len), item_count := item_count r + 1 \<rparr>)))))"

definition ring_push :: "u8 list \<Rightarrow> (unit, unit) ring_m" where
  "ring_push data =
     (let len = length data
      in if len > u16_MAX then fail ()
         else
           let needed = 2 + len
           in bnd (gets (\<lambda>r. used r + needed > ring_size r)) (\<lambda>full.
              if full then fail () else ring_write_raw data))"

definition ring_discard_oldest :: "('e, unit) ring_m" where
  "ring_discard_oldest =
     bnd ring_oldest_len (\<lambda>oldest. case oldest of
       None \<Rightarrow> ret ()
     | Some len \<Rightarrow>
         bnd (gets (\<lambda>r. read_pos r + 2 + len)) (\<lambda>pos.
         bnd (wrap pos) (\<lambda>pos.
         sq (modify (\<lambda>r. r\<lparr> read_pos := pos \<rparr>))
         (bnd (gets used) (\<lambda>u. bnd (checked_minus u (2 + len)) (\<lambda>u.
          sq (modify (\<lambda>r. r\<lparr> used := u \<rparr>))
          (bnd (gets item_count) (\<lambda>c. bnd (checked_minus c 1) (\<lambda>c.
           modify (\<lambda>r. r\<lparr> item_count := c \<rparr>))))))))))"

primrec make_room :: "nat \<Rightarrow> nat \<Rightarrow> ('e, unit) ring_m" where
  "make_room needed 0 =
     bnd (gets (\<lambda>r. used r + needed > ring_size r)) (\<lambda>full. if full then diverge else ret ())"
| "make_room needed (Suc fuel) =
     bnd (gets (\<lambda>r. used r + needed > ring_size r)) (\<lambda>full.
       if full then sq ring_discard_oldest (make_room needed fuel) else ret ())"

definition ring_push_overwriting :: "u8 list \<Rightarrow> (unit, unit) ring_m" where
  "ring_push_overwriting data =
     (let len = length data
      in if len > u16_MAX then fail ()
         else
           let needed = 2 + len
           in bnd (gets ring_size) (\<lambda>N.
              if needed > N then fail ()
              else
                sq (bnd (gets item_count) (make_room needed))
                   (ring_write_raw data)))"

primrec ring_copy :: "nat \<Rightarrow> nat \<Rightarrow> ('e, u8 list) ring_m" where
  "ring_copy pos 0 = ret []"
| "ring_copy pos (Suc n) =
     bnd (index_buf pos) (\<lambda>b.
     bnd (wrap (pos + 1)) (\<lambda>next_pos.
     bnd (ring_copy next_pos n) (\<lambda>bs.
     ret (b # bs))))"

text \<open>The bytes copied to the start of a buffer of the given length.\<close>

definition ring_peek_into :: "nat \<Rightarrow> ('e, u8 list option) ring_m" where
  "ring_peek_into buf_len =
     bnd ring_oldest_len (\<lambda>oldest. case oldest of
       None \<Rightarrow> ret None
     | Some len \<Rightarrow>
         if buf_len < len then ret None
         else
           bnd (gets (\<lambda>r. read_pos r + 2)) (\<lambda>pos.
           bnd (wrap pos) (\<lambda>pos.
           bnd (ring_copy pos len) (\<lambda>bytes.
           ret (Some bytes)))))"

section \<open>The items in the ring\<close>

definition ring_encode :: "u8 list \<Rightarrow> u8 list" where
  "ring_encode data = of_nat (length data) # of_nat (drop_bit 8 (length data)) # data"

text \<open>The \<open>n\<close> bytes from a position on, round the end of the buffer.\<close>

definition ring_bytes :: "u8 list \<Rightarrow> nat \<Rightarrow> nat \<Rightarrow> u8 list" where
  "ring_bytes b pos n = map (\<lambda>i. b ! ((pos + i) mod length b)) [0..<n]"

definition ring_repr :: "ram_ring \<Rightarrow> u8 list list \<Rightarrow> bool" where
  "ring_repr r items \<longleftrightarrow>
     used r \<le> ring_size r \<and>
     (ring_size r = 0 \<or> read_pos r < ring_size r) \<and>
     (ring_size r = 0 \<or> write_pos r = (read_pos r + used r) mod ring_size r) \<and>
     item_count r = length items \<and>
     (\<forall>d \<in> set items. length d \<le> u16_MAX) \<and>
     ring_bytes (buf r) (read_pos r) (used r) = concat (map ring_encode items)"

section \<open>Lemmas on the ring's bytes\<close>

lemma length_ring_bytes [simp]: "length (ring_bytes b pos n) = n"
  by (simp add: ring_bytes_def)

lemma ring_bytes_0 [simp]: "ring_bytes b pos 0 = []"
  by (simp add: ring_bytes_def)

lemma ring_bytes_Suc:
  "ring_bytes b pos (Suc n) = b ! (pos mod length b) # ring_bytes b (pos + 1) n"
  by (simp add: ring_bytes_def upt_conv_Cons map_Suc_upt [symmetric] del: upt_Suc map_Suc_upt)

lemma ring_bytes_mod [simp]: "ring_bytes b (pos mod length b) n = ring_bytes b pos n"
  by (simp add: ring_bytes_def mod_add_left_eq)

lemma ring_bytes_add: "ring_bytes b pos (m + n) = ring_bytes b pos m @ ring_bytes b (pos + m) n"
  by (induction m arbitrary: pos) (simp_all add: ring_bytes_Suc)

text \<open>Writing behind the used bytes does not touch them, and is read back.\<close>

lemma ring_bytes_update_outside:
  assumes "n < length b"
  shows "ring_bytes (b[(pos + n) mod length b := x]) pos n = ring_bytes b pos n"
proof -
  have "(pos + i) mod length b \<noteq> (pos + n) mod length b" if "i < n" for i
  proof
    assume "(pos + i) mod length b = (pos + n) mod length b"
    then have "length b dvd (pos + n) - (pos + i)"
      using that by (metis add_le_cancel_left less_imp_le_nat mod_eq_dvd_iff_nat)
    then show False using that assms by (auto dest: dvd_imp_le)
  qed
  then have "b[(pos + n) mod length b := x] ! ((pos + i) mod length b) = b ! ((pos + i) mod length b)"
    if "i < n" for i using that by (metis nth_list_update_neq)
  then show ?thesis by (simp add: ring_bytes_def)
qed

lemma ring_bytes_snoc:
  assumes "n < length b"
  shows "ring_bytes (b[(pos + n) mod length b := x]) pos (n + 1) = ring_bytes b pos n @ [x]"
  unfolding ring_bytes_add ring_bytes_update_outside [OF assms]
proof -
  have "(pos + n) mod length b < length b" using assms by (intro mod_less_divisor) linarith
  then show "ring_bytes b pos n @ ring_bytes (b[(pos + n) mod length b := x]) (pos + n) 1
      = ring_bytes b pos n @ [x]"
    by (simp add: ring_bytes_def)
qed

text \<open>The length prefix is read back.\<close>

lemma unat_len_lo: "n \<le> u16_MAX \<Longrightarrow> unat (of_nat n :: u8) = n mod 256"
  by (simp add: unat_of_nat)

lemma unat_len_hi: "n \<le> u16_MAX \<Longrightarrow> unat (of_nat (drop_bit 8 n) :: u8) = n div 256"
  by (simp add: unat_of_nat drop_bit_eq_div)

lemma length_prefix:
  assumes "n \<le> u16_MAX"
  shows "unat (of_nat n :: u8) OR push_bit 8 (unat (of_nat (drop_bit 8 n) :: u8)) = n"
proof -
  have "n mod 256 OR push_bit 8 (n div 256) = n"
  proof (rule bit_eqI)
    fix i
    have "n mod 256 = take_bit 8 n" "n div 256 = drop_bit 8 n"
      by (simp_all add: take_bit_eq_mod drop_bit_eq_div)
    then show "bit (n mod 256 OR push_bit 8 (n div 256)) i = bit n i"
      by (cases "i < 8") (auto simp: bit_simps)
  qed
  then show ?thesis using assms by (simp add: unat_len_lo unat_len_hi)
qed

lemma length_ring_encode [simp]: "length (ring_encode d) = 2 + length d"
  by (simp add: ring_encode_def)

lemma wp_index_buf [simp]: "wp (index_buf i) Q E r \<longleftrightarrow> i < ring_size r \<and> Q (buf r ! i) r"
  by (simp add: index_buf_def)

lemma wp_wrap [simp]: "wp (wrap i) Q E r \<longleftrightarrow> ring_size r \<noteq> 0 \<and> Q (i mod ring_size r) r"
  by (simp add: wrap_def)

section \<open>The operations on the items\<close>

lemma wp_ring_write_bytes:
  assumes "write_pos r = (pos + n) mod ring_size r" and "n + length bs \<le> ring_size r" and "0 < ring_size r"
  shows "wp (ring_write_bytes bs) (\<lambda>_ r'. ring_size r' = ring_size r
      \<and> ring_bytes (buf r') pos (n + length bs) = ring_bytes (buf r) pos n @ bs
      \<and> write_pos r' = (pos + n + length bs) mod ring_size r
      \<and> read_pos r' = read_pos r \<and> used r' = used r \<and> item_count r' = item_count r) E r"
  using assms
proof (induction bs arbitrary: r n)
  case (Cons b bs)
  let ?r = "r\<lparr> buf := (buf r)[(pos + n) mod ring_size r := b],
      write_pos := (pos + Suc n) mod ring_size r \<rparr>"
  have "wp (ring_write_bytes bs) (\<lambda>_ r'. ring_size r' = ring_size ?r
      \<and> ring_bytes (buf r') pos (Suc n + length bs) = ring_bytes (buf ?r) pos (Suc n) @ bs
      \<and> write_pos r' = (pos + Suc n + length bs) mod ring_size ?r
      \<and> read_pos r' = read_pos ?r \<and> used r' = used ?r \<and> item_count r' = item_count ?r) E ?r"
    using Cons.prems by (intro Cons.IH) simp_all
  moreover have "ring_bytes (buf ?r) pos (Suc n) = ring_bytes (buf r) pos n @ [b]"
    using ring_bytes_snoc [of n "buf r" pos b] Cons.prems by simp
  ultimately show ?case
    using Cons.prems by (simp add: ring_write_byte_def mod_Suc_eq)
qed simp

lemma wp_ring_write_raw:
  assumes "ring_repr r items" and "length data \<le> u16_MAX" and "used r + (2 + length data) \<le> ring_size r"
  shows "wp (ring_write_raw data) (\<lambda>_ r'. ring_repr r' (items @ [data]) \<and> ring_size r' = ring_size r) E r"
proof -
  have eq: "ring_write_raw data = sq (ring_write_bytes (ring_encode data))
      (modify (\<lambda>r. r\<lparr> used := used r + (2 + length data), item_count := item_count r + 1 \<rparr>))"
    by (rule ext) (simp add: ring_write_raw_def ring_encode_def Let_def sq_def bnd_def
        split: prod.splits outcome.splits)
  have "wp (ring_write_bytes (ring_encode data)) (\<lambda>_ r'. ring_size r' = ring_size r
      \<and> ring_bytes (buf r') (read_pos r) (used r + length (ring_encode data))
          = ring_bytes (buf r) (read_pos r) (used r) @ ring_encode data
      \<and> write_pos r' = (read_pos r + used r + length (ring_encode data)) mod ring_size r
      \<and> read_pos r' = read_pos r \<and> used r' = used r \<and> item_count r' = item_count r) E r"
    using assms by (intro wp_ring_write_bytes) (auto simp: ring_repr_def)
  then have "wp (sq (ring_write_bytes (ring_encode data))
      (modify (\<lambda>r. r\<lparr> used := used r + (2 + length data), item_count := item_count r + 1 \<rparr>)))
      (\<lambda>_ r'. ring_repr r' (items @ [data]) \<and> ring_size r' = ring_size r) E r"
    unfolding wp_sq wp_modify
    by (rule wp_mono) (use assms in \<open>auto simp: ring_repr_def add.assoc\<close>)
  then show ?thesis unfolding eq .
qed

lemma wp_ring_oldest_len:
  assumes "ring_repr r items"
  shows "wp ring_oldest_len (\<lambda>n r'. r' = r \<and> n = (case items of [] \<Rightarrow> None | d # _ \<Rightarrow> Some (length d))) E r"
proof (cases items)
  case Nil
  then show ?thesis using assms by (simp add: ring_oldest_len_def ring_repr_def)
next
  case (Cons d ds)
  have d: "length d \<le> u16_MAX" and b: "ring_bytes (buf r) (read_pos r) (used r) = ring_encode d @ concat (map ring_encode ds)"
    and c: "item_count r \<noteq> 0" and u: "used r \<le> ring_size r"
    using assms Cons by (auto simp: ring_repr_def)
  from arg_cong [OF b, of length] have "2 \<le> used r" by simp
  then obtain k where k: "used r = Suc (Suc k)" by (metis add_2_eq_Suc le_Suc_ex)
  have N: "0 < ring_size r" "read_pos r < ring_size r" using u k assms by (auto simp: ring_repr_def)
  have "buf r ! read_pos r = of_nat (length d)"
    "buf r ! (Suc (read_pos r) mod ring_size r) = of_nat (drop_bit 8 (length d))"
    using b N by (simp_all add: k ring_bytes_Suc ring_encode_def)
  then show ?thesis
    using Cons N c length_prefix [OF d] by (simp add: ring_oldest_len_def)
qed

lemma ring_repr_discard:
  assumes "ring_repr r (d # ds)"
  shows "2 + length d \<le> used r" and "item_count r \<noteq> 0" and "0 < ring_size r"
    and "ring_repr (r\<lparr> read_pos := (read_pos r + 2 + length d) mod ring_size r,
      used := used r - (2 + length d), item_count := item_count r - 1 \<rparr>) ds"
proof -
  have b: "ring_bytes (buf r) (read_pos r) (used r) = ring_encode d @ concat (map ring_encode ds)"
    and "item_count r = Suc (length ds)"
    using assms by (auto simp: ring_repr_def)
  then show c: "item_count r \<noteq> 0" by simp
  from arg_cong [OF b, of length] show u: "2 + length d \<le> used r" by simp
  then show N: "0 < ring_size r" using assms by (auto simp: ring_repr_def)
  obtain k where k: "used r = 2 + length d + k" using u le_Suc_ex by blast
  have "ring_bytes (buf r) (read_pos r + (2 + length d)) k = concat (map ring_encode ds)"
    using b unfolding k ring_bytes_add [of _ _ "2 + length d"] by simp
  then show "ring_repr (r\<lparr> read_pos := (read_pos r + 2 + length d) mod ring_size r,
      used := used r - (2 + length d), item_count := item_count r - 1 \<rparr>) ds"
    using assms N k by (auto simp: ring_repr_def mod_add_left_eq mod_add_right_eq ac_simps)
qed

lemma wp_ring_discard_oldest:
  assumes "ring_repr r items"
  shows "wp ring_discard_oldest (\<lambda>_ r'. ring_repr r' (tl items) \<and> ring_size r' = ring_size r) E r"
proof (cases items)
  case Nil
  then show ?thesis
    using wp_ring_oldest_len [OF assms, of E] assms
    by (auto simp: ring_discard_oldest_def elim!: wp_mono)
next
  case (Cons d ds)
  then show ?thesis
    using wp_ring_oldest_len [OF assms, of E] assms ring_repr_discard [of r d ds]
    by (auto simp: ring_discard_oldest_def elim!: wp_mono)
qed

section \<open>The ring is a queue of bounded size\<close>

text \<open>
  The specification: the bytes the items take, and the eviction of the oldest items until a new
  one fits.
\<close>

definition items_size :: "u8 list list \<Rightarrow> nat" where
  "items_size items = sum_list (map (\<lambda>d. 2 + length d) items)"

fun evict :: "nat \<Rightarrow> nat \<Rightarrow> u8 list list \<Rightarrow> u8 list list" where
  "evict N needed [] = []"
| "evict N needed (d # ds) = (if items_size (d # ds) + needed > N then evict N needed ds else d # ds)"

lemma ring_repr_used: "ring_repr r items \<Longrightarrow> used r = items_size items"
proof -
  assume "ring_repr r items"
  then have "length (ring_bytes (buf r) (read_pos r) (used r)) = length (concat (map ring_encode items))"
    by (simp add: ring_repr_def)
  then show ?thesis by (simp add: items_size_def length_concat comp_def)
qed

lemma evict_fits: "needed \<le> N \<Longrightarrow> items_size (evict N needed items) + needed \<le> N"
  by (induction items) (auto simp: items_size_def)

lemma evict_suffix: "\<exists>old. items = old @ evict N needed items"
proof (induction items)
  case (Cons d ds)
  then show ?case by (metis append_Cons append_Nil evict.simps(2))
qed simp

lemma ring_repr_new: "ring_repr (ram_ring_new N) []"
  by (auto simp: ring_repr_def ram_ring_new_def)

lemma wp_ring_push:
  assumes "ring_repr r items"
  shows "wp (ring_push data)
    (\<lambda>_ r'. length data \<le> u16_MAX \<and> items_size items + 2 + length data \<le> ring_size r
      \<and> ring_repr r' (items @ [data]) \<and> ring_size r' = ring_size r)
    (\<lambda>_ r'. (u16_MAX < length data \<or> ring_size r < items_size items + 2 + length data) \<and> r' = r) r"
  using wp_ring_write_raw [OF assms, of data] ring_repr_used [OF assms]
  by (auto simp: ring_push_def Let_def not_less elim!: wp_mono)

lemma wp_make_room:
  assumes "ring_repr r items" and "needed \<le> ring_size r"
  shows "wp (make_room needed (length items))
    (\<lambda>_ r'. ring_repr r' (evict (ring_size r) needed items) \<and> ring_size r' = ring_size r) E r"
  using assms
proof (induction items arbitrary: r)
  case Nil
  then show ?case using ring_repr_used [OF Nil(1)] by (simp add: items_size_def)
next
  case (Cons d ds)
  have "wp ring_discard_oldest (\<lambda>_ r'. ring_repr r' ds \<and> ring_size r' = ring_size r) E r"
    using wp_ring_discard_oldest [OF Cons.prems(1), of E] by simp
  then have "wp (sq ring_discard_oldest (make_room needed (length ds)))
      (\<lambda>_ r'. ring_repr r' (evict (ring_size r) needed ds) \<and> ring_size r' = ring_size r) E r"
    unfolding wp_sq
  proof (rule wp_mono)
    fix r' assume "ring_repr r' ds \<and> ring_size r' = ring_size r"
    then show "wp (make_room needed (length ds))
        (\<lambda>_ r'. ring_repr r' (evict (ring_size r) needed ds) \<and> ring_size r' = ring_size r) E r'"
      using Cons.IH [of r'] Cons.prems by simp
  qed
  then show ?case using Cons.prems ring_repr_used [OF Cons.prems(1)] by simp
qed

lemma wp_ring_push_overwriting:
  assumes "ring_repr r items"
  shows "wp (ring_push_overwriting data)
    (\<lambda>_ r'. length data \<le> u16_MAX \<and> 2 + length data \<le> ring_size r
      \<and> ring_repr r' (evict (ring_size r) (2 + length data) items @ [data]) \<and> ring_size r' = ring_size r)
    (\<lambda>_ r'. (u16_MAX < length data \<or> ring_size r < 2 + length data) \<and> r' = r) r"
proof (cases "length data \<le> u16_MAX \<and> 2 + length data \<le> ring_size r")
  case False
  then show ?thesis by (auto simp: ring_push_overwriting_def Let_def)
next
  case True
  have "wp (make_room (2 + length data) (length items))
      (\<lambda>_ r'. ring_repr r' (evict (ring_size r) (2 + length data) items) \<and> ring_size r' = ring_size r) no_err r"
    using assms True by (intro wp_make_room) simp_all
  then have "wp (sq (make_room (2 + length data) (length items)) (ring_write_raw data))
      (\<lambda>_ r'. ring_repr r' (evict (ring_size r) (2 + length data) items @ [data])
        \<and> ring_size r' = ring_size r) no_err r"
    unfolding wp_sq
  proof (rule wp_mono)
    fix r' assume r': "ring_repr r' (evict (ring_size r) (2 + length data) items) \<and> ring_size r' = ring_size r"
    then have "used r' + (2 + length data) \<le> ring_size r'"
      using ring_repr_used evict_fits [of "2 + length data" "ring_size r" items] True by metis
    then show "wp (ring_write_raw data)
        (\<lambda>_ r'. ring_repr r' (evict (ring_size r) (2 + length data) items @ [data])
          \<and> ring_size r' = ring_size r) no_err r'"
      using r' True wp_ring_write_raw [of r' "evict (ring_size r) (2 + length data) items" data] by simp
  qed
  moreover have "item_count r = length items" using assms by (simp add: ring_repr_def)
  ultimately show ?thesis using True by (auto simp: ring_push_overwriting_def Let_def elim!: wp_mono)
qed

lemma wp_ring_copy:
  assumes "pos < ring_size r"
  shows "wp (ring_copy pos n) (\<lambda>bs r'. r' = r \<and> bs = ring_bytes (buf r) pos n) E r"
  using assms
proof (induction n arbitrary: pos)
  case (Suc n)
  have "wp (ring_copy ((pos + 1) mod ring_size r) n)
      (\<lambda>bs r'. r' = r \<and> bs = ring_bytes (buf r) ((pos + 1) mod ring_size r) n) E r"
    using Suc.prems by (intro Suc.IH mod_less_divisor) linarith
  then show ?case using Suc.prems by (auto simp: ring_bytes_Suc elim!: wp_mono)
qed simp

lemma wp_ring_peek_into:
  assumes "ring_repr r items"
  shows "wp (ring_peek_into n) (\<lambda>d r'. r' = r \<and>
      d = (case items of [] \<Rightarrow> None | d # _ \<Rightarrow> if length d \<le> n then Some d else None)) E r"
proof (cases items)
  case Nil
  then show ?thesis
    using wp_ring_oldest_len [OF assms, of E] by (auto simp: ring_peek_into_def elim!: wp_mono)
next
  case (Cons d ds)
  have N: "0 < ring_size r" and u: "2 + length d \<le> used r"
    using ring_repr_discard [of r d ds] assms Cons by auto
  obtain k where k: "used r = 2 + (length d + k)" using u by (metis add.assoc le_Suc_ex)
  have "ring_bytes (buf r) (read_pos r) (used r) = ring_encode d @ concat (map ring_encode ds)"
    using assms Cons by (simp add: ring_repr_def)
  then have "ring_bytes (buf r) (read_pos r + 2) (length d) = d"
    unfolding k ring_bytes_add [of _ _ 2] ring_bytes_add [of _ _ "length d"]
    by (simp add: ring_encode_def ring_bytes_Suc numeral_2_eq_2)
  then have "wp (ring_copy ((read_pos r + 2) mod ring_size r) (length d)) (\<lambda>bs r'. r' = r \<and> bs = d) E r"
    using wp_ring_copy [of "(read_pos r + 2) mod ring_size r" r "length d" E] N by simp
  then show ?thesis
    using wp_ring_oldest_len [OF assms, of E] Cons N
    by (auto simp: ring_peek_into_def elim!: wp_mono)
qed

section \<open>The ring is a bounded queue\<close>

lemma evict_longest:
  "\<exists>old. items = old @ evict N needed items \<and> (old \<noteq> [] \<longrightarrow> N < items_size (last old # evict N needed items) + needed)"
proof (induction items)
  case (Cons d ds)
  show ?case
  proof (cases "items_size (d # ds) + needed \<le> N")
    case True
    then show ?thesis by simp
  next
    case False
    obtain old where old: "ds = old @ evict N needed ds"
      "old \<noteq> [] \<longrightarrow> N < items_size (last old # evict N needed ds) + needed"
      using Cons.IH by blast
    show ?thesis
      using False old by (intro exI [of _ "d # old"]) (cases "old = []", auto)
  qed
qed simp

text \<open>
  C23: \<open>push\<close> appends the item and never disturbs the others; it is refused, and the ring left as it
  was, exactly when the item is longer than 65535 bytes or does not fit in the free bytes together
  with its two bytes of length.
\<close>

theorem ring_push_appends:
  assumes "ring_repr r items"
  shows "wp (ring_push d)
    (\<lambda>_ r'. length d \<le> u16_MAX \<and> used r + 2 + length d \<le> ring_size r \<and> ring_repr r' (items @ [d]))
    (\<lambda>_ r'. (u16_MAX < length d \<or> ring_size r < used r + 2 + length d) \<and> r' = r) r"
  using wp_ring_push [OF assms, of d] ring_repr_used [OF assms] by (auto elim: wp_mono)

lemma ring_push_appends_witness:
  "wp (ring_push [7]) (\<lambda>_ r'. ring_repr r' [[7]]) no_err (ram_ring_new 4)"
  using ring_push_appends [OF ring_repr_new, of "[7]" 4] by (auto simp: ram_ring_new_def elim: wp_mono)



text \<open>
  C25: reading the oldest item copies exactly its bytes and changes nothing; it gives \<open>None\<close> on an
  empty ring, and when the caller's buffer is too short. Discarding then takes that item away. No
  index runs out of the buffer, wherever the item lies across its end.
\<close>

theorem ring_oldest_read_and_discarded:
  assumes "ring_repr r items"
  shows "wp (bnd (ring_peek_into n) (\<lambda>d. sq ring_discard_oldest (ret d)))
    (\<lambda>d r'. d = (case items of [] \<Rightarrow> None | x # _ \<Rightarrow> if length x \<le> n then Some x else None)
      \<and> ring_repr r' (tl items) \<and> ring_size r' = ring_size r) no_err r"
  unfolding wp_bnd wp_sq
  by (rule wp_mono [OF wp_ring_peek_into [OF assms]]) (use wp_ring_discard_oldest [OF assms] in \<open>auto elim: wp_mono\<close>)

text \<open>A ring of 8 bytes with two items, the first of them round its end.\<close>

definition used_ring :: ram_ring where
  "used_ring = \<lparr> buf = [3, 2, 0, 4, 5, 9, 1, 0], read_pos = 6, write_pos = 5, used = 7, item_count = 2 \<rparr>"

lemma used_ring_items: "ring_repr used_ring [[3], [4, 5]]"
  by (simp add: ring_repr_def used_ring_def ring_bytes_def ring_encode_def upt_conv_Cons drop_bit_eq_div)

lemma ring_oldest_read_and_discarded_witness:
  "wp (bnd (ring_peek_into 4) (\<lambda>d. sq ring_discard_oldest (ret d)))
    (\<lambda>d r'. d = Some [3] \<and> ring_repr r' [[4, 5]]) no_err used_ring"
  by (rule wp_mono [OF ring_oldest_read_and_discarded [OF used_ring_items]]) simp_all

end
