(* ===== verification/BufferedQueue.thy ===== *)
theory BufferedQueue
  imports Queue RamRing
begin

text \<open>
  \<open>BufferedQueue\<close> of \<open>src/src/queue/buffered.rs\<close>: a \<open>QueueStorage\<close> with a \<open>RamRing\<close> before it.
  Items are enqueued to the ring and drained to flash; \<open>pop\<close> and \<open>peek\<close> look at flash first. The
  buffer the caller hands to an operation (\<open>scratch\<close> or \<open>data_buffer\<close>) is the data buffer of the
  storage.
\<close>

section \<open>The state\<close>

datatype overflow_policy = Overflow_Err | DiscardOldest

record ('s, 'k) buffered_queue =
  queue_storage :: "('s, 'k) storage"
  ram :: ram_ring

type_synonym ('s, 'k, 'e, 'a) buffered_m = "(('s, 'k) buffered_queue, 'e, 'a) m"

definition buffered_queue_new :: "nat \<Rightarrow> ('s, 'k) storage \<Rightarrow> ('s, 'k) buffered_queue" where
  "buffered_queue_new N s = \<lparr> queue_storage = s, ram = ram_ring_new N \<rparr>"

definition into_storage :: "('s, 'k) buffered_queue \<Rightarrow> ('s, 'k) storage" where
  "into_storage b = queue_storage b"

definition on_storage :: "(('s, 'k) storage, 'e, 'a) m \<Rightarrow> ('s, 'k, 'e, 'a) buffered_m" where
  "on_storage = zoom queue_storage (\<lambda>s b. b\<lparr> queue_storage := s \<rparr>)"

definition on_ram :: "('e, 'a) ring_m \<Rightarrow> ('s, 'k, 'e, 'a) buffered_m" where
  "on_ram = zoom ram (\<lambda>r b. b\<lparr> ram := r \<rparr>)"

lemma wp_on_storage [wp_simps, simp]:
  "wp (on_storage x) Q E b
    = wp x (\<lambda>a s. Q a (b\<lparr> queue_storage := s \<rparr>)) (\<lambda>e s. E e (b\<lparr> queue_storage := s \<rparr>)) (queue_storage b)"
  by (simp add: on_storage_def)

lemma wp_on_ram [wp_simps, simp]:
  "wp (on_ram x) Q E b = wp x (\<lambda>a r. Q a (b\<lparr> ram := r \<rparr>)) (\<lambda>e r. E e (b\<lparr> ram := r \<rparr>)) (ram b)"
  by (simp add: on_ram_def)

section \<open>Operations\<close>

text \<open>Enqueuing acts on the ring alone.\<close>

definition ring_enqueue :: "u8 list \<Rightarrow> overflow_policy \<Rightarrow> (unit, unit) ring_m" where
  "ring_enqueue data policy = (case policy of
     Overflow_Err \<Rightarrow> ring_push data
   | DiscardOldest \<Rightarrow> ring_push_overwriting data)"

definition enqueue :: "u8 list \<Rightarrow> overflow_policy \<Rightarrow> ('s, 'k, unit, unit) buffered_m" where
  "enqueue data policy = on_ram (ring_enqueue data policy)"

text \<open>\<open>peek_into\<close> with the caller's buffer: the item is copied to its start, its length returned.\<close>

definition peek_ram_into_buffer :: "('s, 'k, 'e, nat option) buffered_m" where
  "peek_ram_into_buffer =
     bnd (gets (\<lambda>b. length (data_buffer (queue_storage b)))) (\<lambda>buf_len.
     bnd (on_ram (ring_peek_into buf_len)) (\<lambda>found. case found of
       None \<Rightarrow> ret None
     | Some bytes \<Rightarrow>
         sq (on_storage (modify (\<lambda>s. s\<lparr> data_buffer := overwrite 0 bytes (data_buffer s) \<rparr>)))
            (ret (Some (length bytes)))))"

definition buffer_prefix :: "nat \<Rightarrow> ('s, 'k, 'e, u8 list) buffered_m" where
  "buffer_prefix len = gets (\<lambda>b. take len (data_buffer (queue_storage b)))"

definition drain_one ::
  "('s, 'e) nor_flash \<Rightarrow> bool \<Rightarrow> ('s, 'k, 'e error, bool) buffered_m"
where
  "drain_one F allow_overwrite =
     bnd peek_ram_into_buffer (\<lambda>found. case found of
       None \<Rightarrow> ret False
     | Some len \<Rightarrow>
         bnd (buffer_prefix len) (\<lambda>data.
         sq (on_storage (push F data allow_overwrite))
         (sq (on_ram ring_discard_oldest)
             (ret True))))"

primrec drain_rounds ::
  "('s, 'e) nor_flash \<Rightarrow> bool \<Rightarrow> nat \<Rightarrow> ('s, 'k, 'e error, unit) buffered_m"
where
  "drain_rounds F allow_overwrite 0 = diverge"
| "drain_rounds F allow_overwrite (Suc fuel) =
     bnd (drain_one F allow_overwrite) (\<lambda>drained.
       if drained then drain_rounds F allow_overwrite fuel else ret ())"

text \<open>Every round drains an item or is the last.\<close>

definition drain_all :: "('s, 'e) nor_flash \<Rightarrow> bool \<Rightarrow> ('s, 'k, 'e error, unit) buffered_m" where
  "drain_all F allow_overwrite =
     bnd (gets (\<lambda>b. ring_len (ram b))) (\<lambda>n. drain_rounds F allow_overwrite (Suc n))"

definition buffered_pop :: "('s, 'e) nor_flash \<Rightarrow> ('s, 'k, 'e error, u8 list option) buffered_m" where
  "buffered_pop F =
     bnd (on_storage (pop F)) (\<lambda>popped. case map_option length popped of
       Some len \<Rightarrow> bnd (buffer_prefix len) (\<lambda>data. ret (Some data))
     | None \<Rightarrow>
         bnd peek_ram_into_buffer (\<lambda>found. case found of
           Some len \<Rightarrow>
             sq (on_ram ring_discard_oldest)
             (bnd (buffer_prefix len) (\<lambda>data. ret (Some data)))
         | None \<Rightarrow> ret None))"

definition buffered_peek :: "('s, 'e) nor_flash \<Rightarrow> ('s, 'k, 'e error, u8 list option) buffered_m" where
  "buffered_peek F =
     bnd (on_storage (peek F)) (\<lambda>peeked. case map_option length peeked of
       Some len \<Rightarrow> bnd (buffer_prefix len) (\<lambda>data. ret (Some data))
     | None \<Rightarrow>
         bnd peek_ram_into_buffer (\<lambda>found. case found of
           Some len \<Rightarrow> bnd (buffer_prefix len) (\<lambda>data. ret (Some data))
         | None \<Rightarrow> ret None))"

text \<open>The numbers the queue reports; the subtraction panics if more is used than there is.\<close>

definition ram_capacity_bytes :: "('s, 'k) buffered_queue \<Rightarrow> nat" where
  "ram_capacity_bytes b = ring_size (ram b)"

definition ram_free_bytes :: "('s, 'k, 'e, nat) buffered_m" where
  "ram_free_bytes =
     bnd (gets ram_capacity_bytes) (\<lambda>n. bnd (gets (\<lambda>b. ring_bytes_used (ram b))) (checked_minus n))"

definition ram_pending_count :: "('s, 'k) buffered_queue \<Rightarrow> nat" where
  "ram_pending_count b = ring_len (ram b)"

definition ram_bytes_used :: "('s, 'k) buffered_queue \<Rightarrow> nat" where
  "ram_bytes_used b = ring_bytes_used (ram b)"

section \<open>The contract of the storage\<close>

text \<open>
  What the queue in RAM relies on: the flash holds a list of items, and pushing, popping and
  peeking act on the list. The buffer must be long enough for the items; \<open>fits n d\<close> says when.
\<close>

locale fifo_storage =
  fixes F :: "('s, 'e) nor_flash"
    and repr :: "('s, 'k) storage \<Rightarrow> u8 list list \<Rightarrow> bool"
    and fits :: "nat \<Rightarrow> u8 list \<Rightarrow> bool"
  assumes push_law: "repr s q \<Longrightarrow> wp (push F d allow)
      (\<lambda>_ t. (\<exists>j. (j = 0 \<or> allow) \<and> repr t (drop j q @ [d])) \<and> data_buffer t = data_buffer s)
      (\<lambda>e t. (e = ItemTooBig \<and> item_too_big F (length d) \<or> e = FullStorage \<and> \<not> allow)
        \<and> repr t q \<and> data_buffer t = data_buffer s) s"
    and pop_law: "repr s q \<Longrightarrow> (q = [] \<or> fits (length (data_buffer s)) (hd q)) \<Longrightarrow> wp (pop F)
      (\<lambda>a t. repr t (tl q) \<and> length (data_buffer t) = length (data_buffer s)
        \<and> (case q of [] \<Rightarrow> a = None | d # _ \<Rightarrow> a = Some d \<and> take (length d) (data_buffer t) = d)) no_err s"
    and peek_law: "repr s q \<Longrightarrow> (q = [] \<or> fits (length (data_buffer s)) (hd q)) \<Longrightarrow> wp (peek F)
      (\<lambda>a t. repr t q \<and> length (data_buffer t) = length (data_buffer s)
        \<and> (case q of [] \<Rightarrow> a = None | d # _ \<Rightarrow> a = Some d \<and> take (length d) (data_buffer t) = d)) no_err s"
    and fits_length: "fits n d \<Longrightarrow> length d \<le> n"
    and repr_buffer: "repr (s\<lparr> data_buffer := xs \<rparr>) q = repr s q"

text \<open>The buffered queue holds the items on flash, then those in the ring.\<close>

definition buffered_repr ::
  "(('s, 'k) storage \<Rightarrow> u8 list list \<Rightarrow> bool) \<Rightarrow> ('s, 'k) buffered_queue \<Rightarrow> u8 list list \<Rightarrow> u8 list list \<Rightarrow> bool"
where
  "buffered_repr repr b q p \<longleftrightarrow> repr (queue_storage b) q \<and> ring_repr (ram b) p"

section \<open>The queue in RAM before the flash\<close>

lemma take_overwrite_self: "take (length bs) (overwrite 0 bs xs) = bs"
  by (simp add: overwrite_def)

lemma buffered_update_simps [simp]:
  "queue_storage b = s \<Longrightarrow> b\<lparr> queue_storage := s \<rparr> = b" "ram b = r \<Longrightarrow> b\<lparr> ram := r \<rparr> = b"
  by simp_all

lemma wp_peek_ram_into_buffer:
  assumes "ring_repr (ram b) p"
  shows "wp peek_ram_into_buffer (\<lambda>found t. ram t = ram b
      \<and> (\<exists>xs. length xs = length (data_buffer (queue_storage b)) \<and> queue_storage t = (queue_storage b)\<lparr> data_buffer := xs \<rparr>)
      \<and> (case p of [] \<Rightarrow> found = None
         | d # _ \<Rightarrow> if length d \<le> length (data_buffer (queue_storage b))
             then found = Some (length d) \<and> take (length d) (data_buffer (queue_storage t)) = d
             else found = None)) no_err b"
proof -
  let ?n = "length (data_buffer (queue_storage b))"
  have same: "\<exists>xs. length xs = ?n \<and> queue_storage b = (queue_storage b)\<lparr> data_buffer := xs \<rparr>"
    by (intro exI [of _ "data_buffer (queue_storage b)"]) simp
  have filled: "\<exists>xs. length xs = ?n
      \<and> (queue_storage b)\<lparr> data_buffer := overwrite 0 d (data_buffer (queue_storage b)) \<rparr> = (queue_storage b)\<lparr> data_buffer := xs \<rparr>"
    if "length d \<le> ?n" for d
    using that by (intro exI [of _ "overwrite 0 d (data_buffer (queue_storage b))"]) simp
  show ?thesis
    unfolding peek_ram_into_buffer_def wp_bnd wp_gets wp_on_ram
    using same filled
    by (intro wp_mono [OF wp_ring_peek_into [OF assms, of ?n no_err]])
      (auto simp: take_overwrite_self split: list.splits if_splits)
qed

context fifo_storage
begin

abbreviation holds_items :: "('s, 'k) buffered_queue \<Rightarrow> u8 list list \<Rightarrow> u8 list list \<Rightarrow> bool" where
  "holds_items \<equiv> buffered_repr repr"

text \<open>Draining one item moves it from the ring to the flash.\<close>

lemma wp_drain_one:
  fixes b :: "('s, 'k) buffered_queue"
  assumes "holds_items b q (d # p)" "length d \<le> length (data_buffer (queue_storage b))"
  shows "wp (drain_one F allow)
    (\<lambda>more t. more \<and> (\<exists>j. (j = 0 \<or> allow) \<and> holds_items t (drop j q @ [d]) p)
      \<and> length (data_buffer (queue_storage t)) = length (data_buffer (queue_storage b)))
    (\<lambda>e t. (e = ItemTooBig \<and> item_too_big F (length d) \<or> e = FullStorage \<and> \<not> allow) \<and> holds_items t q (d # p)
      \<and> length (data_buffer (queue_storage t)) = length (data_buffer (queue_storage b))) b"
    (is "wp _ ?Q ?E b")
proof -
  have repr: "repr (queue_storage b) q" and ring: "ring_repr (ram b) (d # p)"
    using assms(1) by (simp_all add: buffered_repr_def)
  have discard: "wp (sq (on_ram ring_discard_oldest) (ret True)) ?Q ?E t"
    if "ram t = ram b" "\<exists>j. (j = 0 \<or> allow) \<and> repr (queue_storage t) (drop j q @ [d])"
      "length (data_buffer (queue_storage t)) = length (data_buffer (queue_storage b))" for t :: "('s, 'k) buffered_queue"
    unfolding wp_sq wp_on_ram
    by (rule wp_mono [OF wp_ring_discard_oldest [of _ "d # p"]]) (use that ring in \<open>auto simp: buffered_repr_def\<close>)
  have push: "wp (sq (on_storage (push F d allow)) (sq (on_ram ring_discard_oldest) (ret True))) ?Q ?E t"
    if "ram t = ram b" "repr (queue_storage t) q"
      "length (data_buffer (queue_storage t)) = length (data_buffer (queue_storage b))" for t :: "('s, 'k) buffered_queue"
    unfolding wp_sq [of "on_storage _"] wp_on_storage
    by (rule wp_mono [OF push_law [OF that(2), of d allow]])
      (use that ring discard in \<open>auto simp: buffered_repr_def simp del: wp_sq\<close>)
  show ?thesis
    unfolding drain_one_def wp_bnd [of peek_ram_into_buffer]
    by (rule wp_mono [OF wp_peek_ram_into_buffer [OF ring]])
      (use assms(2) push repr in \<open>auto simp: repr_buffer buffer_prefix_def simp del: wp_sq\<close>)
qed

lemma wp_drain_one_none:
  fixes b :: "('s, 'k) buffered_queue"
  assumes "holds_items b q p" "p = [] \<or> length (data_buffer (queue_storage b)) < length (hd p)"
  shows "wp (drain_one F allow) (\<lambda>more t. \<not> more \<and> holds_items t q p) E b"
proof -
  have "ring_repr (ram b) p" "repr (queue_storage b) q"
    using assms(1) by (simp_all add: buffered_repr_def)
  then show ?thesis
    unfolding drain_one_def wp_bnd
    by (intro wp_mono [OF wp_peek_ram_into_buffer])
      (use assms(2) in \<open>auto simp: buffered_repr_def repr_buffer split: list.splits\<close>)
qed

text \<open>Draining keeps the sequence of all items, but for old ones where overwriting is allowed.\<close>

lemma wp_drain_rounds:
  fixes b :: "('s, 'k) buffered_queue"
  assumes "holds_items b q p" "\<forall>d \<in> set p. length d \<le> length (data_buffer (queue_storage b))"
  shows "wp (drain_rounds F allow (Suc (length p)))
    (\<lambda>_ t. \<exists>j. (j = 0 \<or> allow) \<and> holds_items t (drop j (q @ p)) [])
    (\<lambda>e t. (e = ItemTooBig \<or> e = FullStorage \<and> \<not> allow)
      \<and> (\<exists>q' p' j. (j = 0 \<or> allow) \<and> holds_items t q' p' \<and> q' @ p' = drop j (q @ p) \<and> p' \<noteq> [])) b"
  using assms
proof (induction p arbitrary: b q)
  case Nil
  show ?case
    unfolding drain_rounds.simps wp_bnd
    by (rule wp_mono [OF wp_drain_one_none [OF Nil(1)]]) (auto intro: exI [of _ 0])
next
  case (Cons d p)
  let ?n = "length (data_buffer (queue_storage b))"
  have drop: "drop i (drop j q @ d # p) = drop (min j (length q) + i) (q @ d # p)" for i j
    by (cases "j \<le> length q") (simp_all add: min_def add.commute)
  have step: "wp (drain_rounds F allow (Suc (length p)))
      (\<lambda>_ t. \<exists>j. (j = 0 \<or> allow) \<and> holds_items t (drop j (q @ d # p)) [])
      (\<lambda>e t. (e = ItemTooBig \<or> e = FullStorage \<and> \<not> allow)
        \<and> (\<exists>q' p' j. (j = 0 \<or> allow) \<and> holds_items t q' p' \<and> q' @ p' = drop j (q @ d # p) \<and> p' \<noteq> [])) t"
    if t: "holds_items t (drop j q @ [d]) p" "length (data_buffer (queue_storage t)) = ?n" and j: "j = 0 \<or> allow"
    for t :: "('s, 'k) buffered_queue" and j
  proof (rule wp_mono [OF Cons.IH [OF t(1)]])
    show "\<forall>d \<in> set p. length d \<le> length (data_buffer (queue_storage t))" using t(2) Cons.prems(2) by simp
    fix u :: "('s, 'k) buffered_queue"
    assume "\<exists>i. (i = 0 \<or> allow) \<and> holds_items u (drop i ((drop j q @ [d]) @ p)) []"
    then show "\<exists>j. (j = 0 \<or> allow) \<and> holds_items u (drop j (q @ d # p)) []"
      using j drop by (metis append.assoc append_Cons append_Nil add_0 min_0L)
  next
    fix e and u :: "('s, 'k) buffered_queue"
    assume "(e = ItemTooBig \<or> e = FullStorage \<and> \<not> allow) \<and> (\<exists>q' p' i. (i = 0 \<or> allow) \<and> holds_items u q' p'
        \<and> q' @ p' = drop i ((drop j q @ [d]) @ p) \<and> p' \<noteq> [])"
    then show "(e = ItemTooBig \<or> e = FullStorage \<and> \<not> allow)
        \<and> (\<exists>q' p' j. (j = 0 \<or> allow) \<and> holds_items u q' p' \<and> q' @ p' = drop j (q @ d # p) \<and> p' \<noteq> [])"
      using j drop by (metis append.assoc append_Cons append_Nil add_0 min_0L)
  qed
  have stay: "\<exists>q' p' j. (j = 0 \<or> allow) \<and> holds_items t q' p' \<and> q' @ p' = drop j (q @ d # p) \<and> p' \<noteq> []"
    if "holds_items t q (d # p)" for t :: "('s, 'k) buffered_queue"
    using that by (intro exI [of _ q] exI [of _ "d # p"] exI [of _ 0]) simp
  show ?case
    unfolding drain_rounds.simps(2) [of F allow "length (d # p)"] wp_bnd
  proof (rule wp_mono [OF wp_drain_one [OF Cons.prems(1)]])
    show "length d \<le> ?n" using Cons.prems(2) by simp
  qed (use step stay in \<open>auto simp del: drain_rounds.simps drop_append\<close>)
qed

lemma wp_drain_all:
  fixes b :: "('s, 'k) buffered_queue"
  assumes "holds_items b q p" "\<forall>d \<in> set p. length d \<le> length (data_buffer (queue_storage b))"
  shows "wp (drain_all F allow)
    (\<lambda>_ t. \<exists>j. (j = 0 \<or> allow) \<and> holds_items t (drop j (q @ p)) [])
    (\<lambda>e t. (e = ItemTooBig \<or> e = FullStorage \<and> \<not> allow)
      \<and> (\<exists>q' p' j. (j = 0 \<or> allow) \<and> holds_items t q' p' \<and> q' @ p' = drop j (q @ p) \<and> p' \<noteq> [])) b"
proof -
  have "ring_len (ram b) = length p"
    using assms(1) by (simp add: buffered_repr_def ring_len_def ring_repr_def)
  then show ?thesis
    unfolding drain_all_def wp_bnd wp_gets using wp_drain_rounds [OF assms] by simp
qed

text \<open>Popping and peeking see the items on flash, then those in the ring.\<close>

definition oldest_fits :: "('s, 'k) buffered_queue \<Rightarrow> u8 list list \<Rightarrow> u8 list list \<Rightarrow> bool" where
  "oldest_fits b q p \<longleftrightarrow> (if q \<noteq> [] then fits (length (data_buffer (queue_storage b))) (hd q)
     else p = [] \<or> length (hd p) \<le> length (data_buffer (queue_storage b)))"

lemma wp_buffered_pop:
  fixes b :: "('s, 'k) buffered_queue"
  assumes "holds_items b q p" "oldest_fits b q p"
  shows "wp (buffered_pop F) (\<lambda>a t. a = (case q @ p of [] \<Rightarrow> None | d # _ \<Rightarrow> Some d)
    \<and> holds_items t (tl q) (if q = [] then tl p else p)) no_err b"
proof -
  let ?Q = "\<lambda>a t. a = (case q @ p of [] \<Rightarrow> None | d # _ \<Rightarrow> Some d)
    \<and> holds_items t (tl q) (if q = [] then tl p else p)"
  have repr: "repr (queue_storage b) q" and ring: "ring_repr (ram b) p"
    using assms(1) by (simp_all add: buffered_repr_def)
  have discard: "wp (sq (on_ram ring_discard_oldest) (bnd (buffer_prefix (length d)) (\<lambda>data. ret (Some data)))) ?Q no_err t"
    if "q = []" "p = d # ds" "ring_repr (ram t) p" "repr (queue_storage t) []"
      "take (length d) (data_buffer (queue_storage t)) = d" for t :: "('s, 'k) buffered_queue" and d ds
    unfolding wp_sq wp_on_ram
    by (rule wp_mono [OF wp_ring_discard_oldest [OF that(3), of no_err]])
      (use that in \<open>auto simp: buffer_prefix_def buffered_repr_def\<close>)
  have ram: "wp (bnd peek_ram_into_buffer (\<lambda>found. case found of
        Some len \<Rightarrow> sq (on_ram ring_discard_oldest) (bnd (buffer_prefix len) (\<lambda>data. ret (Some data)))
      | None \<Rightarrow> ret None)) ?Q no_err t"
    if t: "q = []" "ram t = ram b" "repr (queue_storage t) []"
      "length (data_buffer (queue_storage t)) = length (data_buffer (queue_storage b))" for t :: "('s, 'k) buffered_queue"
  proof -
    have "ring_repr (ram t) p" using ring t(2) by simp
    then show ?thesis
      unfolding wp_bnd [of peek_ram_into_buffer]
    proof (rule wp_mono [OF wp_peek_ram_into_buffer])
      fix found and u :: "('s, 'k) buffered_queue"
      assume u: "ram u = ram t \<and> (\<exists>xs. length xs = length (data_buffer (queue_storage t))
          \<and> queue_storage u = (queue_storage t)\<lparr> data_buffer := xs \<rparr>)
        \<and> (case p of [] \<Rightarrow> found = None | d # _ \<Rightarrow> if length d \<le> length (data_buffer (queue_storage t))
             then found = Some (length d) \<and> take (length d) (data_buffer (queue_storage u)) = d else found = None)"
      then have repr': "repr (queue_storage u) []" "ring_repr (ram u) p" using t ring by (auto simp: repr_buffer)
      show "wp (case found of None \<Rightarrow> ret None
        | Some len \<Rightarrow> sq (on_ram ring_discard_oldest) (bnd (buffer_prefix len) (\<lambda>data. ret (Some data)))) ?Q no_err u"
      proof (cases p)
        case (Cons d ds)
        then have found: "found = Some (length d)" "take (length d) (data_buffer (queue_storage u)) = d"
          using u t(1,4) assms(2) by (auto simp: oldest_fits_def)
        show ?thesis unfolding found(1) option.case using discard [OF t(1) Cons repr'(2,1) found(2)] .
      qed (use u t repr' in \<open>auto simp: buffered_repr_def\<close>)
    qed simp
  qed
  show ?thesis
    unfolding buffered_pop_def wp_bnd [of "on_storage _"] wp_on_storage
  proof (rule wp_mono [OF pop_law [OF repr]])
    show "q = [] \<or> fits (length (data_buffer (queue_storage b))) (hd q)"
      using assms(2) by (cases "q = []") (auto simp: oldest_fits_def)
    fix a and s :: "('s, 'k) storage"
    assume a: "repr s (tl q) \<and> length (data_buffer s) = length (data_buffer (queue_storage b))
      \<and> (case q of [] \<Rightarrow> a = None | d # _ \<Rightarrow> a = Some d \<and> take (length d) (data_buffer s) = d)"
    show "wp (case map_option length a of
        Some len \<Rightarrow> bnd (buffer_prefix len) (\<lambda>data. ret (Some data))
      | None \<Rightarrow> bnd peek_ram_into_buffer (\<lambda>found. case found of
          Some len \<Rightarrow> sq (on_ram ring_discard_oldest) (bnd (buffer_prefix len) (\<lambda>data. ret (Some data)))
        | None \<Rightarrow> ret None)) ?Q no_err (b\<lparr> queue_storage := s \<rparr>)"
    proof (cases q)
      case Nil
      then have none: "a = None" using a by simp
      show ?thesis
        unfolding none option.map option.case by (rule ram) (use Nil a in simp_all)
    qed (use a ring in \<open>simp add: buffer_prefix_def buffered_repr_def\<close>)
  qed simp
qed

lemma wp_buffered_peek:
  fixes b :: "('s, 'k) buffered_queue"
  assumes "holds_items b q p" "oldest_fits b q p"
  shows "wp (buffered_peek F) (\<lambda>a t. a = (case q @ p of [] \<Rightarrow> None | d # _ \<Rightarrow> Some d) \<and> holds_items t q p) no_err b"
proof -
  let ?Q = "\<lambda>a t. a = (case q @ p of [] \<Rightarrow> None | d # _ \<Rightarrow> Some d) \<and> holds_items t q p"
  have repr: "repr (queue_storage b) q" and ring: "ring_repr (ram b) p"
    using assms(1) by (simp_all add: buffered_repr_def)
  have ram: "wp (bnd peek_ram_into_buffer (\<lambda>found. case found of
        Some len \<Rightarrow> bnd (buffer_prefix len) (\<lambda>data. ret (Some data))
      | None \<Rightarrow> ret None)) ?Q no_err t"
    if t: "q = []" "ram t = ram b" "repr (queue_storage t) []"
      "length (data_buffer (queue_storage t)) = length (data_buffer (queue_storage b))" for t :: "('s, 'k) buffered_queue"
  proof -
    have "ring_repr (ram t) p" using ring t(2) by simp
    then show ?thesis
      unfolding wp_bnd [of peek_ram_into_buffer]
      by (rule wp_mono [OF wp_peek_ram_into_buffer])
        (use t ring assms(2) in \<open>auto simp: repr_buffer buffered_repr_def oldest_fits_def buffer_prefix_def
          split: list.splits\<close>)
  qed
  show ?thesis
    unfolding buffered_peek_def wp_bnd [of "on_storage _"] wp_on_storage
  proof (rule wp_mono [OF peek_law [OF repr]])
    show "q = [] \<or> fits (length (data_buffer (queue_storage b))) (hd q)"
      using assms(2) by (cases "q = []") (auto simp: oldest_fits_def)
    fix a and s :: "('s, 'k) storage"
    assume a: "repr s (q) \<and> length (data_buffer s) = length (data_buffer (queue_storage b))
      \<and> (case q of [] \<Rightarrow> a = None | d # _ \<Rightarrow> a = Some d \<and> take (length d) (data_buffer s) = d)"
    show "wp (case map_option length a of
        Some len \<Rightarrow> bnd (buffer_prefix len) (\<lambda>data. ret (Some data))
      | None \<Rightarrow> bnd peek_ram_into_buffer (\<lambda>found. case found of
          Some len \<Rightarrow> bnd (buffer_prefix len) (\<lambda>data. ret (Some data))
        | None \<Rightarrow> ret None)) ?Q no_err (b\<lparr> queue_storage := s \<rparr>)"
    proof (cases q)
      case Nil
      then have none: "a = None" using a by simp
      show ?thesis
        unfolding none option.map option.case by (rule ram) (use Nil a in simp_all)
    qed (use a ring in \<open>simp add: buffer_prefix_def buffered_repr_def\<close>)
  qed simp
qed

end

text \<open>Enqueuing does not touch the flash.\<close>

lemma wp_ring_enqueue:
  assumes "ring_repr r p"
  shows "wp (ring_enqueue d policy)
    (\<lambda>_ r'. \<exists>j. (j = 0 \<or> policy = DiscardOldest) \<and> ring_repr r' (drop j p @ [d]) \<and> ring_size r' = ring_size r)
    (\<lambda>_ r'. r' = r \<and> (u16_MAX < length d \<or> ring_size r < 2 + length d
      \<or> policy = Overflow_Err \<and> ring_size r < items_size p + 2 + length d)) r"
proof (cases policy)
  case Overflow_Err
  then show ?thesis
    using wp_ring_push [OF assms, of d] by (auto simp: ring_enqueue_def intro: exI [of _ 0] elim!: wp_mono)
next
  case DiscardOldest
  obtain old where p: "p = old @ evict (ring_size r) (2 + length d) p" using evict_suffix by blast
  then have "evict (ring_size r) (2 + length d) p = drop (length old) p" by (metis append_eq_conv_conj)
  then show ?thesis
    using wp_ring_push_overwriting [OF assms, of d] DiscardOldest
    by (auto simp: ring_enqueue_def elim!: wp_mono)
qed

text \<open>
  An item that is longer than the scratch buffer stops the draining without an error: the answer is
  the one of an empty ring, and nothing is drained.
\<close>

lemma drain_stops_at_long_item:
  assumes "ring_repr (ram b) (d # p)" "length (data_buffer (queue_storage b)) < length d"
  shows "wp (drain_one F allow) (\<lambda>drained t. \<not> drained \<and> t = b) no_err b"
    and "wp (drain_all F allow) (\<lambda>_ t. t = b) no_err b"
proof -
  have "wp (ring_peek_into (length (data_buffer (queue_storage b)))) (\<lambda>found r. found = None \<and> r = ram b) no_err (ram b)"
    by (rule wp_mono [OF wp_ring_peek_into [OF assms(1)]]) (use assms(2) in simp_all)
  then have "wp peek_ram_into_buffer (\<lambda>found t. found = None \<and> t = b) no_err b"
    unfolding peek_ram_into_buffer_def by (auto elim!: wp_mono)
  then show one: "wp (drain_one F allow) (\<lambda>drained t. \<not> drained \<and> t = b) no_err b"
    unfolding drain_one_def wp_bnd by (rule wp_mono) auto
  show "wp (drain_all F allow) (\<lambda>_ t. t = b) no_err b"
    unfolding drain_all_def drain_rounds.simps wp_bnd wp_gets by (rule wp_mono [OF one]) auto
qed

end
