(* ===== verification/SharedRamRing.thy ===== *)
theory SharedRamRing
  imports BufferedQueue
begin

text \<open>
  \<open>SharedRamRing\<close> of \<open>src/src/queue/buffered.rs\<close>: the ring behind a critical-section mutex, with a
  signal that wakes the task that drains it. An interrupt handler enqueues at any point between two
  critical sections of the task, so what the task does is modelled twice: as the functions of the
  code, run without interruption, and as a step relation whose steps are the critical sections and
  the flash operation between them, interleaved with the steps of the producer.

  The mutex runs its closure alone, so a closure is one step. The signal belongs to
  \<open>embassy-sync\<close>: it is a parameter, a record of what \<open>signal(())\<close> does to its state and of
  the state in which \<open>wait()\<close> returns, if it does.
\<close>

section \<open>The state\<close>

record 'w signal_ops =
  signal_set :: "'w \<Rightarrow> 'w"
  signal_take :: "'w \<Rightarrow> 'w option"

text \<open>The ring, the storage that the task lends to the calls, and the signal.\<close>

record ('s, 'k, 'w) shared =
  buffered :: "('s, 'k) buffered_queue"
  signal :: 'w

type_synonym ('s, 'k, 'w, 'e, 'a) shared_m = "(('s, 'k, 'w) shared, 'e, 'a) m"

definition shared_new :: "nat \<Rightarrow> ('s, 'k) storage \<Rightarrow> 'w \<Rightarrow> ('s, 'k, 'w) shared" where
  "shared_new N s w = \<lparr> buffered = buffered_queue_new N s, signal = w \<rparr>"

definition on_buffered :: "('s, 'k, 'e, 'a) buffered_m \<Rightarrow> ('s, 'k, 'w, 'e, 'a) shared_m" where
  "on_buffered = zoom buffered (\<lambda>b sh. sh\<lparr> buffered := b \<rparr>)"

text \<open>\<open>self.ring.lock\<close>: one critical section on the ring.\<close>

definition lock_ring :: "('e, 'a) ring_m \<Rightarrow> ('s, 'k, 'w, 'e, 'a) shared_m" where
  "lock_ring x = on_buffered (on_ram x)"

definition with_queue :: "(('s, 'k) storage, 'e, 'a) m \<Rightarrow> ('s, 'k, 'w, 'e, 'a) shared_m" where
  "with_queue x = on_buffered (on_storage x)"

lemma wp_on_buffered [wp_simps, simp]:
  "wp (on_buffered x) Q E sh = wp x (\<lambda>a b. Q a (sh\<lparr> buffered := b \<rparr>)) (\<lambda>e b. E e (sh\<lparr> buffered := b \<rparr>)) (buffered sh)"
  by (simp add: on_buffered_def)

section \<open>Producing\<close>

definition shared_enqueue ::
  "'w signal_ops \<Rightarrow> u8 list \<Rightarrow> overflow_policy \<Rightarrow> ('s, 'k, 'w, unit, unit) shared_m"
where
  "shared_enqueue SG data policy =
     bnd (attempt (lock_ring (ring_enqueue data policy))) (\<lambda>result. case result of
       Inr _ \<Rightarrow> sq (modify (\<lambda>sh. sh\<lparr> signal := signal_set SG (signal sh) \<rparr>)) (ret ())
     | Inl e \<Rightarrow> fail e)"

section \<open>Draining and reading, without interruption\<close>

text \<open>Waiting for a signal that never comes does not end.\<close>

definition shared_wait :: "'w signal_ops \<Rightarrow> ('s, 'k, 'w, 'e, unit) shared_m" where
  "shared_wait SG = bnd (gets (\<lambda>sh. signal_take SG (signal sh))) (\<lambda>taken. case taken of
     Some w \<Rightarrow> modify (\<lambda>sh. sh\<lparr> signal := w \<rparr>)
   | None \<Rightarrow> diverge)"

text \<open>The three parts of \<open>drain_one\<close>: what comes before, during and after the flash write.\<close>

definition drain_peek :: "('s, 'k, 'w, 'e, nat option) shared_m" where
  "drain_peek = on_buffered peek_ram_into_buffer"

definition drain_push ::
  "('s, 'e) nor_flash \<Rightarrow> bool \<Rightarrow> nat \<Rightarrow> ('s, 'k, 'w, 'e error, unit) shared_m"
where
  "drain_push F allow_overwrite len =
     bnd (on_buffered (buffer_prefix len)) (\<lambda>data. with_queue (push F data allow_overwrite))"

definition drain_discard :: "('s, 'k, 'w, 'e, unit) shared_m" where
  "drain_discard = lock_ring ring_discard_oldest"

definition shared_drain_one ::
  "('s, 'e) nor_flash \<Rightarrow> bool \<Rightarrow> ('s, 'k, 'w, 'e error, bool) shared_m"
where
  "shared_drain_one F allow_overwrite =
     bnd drain_peek (\<lambda>found. case found of
       None \<Rightarrow> ret False
     | Some len \<Rightarrow> sq (drain_push F allow_overwrite len) (sq drain_discard (ret True)))"

primrec shared_drain_rounds ::
  "('s, 'e) nor_flash \<Rightarrow> bool \<Rightarrow> nat \<Rightarrow> ('s, 'k, 'w, 'e error, unit) shared_m"
where
  "shared_drain_rounds F allow_overwrite 0 = diverge"
| "shared_drain_rounds F allow_overwrite (Suc fuel) =
     bnd (shared_drain_one F allow_overwrite) (\<lambda>drained.
       if drained then shared_drain_rounds F allow_overwrite fuel else ret ())"

definition shared_pending_count :: "('s, 'k, 'w) shared \<Rightarrow> nat" where
  "shared_pending_count sh = ring_len (ram (buffered sh))"

definition shared_drain_all :: "('s, 'e) nor_flash \<Rightarrow> bool \<Rightarrow> ('s, 'k, 'w, 'e error, unit) shared_m" where
  "shared_drain_all F allow_overwrite =
     bnd (gets shared_pending_count) (\<lambda>n. shared_drain_rounds F allow_overwrite (Suc n))"

definition wait_and_drain_all ::
  "('s, 'e) nor_flash \<Rightarrow> 'w signal_ops \<Rightarrow> bool \<Rightarrow> ('s, 'k, 'w, 'e error, unit) shared_m"
where
  "wait_and_drain_all F SG allow_overwrite = sq (shared_wait SG) (shared_drain_all F allow_overwrite)"

definition shared_pop ::
  "('s, 'e) nor_flash \<Rightarrow> bool \<Rightarrow> ('s, 'k, 'w, 'e error, u8 list option) shared_m"
where
  "shared_pop F allow_overwrite =
     bnd (gets shared_pending_count) (\<lambda>n.
     sq (if n > 0 then shared_drain_all F allow_overwrite else ret ())
        (with_queue (pop F)))"

definition shared_peek ::
  "('s, 'e) nor_flash \<Rightarrow> bool \<Rightarrow> ('s, 'k, 'w, 'e error, u8 list option) shared_m"
where
  "shared_peek F allow_overwrite =
     bnd (gets shared_pending_count) (\<lambda>n.
     sq (if n > 0 then shared_drain_all F allow_overwrite else ret ())
        (with_queue (peek F)))"

definition shared_capacity_bytes :: "('s, 'k, 'w) shared \<Rightarrow> nat" where
  "shared_capacity_bytes sh = ring_size (ram (buffered sh))"

definition shared_free_bytes :: "('s, 'k, 'w, 'e, nat) shared_m" where
  "shared_free_bytes =
     bnd (gets shared_capacity_bytes) (\<lambda>n.
     bnd (gets (\<lambda>sh. ring_bytes_used (ram (buffered sh)))) (checked_minus n))"

definition oldest_ram_item_len :: "('s, 'k, 'w, 'e, nat option) shared_m" where
  "oldest_ram_item_len = lock_ring ring_oldest_len"

section \<open>Interleavings\<close>

text \<open>
  Where the task is in \<open>drain_one\<close>; \<open>drain_all\<close> starts over after every item, and
  the task may call again after an error. A label says what
  happened: an enqueue and whether it was accepted, or a step of the task.
\<close>

datatype 'e drain_point =
    At_Peek
  | At_Push nat
  | At_Discard
  | Drained bool
  | Drain_Failed "'e error"

datatype label = Enqueued "u8 list" overflow_policy bool | Task

inductive shared_step ::
  "('s, 'e) nor_flash \<Rightarrow> 'w signal_ops \<Rightarrow> bool \<Rightarrow> 'e drain_point \<times> ('s, 'k, 'w) shared \<Rightarrow> label
    \<Rightarrow> 'e drain_point \<times> ('s, 'k, 'w) shared \<Rightarrow> bool"
  for F SG allow
where
  accepted: "shared_enqueue SG d policy sh = (Ok (), sh') \<Longrightarrow>
    shared_step F SG allow (p, sh) (Enqueued d policy True) (p, sh')"
| rejected: "shared_enqueue SG d policy sh = (Err e, sh') \<Longrightarrow>
    shared_step F SG allow (p, sh) (Enqueued d policy False) (p, sh')"
| peek_none: "(drain_peek :: ('s, 'k, 'w, 'e error, nat option) shared_m) sh = (Ok None, sh') \<Longrightarrow>
    shared_step F SG allow (At_Peek, sh) Task (Drained False, sh')"
| peek_some: "(drain_peek :: ('s, 'k, 'w, 'e error, nat option) shared_m) sh = (Ok (Some len), sh') \<Longrightarrow>
    shared_step F SG allow (At_Peek, sh) Task (At_Push len, sh')"
| push_ok: "drain_push F allow len sh = (Ok (), sh') \<Longrightarrow>
    shared_step F SG allow (At_Push len, sh) Task (At_Discard, sh')"
| push_err: "drain_push F allow len sh = (Err e, sh') \<Longrightarrow>
    shared_step F SG allow (At_Push len, sh) Task (Drain_Failed e, sh')"
| discard: "(drain_discard :: ('s, 'k, 'w, 'e error, unit) shared_m) sh = (Ok (), sh') \<Longrightarrow>
    shared_step F SG allow (At_Discard, sh) Task (Drained True, sh')"
| again: "shared_step F SG allow (Drained drained, sh) Task (At_Peek, sh)"
| retry: "shared_step F SG allow (Drain_Failed e, sh) Task (At_Peek, sh)"

inductive_cases enqueued_stepE: "shared_step F SG allow (p, sh) (Enqueued d policy ok) c"
inductive_cases task_stepE: "shared_step F SG allow (p, sh) Task c"

inductive shared_run ::
  "('s, 'e) nor_flash \<Rightarrow> 'w signal_ops \<Rightarrow> bool \<Rightarrow> 'e drain_point \<times> ('s, 'k, 'w) shared \<Rightarrow> label list
    \<Rightarrow> 'e drain_point \<times> ('s, 'k, 'w) shared \<Rightarrow> bool"
  for F SG allow
where
  run_nil: "shared_run F SG allow c [] c"
| run_cons: "shared_step F SG allow c l c' \<Longrightarrow> shared_run F SG allow c' ls c'' \<Longrightarrow>
    shared_run F SG allow c (l # ls) c''"

section \<open>Without interruption the two queues drain alike\<close>

lemma zoom_bnd:
  assumes "\<And>s t. get (put s t) = s" "\<And>s s' t. put s' (put s t) = put s' t"
  shows "zoom get put (bnd x f) = bnd (zoom get put x) (\<lambda>a. zoom get put (f a))"
  using assms by (auto simp: zoom_def bnd_def fun_eq_iff split: prod.splits outcome.splits)

lemma on_buffered_bnd:
  "on_buffered (bnd x f) = bnd (on_buffered x) (\<lambda>a. on_buffered (f a))"
  "on_buffered (sq x y) = sq (on_buffered x) (on_buffered y)"
  unfolding on_buffered_def sq_def by (rule zoom_bnd; simp)+

lemma on_buffered_ret: "on_buffered (ret a) = ret a" "on_buffered diverge = diverge"
  by (simp_all add: on_buffered_def zoom_def ret_def diverge_def fun_eq_iff)

lemma bnd_assoc: "bnd (bnd x f) g = bnd x (\<lambda>a. bnd (f a) g)"
  by (auto simp: bnd_def fun_eq_iff split: prod.splits outcome.splits)

lemma sq_bnd_assoc: "sq (bnd x f) y = bnd x (\<lambda>a. sq (f a) y)"
  by (simp add: sq_def bnd_assoc)

lemma drain_cases_buffered:
  "(case found of None \<Rightarrow> ret False | Some len \<Rightarrow> sq (drain_push F allow len) (sq drain_discard (ret True)))
    = on_buffered (case found of None \<Rightarrow> ret False | Some len \<Rightarrow>
        bnd (buffer_prefix len) (\<lambda>data. sq (on_storage (push F data allow)) (sq (on_ram ring_discard_oldest) (ret True))))"
  by (cases found) (simp_all add: on_buffered_bnd on_buffered_ret drain_push_def drain_discard_def
      lock_ring_def with_queue_def sq_bnd_assoc)

lemma shared_drain_one_buffered: "shared_drain_one F allow = on_buffered (drain_one F allow)"
  by (simp add: shared_drain_one_def drain_one_def drain_peek_def on_buffered_bnd drain_cases_buffered)

lemma shared_drain_rounds_buffered: "shared_drain_rounds F allow n = on_buffered (drain_rounds F allow n)"
  by (induction n) (simp_all add: shared_drain_one_buffered on_buffered_bnd on_buffered_ret
      if_distrib [of on_buffered] cong: if_cong)

lemma shared_drain_all_buffered: "shared_drain_all F allow = on_buffered (drain_all F allow)"
  unfolding shared_drain_all_def drain_all_def shared_drain_rounds_buffered
  by (simp add: shared_pending_count_def on_buffered_def zoom_def gets_def bnd_def fun_eq_iff
      del: drain_rounds.simps split: prod.splits)

section \<open>What interleaved runs keep\<close>

text \<open>The items that a run accepted, in their order.\<close>

definition accepted_items :: "label list \<Rightarrow> u8 list list" where
  "accepted_items ls = concat (map (\<lambda>l. case l of Enqueued d _ ok \<Rightarrow> if ok then [d] else [] | Task \<Rightarrow> []) ls)"

definition never_discards :: "label \<Rightarrow> bool" where
  "never_discards l \<longleftrightarrow> (\<forall>d policy ok. l = Enqueued d policy ok \<longrightarrow> policy = Overflow_Err)"

text \<open>
  The items in the queue at a point of a run: between the flash write and the discard, the first
  item of the ring is the last one on flash and counts once.
\<close>

fun point_tracks :: "'e drain_point \<Rightarrow> u8 list \<Rightarrow> u8 list list \<Rightarrow> u8 list list \<Rightarrow> u8 list list \<Rightarrow> bool" where
  "point_tracks (At_Push len) buffer q r items \<longleftrightarrow> r \<noteq> [] \<and> take len buffer = hd r \<and> items = q @ r"
| "point_tracks At_Discard buffer q r items \<longleftrightarrow> r \<noteq> [] \<and> q \<noteq> [] \<and> last q = hd r \<and> items = q @ tl r"
| "point_tracks _ buffer q r items \<longleftrightarrow> items = q @ r"

lemma point_tracks_enqueue:
  "point_tracks p buffer q r items \<Longrightarrow> point_tracks p buffer q (r @ [d]) (items @ [d])"
  by (cases p) auto

context fifo_storage
begin

definition tracks :: "'e drain_point \<times> ('s, 'k, 'w) shared \<Rightarrow> u8 list list \<Rightarrow> bool" where
  "tracks c items \<longleftrightarrow> (\<exists>q r. holds_items (buffered (snd c)) q r
     \<and> point_tracks (fst c) (data_buffer (queue_storage (buffered (snd c)))) q r items)"

lemma tracksI:
  "holds_items (buffered sh) q r \<Longrightarrow> point_tracks p (data_buffer (queue_storage (buffered sh))) q r items
    \<Longrightarrow> tracks (p, sh) items"
  by (auto simp: tracks_def)

lemma tracksE:
  assumes "tracks (p, sh) items"
  obtains q r where "holds_items (buffered sh) q r"
    "point_tracks p (data_buffer (queue_storage (buffered sh))) q r items"
  using assms by (auto simp: tracks_def)

lemma enqueue_run:
  assumes "holds_items (buffered sh) q r"
  shows "wp (shared_enqueue SG d policy)
    (\<lambda>_ sh'. queue_storage (buffered sh') = queue_storage (buffered sh)
      \<and> (\<exists>j. (j = 0 \<or> policy = DiscardOldest) \<and> holds_items (buffered sh') q (drop j r @ [d])))
    (\<lambda>_ sh'. sh' = sh) sh"
proof -
  have ring: "ring_repr (ram (buffered sh)) r" and repr: "repr (queue_storage (buffered sh)) q"
    using assms by (simp_all add: buffered_repr_def)
  show ?thesis
    unfolding shared_enqueue_def lock_ring_def wp_bnd wp_attempt wp_on_buffered wp_on_ram
    by (rule wp_mono [OF wp_ring_enqueue [OF ring, of d policy]])
      (use repr in \<open>auto simp: buffered_repr_def\<close>)
qed

lemma tracks_enqueue:
  assumes "tracks (p, sh) items" "shared_enqueue SG d Overflow_Err sh = (Ok (), sh')"
  shows "tracks (p, sh') (items @ [d])"
proof -
  obtain q r where h: "holds_items (buffered sh) q r"
    and c: "point_tracks p (data_buffer (queue_storage (buffered sh))) q r items"
    using assms(1) by (rule tracksE)
  have "holds_items (buffered sh') q (r @ [d])" "queue_storage (buffered sh') = queue_storage (buffered sh)"
    using wp_run_D(1) [OF enqueue_run [OF h] assms(2)] by auto
  then show ?thesis using point_tracks_enqueue [OF c] by (intro tracksI) simp_all
qed

lemma tracks_task:
  assumes "tracks (p, sh) items" "shared_step F SG False (p, sh) Task c'"
  shows "tracks c' items"
proof -
  obtain q r where h: "holds_items (buffered sh) q r"
    and c: "point_tracks p (data_buffer (queue_storage (buffered sh))) q r items"
    using assms(1) by (rule tracksE)
  have ring: "ring_repr (ram (buffered sh)) r" and repr: "repr (queue_storage (buffered sh)) q"
    using h by (simp_all add: buffered_repr_def)
  from wp_peek_ram_into_buffer [OF ring]
  have peek: "wp drain_peek (\<lambda>found sh'. holds_items (buffered sh') q r
      \<and> (\<forall>len. found = Some len \<longrightarrow> r \<noteq> [] \<and> take len (data_buffer (queue_storage (buffered sh'))) = hd r)) no_err sh"
    unfolding drain_peek_def wp_on_buffered
    by (rule wp_mono) (use repr ring in \<open>auto simp: buffered_repr_def repr_buffer split: list.splits if_splits\<close>)
  have push: "wp (drain_push F False len) (\<lambda>_ sh'. holds_items (buffered sh') (q @ [hd r]) r)
      (\<lambda>e sh'. holds_items (buffered sh') q r) sh"
    if "take len (data_buffer (queue_storage (buffered sh))) = hd r" for len
    unfolding drain_push_def with_queue_def buffer_prefix_def wp_bnd wp_on_buffered wp_gets wp_on_storage that
    by simp (rule wp_mono [OF push_law [OF repr, of "hd r" False]]; use ring that in \<open>auto simp: buffered_repr_def\<close>)
  have discard: "wp drain_discard (\<lambda>_ sh'. holds_items (buffered sh') q (tl r)) no_err sh"
    unfolding drain_discard_def lock_ring_def wp_on_buffered wp_on_ram
    by (rule wp_mono [OF wp_ring_discard_oldest [OF ring]]) (use repr in \<open>auto simp: buffered_repr_def\<close>)
  from assms(2) show ?thesis
  proof (rule task_stepE, goal_cases)
    case (1 sh')
    then show ?case using wp_run_D(1) [OF peek 1(3)] c by (auto intro: tracksI)
  next
    case (2 len sh')
    then show ?case using wp_run_D(1) [OF peek 2(3)] c by (auto intro: tracksI)
  next
    case (3 len sh')
    then have "holds_items (buffered sh') (q @ [hd r]) r" using wp_run_D(1) [OF push 3(3)] c by simp
    then show ?case using c 3 by (auto intro: tracksI)
  next
    case (4 len e sh')
    then show ?case using wp_run_D(2) [OF push 4(3)] c by (auto intro: tracksI)
  next
    case (5 sh')
    then show ?case using wp_run_D(1) [OF discard 5(3)] c by (auto intro: tracksI)
  qed (use c h in \<open>auto intro: tracksI\<close>)
qed

lemma run_keeps_items:
  assumes "shared_run F SG False c ls c'" "tracks c items" "\<forall>l \<in> set ls. never_discards l"
  shows "tracks c' (items @ accepted_items ls)"
  using assms
proof (induction arbitrary: items rule: shared_run.induct)
  case (run_cons c l c1 ls c')
  obtain p sh where pair: "c = (p, sh)" by (cases c)
  have "tracks c1 (items @ accepted_items [l])"
  proof (cases l)
    case (Enqueued d policy ok)
    have "policy = Overflow_Err" using run_cons.prems(2) Enqueued by (simp add: never_discards_def)
    then have "shared_step F SG False (p, sh) (Enqueued d Overflow_Err ok) c1"
      using run_cons.hyps(1) Enqueued pair by simp
    then show ?thesis
    proof (rule enqueued_stepE, goal_cases)
      case (1 sh')
      then show ?case using tracks_enqueue run_cons.prems(1) pair Enqueued by (simp add: accepted_items_def)
    next
      case (2 sh')
      obtain q r where "holds_items (buffered sh) q r" using run_cons.prems(1) pair by (auto elim: tracksE)
      from wp_run_D(2) [OF enqueue_run [OF this] 2(3)] have "sh' = sh" by simp
      then show ?case using 2 run_cons.prems(1) pair Enqueued by (simp add: accepted_items_def)
    qed
  next
    case Task
    then show ?thesis using tracks_task run_cons.hyps(1) run_cons.prems(1) pair by (simp add: accepted_items_def)
  qed
  then have "tracks c' ((items @ accepted_items [l]) @ accepted_items ls)"
    by (rule run_cons.IH) (use run_cons.prems(2) in simp)
  then show ?case by (simp add: accepted_items_def)
qed (simp add: accepted_items_def)

text \<open>
  With the other policy an item can get lost: the producer evicts the item that the task is writing
  to flash, and the task then discards the new one.
\<close>

lemma race_loses_item:
  fixes sh :: "('s, 'k, 'w) shared"
  assumes h: "holds_items (buffered sh) [] [d1]" and fits: "length d1 \<le> length (data_buffer (queue_storage (buffered sh)))"
    and small: "\<not> item_too_big F (length d1)" and d2: "length d2 \<le> u16_MAX"
    and room: "2 + length d2 \<le> ring_size (ram (buffered sh))"
      "ring_size (ram (buffered sh)) < 2 + length d1 + (2 + length d2)"
  shows "\<exists>sh'. shared_run F SG True (At_Peek, sh) [Task, Enqueued d2 DiscardOldest True, Task, Task] (Drained True, sh')
    \<and> holds_items (buffered sh') [d1] []"
proof -
  have ring: "ring_repr (ram (buffered sh)) [d1]" and repr: "repr (queue_storage (buffered sh)) []"
    using h by (simp_all add: buffered_repr_def)
  have "wp (drain_peek :: ('s, 'k, 'w, 'e error, nat option) shared_m) (\<lambda>found sh1. found = Some (length d1)
      \<and> ram (buffered sh1) = ram (buffered sh) \<and> repr (queue_storage (buffered sh1)) []
      \<and> take (length d1) (data_buffer (queue_storage (buffered sh1))) = d1) no_err sh"
    unfolding drain_peek_def wp_on_buffered
    by (rule wp_mono [OF wp_peek_ram_into_buffer [OF ring]]) (use fits repr in \<open>auto simp: repr_buffer\<close>)
  then obtain sh1 where s1: "(drain_peek :: ('s, 'k, 'w, 'e error, nat option) shared_m) sh = (Ok (Some (length d1)), sh1)"
    "ram (buffered sh1) = ram (buffered sh)" "repr (queue_storage (buffered sh1)) []"
    "take (length d1) (data_buffer (queue_storage (buffered sh1))) = d1"
    by (auto dest!: wp_Ok_D)
  have evicted: "evict (ring_size (ram (buffered sh))) (2 + length d2) [d1] = []"
    using room(2) by (simp add: items_size_def)
  have "wp (ring_push_overwriting d2) (\<lambda>_ r. ring_repr r [d2]) no_err (ram (buffered sh))"
    by (rule wp_mono [OF wp_ring_push_overwriting [OF ring]]) (use evicted d2 room(1) in auto)
  then have "wp (shared_enqueue SG d2 DiscardOldest) (\<lambda>_ sh2. ring_repr (ram (buffered sh2)) [d2]
      \<and> queue_storage (buffered sh2) = queue_storage (buffered sh1)) no_err sh1"
    using s1(2) by (auto simp: shared_enqueue_def lock_ring_def ring_enqueue_def elim!: wp_mono)
  then obtain sh2 where s2: "shared_enqueue SG d2 DiscardOldest sh1 = (Ok (), sh2)"
    "ring_repr (ram (buffered sh2)) [d2]" "queue_storage (buffered sh2) = queue_storage (buffered sh1)"
    by (auto dest!: wp_Ok_D)
  have "repr (queue_storage (buffered sh2)) []" using s1(3) s2(3) by simp
  from push_law [OF this, of d1 True]
  have "wp (drain_push F True (length d1)) (\<lambda>_ sh3. repr (queue_storage (buffered sh3)) [d1]
      \<and> ring_repr (ram (buffered sh3)) [d2]) no_err sh2"
    using s1(4) s2(2,3) small
    by (auto simp: drain_push_def with_queue_def buffer_prefix_def elim!: wp_mono)
  then obtain sh3 where s3: "drain_push F True (length d1) sh2 = (Ok (), sh3)"
    "repr (queue_storage (buffered sh3)) [d1]" "ring_repr (ram (buffered sh3)) [d2]"
    by (auto dest!: wp_Ok_D)
  have "wp (drain_discard :: ('s, 'k, 'w, 'e error, unit) shared_m) (\<lambda>_ sh4. holds_items (buffered sh4) [d1] []) no_err sh3"
    unfolding drain_discard_def lock_ring_def wp_on_buffered wp_on_ram
    by (rule wp_mono [OF wp_ring_discard_oldest [OF s3(3)]]) (use s3(2) in \<open>auto simp: buffered_repr_def\<close>)
  then obtain sh4 where s4: "(drain_discard :: ('s, 'k, 'w, 'e error, unit) shared_m) sh3 = (Ok (), sh4)"
    "holds_items (buffered sh4) [d1] []"
    by (auto dest!: wp_Ok_D)
  have "shared_run F SG True (At_Peek, sh) [Task, Enqueued d2 DiscardOldest True, Task, Task] (Drained True, sh4)"
    using s1(1) s2(1) s3(1) s4(1) by (blast intro: shared_step.intros shared_run.intros)
  then show ?thesis using s4(2) by blast
qed

end

end
