(* ===== verification/QueueStore.thy ===== *)
theory QueueStore
  imports QueueFifo SharedRamRing
begin

text \<open>
  The composition: the queue on flash meets the contract \<open>fifo_storage\<close> that the queues with a ring in
  RAM rely on, so that what \<open>BufferedQueue\<close> and \<open>SharedRamRing\<close> prove under the contract holds of
  the crate. The theorems on the public operations of both follow.
\<close>

section \<open>The queue on flash meets the contract\<close>

locale queue_store = multiwrite_nor_flash +
  fixes r :: flash_range
  assumes config: "queue_config_try_new F r = Ok (Some r)"
    and header_fits: "header_slice_len F \<le> calculate_page_size F"

abbreviation buffer_fits :: "('s, 'e) nor_flash \<Rightarrow> nat \<Rightarrow> u8 list \<Rightarrow> bool" where
  "buffer_fits F n d \<equiv> round_up_to_alignment F (length d) \<le> n"

sublocale queue_store \<subseteq> fifo_storage F "queue_repr F inv mem r" "buffer_fits F"
proof
  note c = queue_config_ok [OF config]
  fix s :: "('a, 'k) storage" and q d allow
  assume s: "queue_repr F inv mem r s q"
  show "wp (push F d allow)
      (\<lambda>_ t. (\<exists>j. (j = 0 \<or> allow) \<and> queue_repr F inv mem r t (drop j q @ [d])) \<and> data_buffer t = data_buffer s)
      (\<lambda>e t. (e = ItemTooBig \<and> item_too_big F (length d) \<or> e = FullStorage \<and> \<not> allow)
        \<and> queue_repr F inv mem r t q \<and> data_buffer t = data_buffer s) s"
    by (rule wp_mono [OF wp_push [OF _ header_fits s]]) (use c in auto)
next
  note c = queue_config_ok [OF config]
  fix s :: "('a, 'k) storage" and q
  assume s: "queue_repr F inv mem r s q" and fits: "q = [] \<or> buffer_fits F (length (data_buffer s)) (hd q)"
  show "wp (pop F) (\<lambda>a t. queue_repr F inv mem r t (tl q) \<and> length (data_buffer t) = length (data_buffer s)
      \<and> (case q of [] \<Rightarrow> a = None | d # _ \<Rightarrow> a = Some d \<and> take (length d) (data_buffer t) = d)) no_err s"
    by (rule wp_mono [OF wp_pop [OF _ s]]) (use c fits in \<open>auto split: list.splits\<close>)
  show "wp (peek F) (\<lambda>a t. queue_repr F inv mem r t q \<and> length (data_buffer t) = length (data_buffer s)
      \<and> (case q of [] \<Rightarrow> a = None | d # _ \<Rightarrow> a = Some d \<and> take (length d) (data_buffer t) = d)) no_err s"
    by (rule wp_mono [OF wp_peek [OF _ s]]) (use c fits in \<open>auto split: list.splits\<close>)
next
  fix n d assume "buffer_fits F n d"
  then show "length d \<le> n" using round_up_ge [of "length d" F] by linarith
qed (simp add: queue_repr_def flash_holds_def)

text \<open>The mock flash, with the example's pages.\<close>

interpretation example: queue_store example_flash "mock_ok 4" mdata example_range
  by (intro queue_store.intro queue_store_axioms.intro example_driver example_config)

context queue_store
begin

lemma is_fifo: "fifo_storage F (queue_repr F inv mem r) (buffer_fits F)"
  by (rule fifo_storage_axioms)

end

lemma queue_fifo:
  assumes "multiwrite_nor_flash F ok chip" "queue_config_try_new F r = Ok (Some r)"
    and "header_slice_len F \<le> calculate_page_size F"
  shows "fifo_storage F (queue_repr F ok chip r) (buffer_fits F)"
  using assms by (intro queue_store.is_fifo queue_store.intro queue_store_axioms.intro)

section \<open>An example with items in flash and in the ring\<close>

definition used_buffered :: "(mock_flash, unit) buffered_queue" where
  "used_buffered = \<lparr> queue_storage = used_storage (PagePointerCache_new 2), ram = used_ring \<rparr>"

abbreviation example_repr :: "(mock_flash, unit) storage \<Rightarrow> u8 list list \<Rightarrow> bool" where
  "example_repr \<equiv> queue_repr example_flash (mock_ok 4) mdata example_range"

lemma used_buffered_items: "buffered_repr example_repr used_buffered [[1, 2], [3]] [[3], [4, 5]]"
  using used_queue_new used_ring_items by (simp add: buffered_repr_def used_buffered_def)

section \<open>The buffered queue\<close>

text \<open>
  C19: \<open>drain_all\<close> ends. When it succeeds the ring is empty and all its items are on flash, in their
  order and after those that were there; items are lost, the oldest ones, only if overwriting was
  allowed. When it fails, it is because an item is too big or the flash full, and the items that were
  not drained are still in the ring.
\<close>

theorem drain_all_empties_ring:
  assumes "multiwrite_nor_flash F ok chip" "queue_config_try_new F r = Ok (Some r)"
    and "header_slice_len F \<le> calculate_page_size F" "buffered_repr (queue_repr F ok chip r) b q p"
    and "\<forall>d \<in> set p. length d \<le> length (data_buffer (queue_storage b))"
  shows "wp (drain_all F allow)
    (\<lambda>_ t. \<exists>j. (j = 0 \<or> allow) \<and> buffered_repr (queue_repr F ok chip r) t (drop j (q @ p)) [])
    (\<lambda>e t. (e = ItemTooBig \<or> e = FullStorage \<and> \<not> allow)
      \<and> (\<exists>q' p' j. (j = 0 \<or> allow) \<and> buffered_repr (queue_repr F ok chip r) t q' p'
        \<and> q' @ p' = drop j (q @ p) \<and> p' \<noteq> [])) b"
  by (rule fifo_storage.wp_drain_all [OF queue_fifo [OF assms(1-3)] assms(4,5)])

lemma drain_all_empties_ring_witness:
  "wp (drain_all example_flash False)
    (\<lambda>_ t. buffered_repr example_repr t [[1, 2], [3], [3], [4, 5]] [])
    (\<lambda>e t. e = ItemTooBig \<or> e = FullStorage) used_buffered"
  by (rule wp_mono [OF drain_all_empties_ring [OF example_driver example_config used_buffered_items]])
    (auto simp: used_buffered_def)

text \<open>
  C20: \<open>pop\<close> and \<open>peek\<close> of the buffered queue see one queue, the items on flash and then those in the
  ring: \<open>pop\<close> takes the oldest of all. Neither fails when the caller's buffer is long enough for it.
\<close>

theorem buffered_pop_takes_oldest:
  assumes "multiwrite_nor_flash F ok chip" "queue_config_try_new F r = Ok (Some r)"
    and "header_slice_len F \<le> calculate_page_size F" "buffered_repr (queue_repr F ok chip r) b q p"
    and "\<forall>d \<in> set (q @ p). round_up_to_alignment F (length d) \<le> length (data_buffer (queue_storage b))"
  shows "wp (buffered_pop F) (\<lambda>a t. a = (case q @ p of [] \<Rightarrow> None | d # _ \<Rightarrow> Some d)
      \<and> buffered_repr (queue_repr F ok chip r) t (tl q) (if q = [] then tl p else p)) no_err b
    \<and> wp (buffered_peek F) (\<lambda>a t. a = (case q @ p of [] \<Rightarrow> None | d # _ \<Rightarrow> Some d)
      \<and> buffered_repr (queue_repr F ok chip r) t q p) no_err b"
proof -
  note fifo = queue_fifo [OF assms(1-3)]
  have fits: "fifo_storage.oldest_fits (buffer_fits F) b q p"
    using assms(5) round_up_ge [of "length (hd p)" F]
    by (cases q; cases p) (auto simp: fifo_storage.oldest_fits_def [OF fifo] intro: le_trans)
  show ?thesis
    using fifo_storage.wp_buffered_pop [OF fifo assms(4) fits] fifo_storage.wp_buffered_peek [OF fifo assms(4) fits]
    by (rule conjI)
qed

lemma buffered_pop_takes_oldest_witness:
  "wp (buffered_pop example_flash) (\<lambda>a t. a = Some [1, 2]
      \<and> buffered_repr example_repr t [[3]] [[3], [4, 5]]) no_err used_buffered"
  using buffered_pop_takes_oldest [OF example_driver example_config used_buffered_items]
  by (simp add: used_buffered_def)

section \<open>The shared ring\<close>

text \<open>
  Run without interruption, \<open>drain_all\<close> of the shared ring is \<open>drain_all\<close> of the buffered
  queue: it does the same, step for step, to the storage and to the ring.
\<close>

theorem shared_drains_like_buffered:
  "shared_drain_all F allow = on_buffered (drain_all F allow)"
  by (rule shared_drain_all_buffered)

text \<open>
  C21: a producer may enqueue, from an interrupt, between any two steps of the task that drains the
  ring. As long as it asks for an error on overflow and the task does not overwrite, no accepted
  item is lost, duplicated or reordered at any point of any run, errors of the task included.
\<close>

theorem shared_ring_loses_nothing:
  fixes F :: "('s, 'e) nor_flash"
  assumes "multiwrite_nor_flash F ok chip" "queue_config_try_new F r = Ok (Some r)"
    and "header_slice_len F \<le> calculate_page_size F" "buffered_repr (queue_repr F ok chip r) (buffered sh) q p"
    and "shared_run F SG False (At_Peek, sh) ls (point, sh')" "\<forall>l \<in> set ls. never_discards l"
  shows "\<exists>q' p'. buffered_repr (queue_repr F ok chip r) (buffered sh') q' p'
    \<and> point_tracks point (data_buffer (queue_storage (buffered sh'))) q' p' (q @ p @ accepted_items ls)"
proof -
  note fifo = queue_fifo [OF assms(1-3)]
  have "fifo_storage.tracks (queue_repr F ok chip r) (At_Peek :: 'e drain_point, sh) (q @ p)"
    by (rule fifo_storage.tracksI [OF fifo assms(4)]) simp
  from fifo_storage.run_keeps_items [OF fifo assms(5) this assms(6)]
  have "fifo_storage.tracks (queue_repr F ok chip r) (point, sh') (q @ p @ accepted_items ls)" by simp
  then show ?thesis by (rule fifo_storage.tracksE [OF fifo]) blast
qed

text \<open>A signal that counts nothing, as of a wake-up that is pending or not.\<close>

definition example_signal :: "bool signal_ops" where
  "example_signal = \<lparr> signal_set = (\<lambda>_. True), signal_take = (\<lambda>w. if w then Some False else None) \<rparr>"

definition used_shared :: "nat \<Rightarrow> (mock_flash, unit, bool) shared" where
  "used_shared n = \<lparr> buffered = \<lparr> queue_storage = used_storage (PagePointerCache_new 2), ram = ram_ring_new n \<rparr>, signal = False \<rparr>"

lemma used_shared_items: "buffered_repr example_repr (buffered (used_shared n)) [[1, 2], [3]] []"
  using used_queue_new ring_repr_new by (simp add: buffered_repr_def used_shared_def)

lemma shared_ring_loses_nothing_witness:
  "\<exists>sh' q' p'. shared_run example_flash example_signal False (At_Peek, used_shared 8) [Enqueued [6] Overflow_Err True] (At_Peek, sh')
    \<and> buffered_repr example_repr (buffered sh') q' p' \<and> q' @ p' = [[1, 2], [3], [6]]"
proof -
  have "wp (ring_push [6]) (\<lambda>_ _. True) no_err (ram_ring_new 8)"
    by (rule wp_mono [OF wp_ring_push [OF ring_repr_new]]) (simp_all add: items_size_def ram_ring_new_def)
  then have "wp (shared_enqueue example_signal [6] Overflow_Err) (\<lambda>_ _. True) no_err (used_shared 8)"
    by (simp add: shared_enqueue_def lock_ring_def ring_enqueue_def used_shared_def)
  then obtain sh' where "shared_enqueue example_signal [6] Overflow_Err (used_shared 8) = (Ok (), sh')"
    by (auto dest!: wp_Ok_D)
  then have run: "shared_run example_flash example_signal False (At_Peek, used_shared 8)
      [Enqueued [6] Overflow_Err True] (At_Peek, sh')"
    by (rule shared_run.run_cons [OF shared_step.accepted shared_run.run_nil])
  have "\<exists>q' p'. buffered_repr example_repr (buffered sh') q' p' \<and> q' @ p' = [[1, 2], [3], [6]]"
    using shared_ring_loses_nothing [OF example_driver example_config used_shared_items run]
    by (simp add: never_discards_def accepted_items_def eq_commute [of "_ # _"])
  then show ?thesis using run by blast
qed

text \<open>
  C22: with the policy that discards old items, the same interleaving loses an item that was accepted
  and is newer than the one it replaces. The task copies the item \<open>d1\<close>; the producer then makes room
  for \<open>d2\<close> by evicting \<open>d1\<close>; the task writes \<open>d1\<close> to flash and discards the oldest item of the ring,
  which now is \<open>d2\<close>: it is neither in flash nor in the ring.
\<close>

theorem discard_policy_loses_item:
  assumes "multiwrite_nor_flash F ok chip" "queue_config_try_new F r = Ok (Some r)"
    and "header_slice_len F \<le> calculate_page_size F" "buffered_repr (queue_repr F ok chip r) (buffered sh) [] [d1]"
    and "length d1 \<le> length (data_buffer (queue_storage (buffered sh)))" "\<not> item_too_big F (length d1)"
    and "length d2 \<le> u16_MAX" "2 + length d2 \<le> ring_size (ram (buffered sh))"
      "ring_size (ram (buffered sh)) < 2 + length d1 + (2 + length d2)"
  shows "\<exists>sh'. shared_run F SG True (At_Peek, sh) [Task, Enqueued d2 DiscardOldest True, Task, Task] (Drained True, sh')
    \<and> buffered_repr (queue_repr F ok chip r) (buffered sh') [d1] []"
  by (rule fifo_storage.race_loses_item [OF queue_fifo [OF assms(1-3)] assms(4-9)])

definition full_shared :: "(mock_flash, unit, bool) shared" where
  "full_shared = \<lparr> buffered = \<lparr> queue_storage = example_storage,
     ram = \<lparr> buf = [1, 0, 3, 0], read_pos = 0, write_pos = 3, used = 3, item_count = 1 \<rparr> \<rparr>, signal = False \<rparr>"

lemma discard_policy_loses_item_witness:
  "\<exists>sh'. shared_run example_flash example_signal True (At_Peek, full_shared)
      [Task, Enqueued [7] DiscardOldest True, Task, Task] (Drained True, sh')
    \<and> buffered_repr example_repr (buffered sh') [[3]] []"
proof -
  have "buffered_repr example_repr (buffered full_shared) [] [[3]]"
    using example_queue by (simp add: buffered_repr_def full_shared_def ring_repr_def ring_bytes_def ring_encode_def
      upt_conv_Cons drop_bit_eq_div)
  then show ?thesis
    by (rule discard_policy_loses_item [OF example_driver example_config])
      (simp_all add: full_shared_def example_storage_def item_too_big_def mock_ops_def calculate_page_size_def
        WORD_SIZE_def data_address_def round_up_to_alignment_def next_multiple_of_def ItemHeader_LENGTH_def)
qed

end
