(* ===== verification/QueueSpace.thy ===== *)
theory QueueSpace
  imports QueueFifo
begin

text \<open>
  How much fits: what \<open>find_max_fit\<close> and \<open>space_left\<close> answer for the pages a flash holds, and that the
  answer of \<open>find_max_fit\<close> tells which items the next \<open>push\<close> takes.
\<close>

section \<open>The free bytes of a page\<close>

context nor_flash
begin

lemma wp_first_free_address:
  assumes "config_ok F r" "holds r ap s" "i < page_count F r"
  shows "wp (first_free_address F i)
    (\<lambda>a t. a = page_data_start F r i + slots_size F (snd (ap i)) \<and> holds r ap t \<and> data_buffer t = data_buffer s) no_err s"
proof (cases "first_item_after_written (cache s) i")
  case None
  let ?free = "page_data_start F r i + slots_size F (snd (ap i))"
  obtain k where k: "k \<le> length (snd (ap i))"
    "(case first_item_after_erased (cache s) i of Some a \<Rightarrow> a | None \<Rightarrow> page_data_start F r i)
      = page_data_start F r i + slots_size F (take k (snd (ap i)))"
    using erased_pointer [OF assms(2,3)] by metis
  have "wp (with_local (header_iter_new (page_data_start F r i + slots_size F (take k (snd (ap i)))) (page_data_end F r i))
      (traverse F (\<lambda>_ _. True)))
    (\<lambda>res t. snd res = ?free \<and> holds r ap t \<and> data_buffer t = data_buffer s) no_err s"
    using holds_area(3) [OF assms k(1) refl]
    by (intro wp_mono [OF wp_traverse_page [OF assms k(1) refl, of "\<lambda>_. True"]]) (simp_all add: walk_all)
  then show ?thesis
    by (simp add: first_free_address_def None holds_page(2) [OF assms] k(2) cong: option.case_cong del: wp_with_local)
next
  case (Some a)
  then have "a = page_data_start F r i + slots_size F (snd (ap i))" using assms by (simp add: flash_holds_def cache_ok_def)
  then show ?thesis using Some assms(2) by (simp add: first_free_address_def)
qed

lemma available_allows:
  assumes "WORD_SIZE F dvd n"
  shows "(case available_data_bytes F n of Some available \<Rightarrow> len \<le> available | None \<Rightarrow> False) \<longleftrightarrow> slot_size F len \<le> n"
  using available_fits [OF assms, of len "0 :: nat"] by (auto split: option.splits if_splits)

lemma free_bytes_dvd:
  assumes "config_ok F r"
  shows "WORD_SIZE F dvd calculate_page_size F - slots_size F ss"
  using config_facts(7) [OF assms] slots_size_dvd by (rule dvd_diff_nat)

end

section \<open>The largest item\<close>

text \<open>The item is not longer than the answer.\<close>

definition fit_allows :: "nat option \<Rightarrow> nat \<Rightarrow> bool" where
  "fit_allows max_fit len \<longleftrightarrow> (case max_fit of Some n \<Rightarrow> len \<le> n | None \<Rightarrow> False)"

text \<open>The answer for the pages a flash holds.\<close>

definition max_fit_at :: "('s, 'e) nor_flash \<Rightarrow> flash_range \<Rightarrow> (nat \<Rightarrow> apage) \<Rightarrow> nat \<Rightarrow> nat option" where
  "max_fit_at F r ap y = (if next_free (page_count F r) ap y then Some (calculate_page_size F)
     else available_data_bytes F (calculate_page_size F - slots_size F (snd (ap y))))"

context nor_flash
begin

lemma max_fit_at_allows:
  assumes "config_ok F r" "holds r ap s" "y < page_count F r" "\<not> item_too_big F len"
  shows "fit_allows (max_fit_at F r ap y) len \<longleftrightarrow> has_room F r ap y len"
proof -
  have "len \<le> calculate_page_size F" using assms(4) unfolding item_too_big_def by linarith
  moreover have "slot_size F len \<le> calculate_page_size F - slots_size F (snd (ap y))
      \<longleftrightarrow> slots_size F (snd (ap y)) + slot_size F len \<le> calculate_page_size F"
    using holds_page(6) [OF assms(1-3)] by (simp add: le_diff_conv2 add.commute)
  ultimately show ?thesis
    using available_allows [OF free_bytes_dvd [OF assms(1)], of len "snd (ap y)"]
    by (simp add: max_fit_at_def fit_allows_def has_room_def)
qed

lemma wp_find_max_fit_inner:
  fixes s :: "('s, 'k) storage"
  assumes "config_ok F r" "holds r ap s" "queue_shape (page_count F r) ap y k" "2 \<le> page_count F r"
  shows "wp (find_max_fit_inner F)
    (\<lambda>res t. res = max_fit_at F r ap y \<and> holds r ap t \<and> data_buffer t = data_buffer s) no_err s"
proof -
  let ?n = "page_count F r"
  define y' where "y' = Suc y mod ?n"
  have y: "y < ?n" "y' < ?n" using shape_less [OF assms(3)] y'_def by simp_all
  have y'_y: "y' \<noteq> y" using ring_inj_iff [of 1 0 ?n y] y assms(4) unfolding y'_def by simp
  have nxt: "next_page F r y = y'" by (simp add: next_page_def y'_def)
  have st: "fst (ap y') \<noteq> PartialOpen" using shape_other [OF assms(3) y(2) y'_y] .
  have free: "next_free ?n ap y \<longleftrightarrow> fst (ap y') = Open \<or> fst (ap y') = Closed \<and> (\<forall>sl \<in> set (snd (ap y')). \<not> fst sl)"
    using y'_y unfolding next_free_def y'_def [symmetric] by (auto simp: alive_Nil_iff)
  let ?rest = "bnd (first_free_address F y) (\<lambda>next_item_addr. sq (on_cache unmark_dirty)
      (bnd (checked_minus (page_data_end F r y) next_item_addr) (\<lambda>total_available.
       ret (available_data_bytes F total_available))))"
  have rest: "wp ?rest (\<lambda>res u. res = max_fit_at F r ap y \<and> holds r ap u \<and> data_buffer u = data_buffer s) no_err t"
    if "holds r ap t" "data_buffer t = data_buffer s" "\<not> next_free ?n ap y" for t :: "('s, 'k) storage"
    unfolding wp_bnd [of "first_free_address F y"]
    by (rule wp_mono [OF wp_first_free_address [OF assms(1) that(1) y(1)]])
      (use that holds_page(5) [OF assms(1) that(1) y(1)] page_data_end_eq [OF assms(1), of y] in \<open>auto simp: max_fit_at_def\<close>)
  let ?look = "\<lambda>state. bnd (case state of Closed \<Rightarrow> is_page_empty F y' (Some state) | Open \<Rightarrow> ret True | PartialOpen \<Rightarrow> fail Corrupted)
      (\<lambda>next_page_free. if next_page_free
         then sq (on_cache unmark_dirty) (ret (Some (ERASE_SIZE F - 2 * WORD_SIZE F))) else ?rest)"
  have look: "wp (?look (fst (ap y'))) (\<lambda>res u. res = max_fit_at F r ap y \<and> holds r ap u \<and> data_buffer u = data_buffer s) no_err t"
    if t: "holds r ap t" "data_buffer t = data_buffer s" for t :: "('s, 'k) storage"
  proof (cases "fst (ap y')")
    case Closed
    show ?thesis
      unfolding Closed page_state.case wp_bnd [of "is_page_empty _ _ _"]
    proof (rule wp_mono [OF wp_is_page_empty [OF assms(1) t(1) y(2), of Closed]], goal_cases)
      case (1 e u)
      then have u: "holds r ap u" "data_buffer u = data_buffer s" and e: "e = next_free ?n ap y" using t free Closed by simp_all
      show ?case
        using rest [OF u] u e by (cases e) (simp_all add: max_fit_at_def calculate_page_size_def del: wp_bnd)
    qed simp
  next
    case Open
    then show ?thesis using t free by (simp add: max_fit_at_def calculate_page_size_def)
  qed (use st in simp)
  have at: "wp (bnd (find_youngest_page F) (\<lambda>current_page. bnd (gets flash_range) (\<lambda>r.
      let next_page = next_page F r current_page in bnd (get_page_state F next_page) (\<lambda>state.
         bnd (case state of Closed \<Rightarrow> is_page_empty F next_page (Some state) | Open \<Rightarrow> ret True | PartialOpen \<Rightarrow> fail Corrupted)
           (\<lambda>next_page_free. if next_page_free
         then sq (on_cache unmark_dirty) (ret (Some (ERASE_SIZE F - 2 * WORD_SIZE F)))
         else bnd (first_free_address F current_page) (\<lambda>next_item_addr. sq (on_cache unmark_dirty)
           (bnd (checked_minus (page_data_end F r current_page) next_item_addr) (\<lambda>total_available.
            ret (available_data_bytes F total_available)))))))))
      (\<lambda>res u. res = max_fit_at F r ap y \<and> holds r ap u \<and> data_buffer u = data_buffer s) no_err t"
    if t: "holds r ap t" "data_buffer t = data_buffer s" for t :: "('s, 'k) storage"
    unfolding wp_bnd [of "find_youngest_page F"]
  proof (rule wp_mono [OF wp_find_youngest_page [OF assms(1) t(1) assms(3)]], goal_cases)
    case (1 c u)
    then have u: "holds r ap u" "data_buffer u = data_buffer s" and c: "c = y" using t by simp_all
    have range: "flash_range u = r" using u(1) by (simp add: flash_holds_def)
    show ?case
      unfolding c wp_bnd [of "gets f" for f] wp_gets range Let_def nxt wp_bnd [of "get_page_state _ _"]
      by (rule wp_mono [OF wp_get_page_state [OF assms(1) u(1) y(2)]]) (use look u in \<open>simp_all del: wp_bnd\<close>)
  qed simp
  show ?thesis
    unfolding find_max_fit_inner_def wp_sq [of drop_dirty_cache]
    by (rule wp_mono [OF wp_drop_dirty_cache [OF assms(2)]]) (rule at, simp_all)
qed

lemma wp_push_at:
  fixes s :: "('s, 'k) storage"
  assumes "config_ok F r" "header_slice_len F \<le> calculate_page_size F"
    and "holds r ap s" "queue_shape (page_count F r) ap y k" "q = queue_items (page_count F r) ap y"
    and "\<not> item_too_big F (length d)"
  shows "has_room F r ap y (length d) \<Longrightarrow> wp (push F d False)
      (\<lambda>_ t. queue_repr F inv mem r t (q @ [d]) \<and> data_buffer t = data_buffer s) no_err s"
    and "\<not> has_room F r ap y (length d) \<Longrightarrow> wp (push F d False) (\<lambda>_ _. False)
      (\<lambda>e t. e = FullStorage \<and> queue_repr F inv mem r t q \<and> data_buffer t = data_buffer s) s"
  unfolding push_def
  by (rule wp_run_with_auto_repair, rule wp_mono [OF wp_push_inner_at [OF assms(1-5), of d False]];
      use assms(6) in auto)+

text \<open>The caller may put the item into its buffer before it pushes.\<close>

lemma wp_max_fit_push:
  fixes s :: "('s, 'k) storage"
  assumes "config_ok F r" "header_slice_len F \<le> calculate_page_size F" "2 \<le> page_count F r" "queue_repr F inv mem r s q"
  shows "wp (find_max_fit F) (\<lambda>res t. queue_repr F inv mem r t q \<and> data_buffer t = data_buffer s
      \<and> (\<forall>b d. \<not> item_too_big F (length d) \<longrightarrow>
      (if fit_allows res (length d)
       then wp (push F d False) (\<lambda>_ u. queue_repr F inv mem r u (q @ [d]) \<and> data_buffer u = b) no_err (t\<lparr> data_buffer := b \<rparr>)
       else wp (push F d False) (\<lambda>_ _. False)
         (\<lambda>e u. e = FullStorage \<and> queue_repr F inv mem r u q \<and> data_buffer u = b) (t\<lparr> data_buffer := b \<rparr>)))) no_err s"
proof -
  from assms(4) obtain ap y k where at: "holds r ap s" "queue_shape (page_count F r) ap y k"
    and q: "q = queue_items (page_count F r) ap y" by (auto simp: queue_repr_def)
  have "wp (find_max_fit F) (\<lambda>res t. res = max_fit_at F r ap y \<and> holds r ap t \<and> data_buffer t = data_buffer s) no_err s"
    unfolding find_max_fit_def
    by (rule wp_run_with_auto_repair, rule wp_find_max_fit_inner [OF assms(1) at assms(3)]) simp
  then show ?thesis
  proof (rule wp_mono, goal_cases)
    case (1 res t)
    then have t: "holds r ap t" and res: "res = max_fit_at F r ap y" by simp_all
    have y: "y < page_count F r" using shape_less [OF at(2)] by simp
    have t': "holds r ap (t\<lparr> data_buffer := b \<rparr>)" for b using t by (simp add: flash_holds_def)
    show ?case
      using wp_push_at [OF assms(1,2) t' at(2) q] max_fit_at_allows [OF assms(1) t y] queue_reprI [OF t at(2) q] 1
      unfolding res by simp
  qed simp
qed

text \<open>With an empty queue the next page is free.\<close>

lemma empty_next_free:
  assumes "queue_shape n ap y k" "queue_items n ap y = []" "2 \<le> n"
  shows "next_free n ap y"
proof -
  let ?y = "Suc y mod n"
  have y: "?y \<noteq> y" "?y < n" using ring_inj_iff [of 1 0 n y] shape_less [OF assms(1)] assms(3) by simp_all
  have "alive (snd (ap ?y)) = []"
    using assms(2,3) by (auto simp: queue_items_def page_items_def simp del: upt_Suc dest!: bspec [of _ _ 1])
  moreover have "fst (ap ?y) \<noteq> PartialOpen" using shape_other [OF assms(1) y(2,1)] .
  ultimately show ?thesis using y unfolding next_free_def by (cases "fst (ap ?y)") auto
qed

text \<open>On one page that holds items there is no other page to look at.\<close>

lemma wp_max_fit_one_page:
  fixes s :: "('s, 'k) storage"
  assumes "config_ok F r" "page_count F r = 1" "queue_repr F inv mem r s q" "q \<noteq> []"
  shows "wp (find_max_fit F) (\<lambda>_ _. False) (\<lambda>e t. e = Corrupted \<and> queue_repr F inv mem r t q) s"
proof -
  from assms(3) obtain ap y k where at: "holds r ap s" "queue_shape (page_count F r) ap y k"
    and q: "q = queue_items (page_count F r) ap y" by (auto simp: queue_repr_def)
  have y: "y = 0" using shape_less [OF at(2)] assms(2) by simp
  have used: "fst (ap 0) = PartialOpen"
    using shape_youngest [OF at(2)] q assms(2,4) y by (auto simp: queue_items_def page_items_def)
  have inner: "wp (find_max_fit_inner F) (\<lambda>_ _. False) (\<lambda>e t. e = Corrupted \<and> holds r ap t) t"
    if "holds r ap t" for t :: "('s, 'k) storage"
    unfolding find_max_fit_inner_def wp_sq [of drop_dirty_cache]
  proof (rule wp_mono [OF wp_drop_dirty_cache [OF that]], goal_cases)
    case (1 _ u)
    show ?case
      unfolding wp_bnd [of "find_youngest_page F"]
    proof (rule wp_mono [OF wp_find_youngest_page [OF assms(1) conjunct1 [OF 1] at(2)]], goal_cases)
      case (1 c v)
      then have v: "holds r ap v" and c: "c = 0" using y by simp_all
      have range: "flash_range v = r" using v by (simp add: flash_holds_def)
      have nxt: "next_page F r 0 = 0" using assms(2) by (simp add: next_page_def)
      have less: "0 < page_count F r" using assms(2) by simp
      show ?case
        unfolding c wp_bnd [of "gets f" for f] wp_gets range Let_def nxt wp_bnd [of "get_page_state _ _"]
        by (rule wp_mono [OF wp_get_page_state [OF assms(1) v less]]) (simp_all add: used)
    qed simp
  qed
  show ?thesis
    unfolding find_max_fit_def
  proof (rule wp_run_repaired [where P = "holds r ap" and R = "holds r ap"])
    fix t :: "('s, 'k) storage" assume t: "holds r ap t"
    let ?t = "t\<lparr>cache := invalidate_cache_state (cache t)\<rparr>"
    have "holds r ap ?t" using t by (simp add: flash_holds_def)
    from wp_general_repair [OF assms(1) this]
    show "wp (queue_try_repair F) (\<lambda>_. holds r ap) (\<lambda>e t. e = Corrupted \<and> queue_repr F inv mem r t q) t"
      unfolding queue_try_repair_def wp_sq wp_on_cache by (rule wp_mono) simp_all
    show "wp (find_max_fit_inner F) (\<lambda>_ _. False) (\<lambda>e t. e = Corrupted \<and> queue_repr F inv mem r t q) t"
      using inner [OF t] by (rule wp_mono) (auto intro: queue_reprI [OF _ at(2) q])
  qed (rule inner [OF at(1)])
qed

end

section \<open>The space that is left\<close>

text \<open>
  A page with nothing live on it counts as empty; on the page that is written to this needs that
  no more items fit behind the erased ones.
\<close>

definition page_free_bytes :: "('s, 'e) nor_flash \<Rightarrow> apage \<Rightarrow> nat" where
  "page_free_bytes F p =
     (let left = calculate_page_size F - slots_size F (snd p)
      in case fst p of
           Open \<Rightarrow> calculate_page_size F
         | Closed \<Rightarrow> if alive (snd p) = [] then calculate_page_size F else 0
         | PartialOpen \<Rightarrow> if left < header_slice_len F \<and> alive (snd p) = [] then calculate_page_size F else left)"

context nor_flash
begin

lemma wp_page_space_left:
  fixes s :: "('s, 'k) storage"
  assumes "config_ok F r" "holds r ap s" "i < page_count F r"
  shows "wp (page_space_left F i) (\<lambda>n t. n = page_free_bytes F (ap i) \<and> holds r ap t) no_err s"
proof -
  let ?left = "calculate_page_size F - slots_size F (snd (ap i))"
  note ends = page_data_end_eq [OF assms(1), of i]
  have none: "available_data_bytes F ?left = None \<longleftrightarrow> ?left < header_slice_len F"
    using available_allows [OF free_bytes_dvd [OF assms(1)], of 0 "snd (ap i)"]
    by (auto simp: slot_size_def round_up_0 split: option.splits)
  have spare: "wp (bnd (first_free_address F i) (\<lambda>next_item_addr.
       bnd (checked_minus (page_data_end F r i) next_item_addr) (\<lambda>total_available.
       bnd (if available_data_bytes F total_available = None then is_page_empty F i (Some Closed) else ret False)
         (\<lambda>all_erased. if all_erased then checked_minus (page_data_end F r i) (page_data_start F r i)
            else ret total_available))))
      (\<lambda>n u. n = page_free_bytes F (ap i) \<and> holds r ap u) no_err t"
    if t: "holds r ap t" "fst (ap i) = PartialOpen" for t :: "('s, 'k) storage"
    unfolding wp_bnd [of "first_free_address F i"]
  proof (rule wp_mono [OF wp_first_free_address [OF assms(1) t(1) assms(3)]], goal_cases)
    case (1 a u)
    then have u: "holds r ap u" and a: "a = page_data_start F r i + slots_size F (snd (ap i))" by simp_all
    have minus: "checked_minus (page_data_end F r i) a = ret ?left"
      "checked_minus (page_data_end F r i) (page_data_start F r i) = ret (calculate_page_size F)"
      using holds_page(5) [OF assms(1) u assms(3)] ends a by (simp_all add: checked_minus_def ret_def fun_eq_iff)
    show ?case
    proof (cases "available_data_bytes F ?left = None")
      case True
      then show ?thesis
        unfolding minus wp_bnd [of "ret _"] wp_ret if_P [OF True] wp_bnd [of "is_page_empty _ _ _"]
        by (intro wp_mono [OF wp_is_page_empty [OF assms(1) u assms(3), of Closed]])
          (use t(2) none in \<open>auto simp: page_free_bytes_def alive_Nil_iff\<close>)
    next
      case False
      then have "\<not> ?left < header_slice_len F" using none by simp
      then show ?thesis
        using False t(2) u unfolding minus wp_bnd [of "ret _"] wp_ret if_not_P [OF False] by (simp add: page_free_bytes_def)
    qed
  qed simp
  show ?thesis
    unfolding page_space_left_def wp_bnd [of "gets f" for f] wp_gets holds_page(2) [OF assms] wp_bnd [of "get_page_state _ _"]
  proof (rule wp_mono [OF wp_get_page_state [OF assms]], goal_cases)
    case (1 st t)
    then have t: "holds r ap t" and st: "st = fst (ap i)" by simp_all
    show ?case
      unfolding wp_bnd [of "is_page_empty _ _ _"]
    proof (rule wp_mono [OF wp_is_page_empty [OF assms(1) t assms(3), of st]], goal_cases)
      case (1 e u)
      then show ?case
        using spare [of u] ends st
        by (cases "fst (ap i)"; cases e)
          (auto simp: page_free_bytes_def alive_Nil_iff is_closed_def checked_minus_def simp del: wp_bnd)
    qed simp
  qed simp
qed

lemma wp_sum_space_left:
  fixes s :: "('s, 'k) storage"
  assumes "config_ok F r" "holds r ap s" "\<forall>i \<in> set pages. i < page_count F r"
  shows "wp (sum_space_left F pages n)
    (\<lambda>m t. m = n + sum_list (map (\<lambda>i. page_free_bytes F (ap i)) pages) \<and> holds r ap t) no_err s"
  using assms(2,3)
proof (induction pages arbitrary: n s)
  case (Cons i pages)
  have i: "i < page_count F r" using Cons.prems(2) by simp
  show ?case
    unfolding sum_space_left.simps wp_bnd [of "page_space_left F i"]
  proof (rule wp_mono [OF wp_page_space_left [OF assms(1) Cons.prems(1) i]], goal_cases)
    case (1 m t)
    then show ?case
      using Cons.IH [of t "n + m"] Cons.prems(2) by (auto simp: add.assoc elim!: wp_mono)
  qed simp
qed simp

lemma wp_space_left:
  fixes s :: "('s, 'k) storage"
  assumes "config_ok F r" "holds r ap s"
  shows "wp (space_left F) (\<lambda>n t. n = (\<Sum>i<page_count F r. page_free_bytes F (ap i)) \<and> holds r ap t) no_err s"
proof -
  have pages: "get_pages F r 0 = [0..<page_count F r]"
    by (rule nth_equalityI) (simp_all add: get_pages_def)
  have "sum_list (map (\<lambda>i. page_free_bytes F (ap i)) [0..<page_count F r]) = (\<Sum>i<page_count F r. page_free_bytes F (ap i))"
    by (simp add: interv_sum_list_conv_sum_set_nat lessThan_atLeast0)
  note total = this
  have "wp (space_left_inner F) (\<lambda>n t. n = (\<Sum>i<page_count F r. page_free_bytes F (ap i)) \<and> holds r ap t) no_err s"
    unfolding space_left_inner_def wp_sq [of drop_dirty_cache]
  proof (rule wp_mono [OF wp_drop_dirty_cache [OF assms(2)]], goal_cases)
    case (1 _ t)
    then have t: "holds r ap t" and range: "flash_range t = r" by (simp_all add: flash_holds_def)
    show ?case
      unfolding wp_bnd [of "gets f" for f] wp_gets range pages wp_bnd [of "sum_space_left _ _ _"]
      by (rule wp_mono [OF wp_sum_space_left [OF assms(1) t]]) (use total in \<open>auto\<close>)
  qed
  then show ?thesis unfolding space_left_def by (rule wp_run_with_auto_repair) simp
qed

end

section \<open>The properties\<close>





text \<open>
  C8: \<open>space_left\<close> is the sum over the pages of the bytes that are free on them: all of an open page
  or one with only erased items, what is behind the last item of the page that is written to, and
  nothing of the other pages. Asking changes nothing.
\<close>

theorem space_left_sums_free_bytes:
  assumes "nor_flash F ok chip" "queue_config_try_new F r = Ok (Some r)" "flash_holds F ok chip r ap s"
  shows "wp (space_left F)
    (\<lambda>n t. n = (\<Sum>i<page_count F r. page_free_bytes F (ap i)) \<and> flash_holds F ok chip r ap t) no_err s"
proof -
  have "config_ok F r" using queue_config_ok [OF assms(2)] by simp
  then show ?thesis by (rule nor_flash.wp_space_left [OF assms(1) _ assms(3)])
qed

lemma space_left_sums_free_bytes_witness:
  "wp (space_left example_flash) (\<lambda>n _. n = 44) no_err (used_storage (PagePointerCache_new 2))"
proof -
  have hold: "flash_holds example_flash (mock_ok 4) mdata example_range used_pages (used_storage (PagePointerCache_new 2))"
    by (rule used_pages_hold, rule cache_ok_unknown) simp
  have "(\<Sum>i<page_count example_flash example_range. page_free_bytes example_flash (used_pages i)) = 44"
    unfolding example_count numeral_2_eq_2
    by (simp add: page_free_bytes_def used_pages_def slots_size_def slot_size_def example_sizes alive_def)
  with space_left_sums_free_bytes [OF example_nor_flash example_config(1) hold] show ?thesis by (elim wp_mono) simp_all
qed

end
