(* ===== verification/AnyFlash.thy ===== *)
theory AnyFlash
  imports FlashState Queue MockFlash
begin

text \<open>
  What the operations do on a flash with arbitrary contents, as a power loss or a failing chip may
  leave it: reading headers and walking over a page end without a panic and stay on the page, the
  state of a page is found or reported as corrupted, and the general repair makes the states of
  all pages readable without touching the pages that were.
\<close>

section \<open>Reading headers\<close>

context nor_flash
begin

lemma wp_read_header_bytes_any:
  assumes "inv (flash s)" "WORD_SIZE F dvd a" "a + header_slice_len F \<le> length (mem (flash s))"
  shows "wp (read_header_bytes F a k)
    (\<lambda>r t. reads s t \<and> (\<forall>b. r = Some b \<longrightarrow> b = sub_list a (header_slice_len F) (mem (flash s))
      \<and> crc16 (sub_list 4 2 b) = length_crc_field b))
    (\<lambda>e t. e = Corrupted \<and> reads s t) s"
  using assms
proof (induction k arbitrary: s)
  case 0
  then have "wp (on_flash (nf_read F a (header_slice_len F)))
      (\<lambda>bs t. bs = sub_list a (header_slice_len F) (mem (flash s)) \<and> reads s t) no_err s"
    using header_slice_dvd header_slice_len_ge [of F]
    by (intro wp_flash_read) (auto intro: dvd_trans [OF word_multiples(1)])
  then show ?case by (auto elim!: wp_mono)
next
  case (Suc k)
  then have rd: "wp (on_flash (nf_read F a (header_slice_len F)))
      (\<lambda>bs t. bs = sub_list a (header_slice_len F) (mem (flash s)) \<and> reads s t) no_err s"
    using header_slice_dvd header_slice_len_ge [of F]
    by (intro wp_flash_read) (auto intro: dvd_trans [OF word_multiples(1)])
  have again: "wp (read_header_bytes F a k)
      (\<lambda>r u. reads s u \<and> (\<forall>b. r = Some b \<longrightarrow> b = sub_list a (header_slice_len F) (mem (flash s))
        \<and> crc16 (sub_list 4 2 b) = length_crc_field b))
      (\<lambda>e u. e = Corrupted \<and> reads s u) t" if "reads s t" for t
    using Suc.IH [of t] Suc.prems only_reads_simps [OF that] that
    by (auto elim!: wp_mono dest: only_reads_trans)
  show ?case
    unfolding read_header_bytes.simps wp_bnd
    by (rule wp_mono [OF rd]) (use again in auto)
qed

lemma wp_read_new_any:
  assumes "inv (flash s)" "WORD_SIZE F dvd a" "WORD_SIZE F \<le> MAX_WORD_SIZE" "e \<le> length (mem (flash s))"
  shows "wp (read_new F a e)
    (\<lambda>r t. reads s t \<and> (\<forall>h. r = Some h \<longrightarrow> next_item_address F h a \<le> e \<and> ih_crc h \<noteq> Some 0))
    (\<lambda>err t. err = Corrupted \<and> reads s t \<and> a + header_slice_len F \<le> e) s"
proof (cases "a + header_slice_len F > e")
  case True
  then show ?thesis using assms word_pos by (simp add: read_new_def)
next
  case False
  then have len: "a + header_slice_len F \<le> length (mem (flash s))" using assms(4) by simp
  show ?thesis
    unfolding read_new_def wp_sq
    using False word_pos header_slice_len_le [OF assms(3)]
    by (auto simp: Let_def simp del: read_header_bytes.simps split: option.splits
        intro!: wp_mono [OF wp_read_header_bytes_any [OF assms(1,2) len, of "Suc 0"]])
qed

end

section \<open>Walking over a page\<close>

context nor_flash
begin

definition stops_on_page :: "(item_header \<Rightarrow> nat \<Rightarrow> bool) \<Rightarrow> nat \<Rightarrow> nat \<Rightarrow> item_header option \<times> nat \<Rightarrow> bool" where
  "stops_on_page callback a e r \<longleftrightarrow> a \<le> snd r \<and> snd r \<le> max a e
     \<and> (\<forall>h. fst r = Some h \<longrightarrow> next_item_address F h (snd r) \<le> e \<and> \<not> callback h (snd r))"

lemma stops_later:
  "stops_on_page callback b e r \<Longrightarrow> a \<le> b \<Longrightarrow> b \<le> max a e \<Longrightarrow> stops_on_page callback a e r"
  by (auto simp: stops_on_page_def)

lemma next_item_address_dvd: "WORD_SIZE F dvd a \<Longrightarrow> WORD_SIZE F dvd next_item_address F h a"
  unfolding next_item_address_def data_address_def by (intro dvd_add round_up_dvd word_pos)

lemma wp_traverse_any:
  fixes s :: "('s, 'k) storage"
  assumes "inv (flash s)" "WORD_SIZE F dvd a" "WORD_SIZE F \<le> MAX_WORD_SIZE" "e \<le> length (mem (flash s))"
  shows "wp (traverse F callback) (\<lambda>r t. stops_on_page callback a e r \<and> reads s (fst t)) no_err
    (s, \<lparr>current_address = a, end_address = e\<rparr>)"
  using assms
proof (induction "e - a" arbitrary: a s rule: less_induct)
  case less
  let ?goal = "\<lambda>b t. wp (traverse F callback) (\<lambda>r u. stops_on_page callback a e r \<and> reads s (fst u)) no_err
    (t, \<lparr>current_address = b, end_address = e\<rparr>)"
  have on: "?goal b t" if t: "reads s t" and b: "a < b" "b \<le> e" "WORD_SIZE F dvd b" for b and t :: "('s, 'k) storage"
  proof -
    have "wp (traverse F callback) (\<lambda>r u. stops_on_page callback b e r \<and> reads t (fst u)) no_err
        (t, \<lparr>current_address = b, end_address = e\<rparr>)"
      using only_reads_simps [OF t] b less.prems by (intro less.hyps) simp_all
    then show ?thesis
      by (rule wp_mono) (use b t in \<open>auto intro: stops_later only_reads_trans\<close>)
  qed
  have corrupted: "?goal (a + WORD_SIZE F) t" if "reads s t" "a + header_slice_len F \<le> e" for t :: "('s, 'k) storage"
  proof (rule on [OF that(1)])
    have "WORD_SIZE F \<le> header_slice_len F"
      using header_slice_dvd header_slice_len_ge [of F] by (intro dvd_imp_le) simp_all
    then show "a + WORD_SIZE F \<le> e" using that(2) by linarith
  qed (use word_pos less.prems(2) in simp_all)
  have found: "?goal (next_item_address F h a) t" if "reads s t" "next_item_address F h a \<le> e"
    for h and t :: "('s, 'k) storage"
    using that next_item_address_gt next_item_address_dvd [OF less.prems(2)] by (intro on) auto
  show ?case
    by (intro wp_traverse_step wp_mono [OF wp_read_new_any [OF less.prems]])
      (use corrupted found next_item_address_gt [of a F] in \<open>auto simp: stops_on_page_def split: option.splits intro: le_trans\<close>)
qed

end

section \<open>The states of the pages\<close>

text \<open>A page has a state unless it has the end marker and no start marker.\<close>

definition page_readable :: "('s, 'e) nor_flash \<Rightarrow> flash_range \<Rightarrow> u8 list \<Rightarrow> nat \<Rightarrow> bool" where
  "page_readable F r m i \<longleftrightarrow>
     (marked (sub_list (calculate_page_address F r i + (ERASE_SIZE F - READ_SIZE F)) (READ_SIZE F) m)
      \<longrightarrow> marked (sub_list (calculate_page_address F r i) (READ_SIZE F) m))"

definition page_of :: "('s, 'e) nor_flash \<Rightarrow> flash_range \<Rightarrow> u8 list \<Rightarrow> nat \<Rightarrow> u8 list" where
  "page_of F r m i = sub_list (calculate_page_address F r i) (ERASE_SIZE F) m"

text \<open>The flash range lies in the chip.\<close>

definition in_chip :: "('s \<Rightarrow> bool) \<Rightarrow> ('s \<Rightarrow> u8 list) \<Rightarrow> flash_range \<Rightarrow> ('s, 'k) storage \<Rightarrow> bool" where
  "in_chip ok chip r s \<longleftrightarrow> ok (flash s) \<and> flash_range s = r \<and> snd r \<le> length (chip (flash s))"

text \<open>Only the states of readable pages are in the cache.\<close>

definition knows_readable :: "('s, 'e) nor_flash \<Rightarrow> ('s \<Rightarrow> u8 list) \<Rightarrow> flash_range \<Rightarrow> ('s, 'k) storage \<Rightarrow> bool" where
  "knows_readable F chip r s \<longleftrightarrow> (\<forall>i < page_count F r. cached_page_state (cache s) i \<noteq> None
     \<longrightarrow> page_readable F r (chip (flash s)) i)"

lemma sub_list_sub_list: "j + k \<le> n \<Longrightarrow> sub_list j k (sub_list a n m) = sub_list (a + j) k m"
  by (simp add: sub_list_def drop_take add.commute min_def)

lemma marked_erased_sub: "\<not> marked (sub_list a n (erased k))"
  using marked_erased [of "min n (k - a)"] by (simp add: sub_list_def erased_def)

context nor_flash
begin

lemma page_readable_page_of:
  "page_readable F r m i \<longleftrightarrow>
     (marked (sub_list (ERASE_SIZE F - READ_SIZE F) (READ_SIZE F) (page_of F r m i))
      \<longrightarrow> marked (sub_list 0 (READ_SIZE F) (page_of F r m i)))"
  using READ_SIZE_le_WORD_SIZE [of F] word_le_erase
  by (simp add: page_readable_def page_of_def sub_list_sub_list)

lemma page_in_range:
  assumes "config_ok F r" "i < page_count F r"
  shows "calculate_page_address F r i + ERASE_SIZE F \<le> snd r"
proof -
  have "(i + 1) * ERASE_SIZE F \<le> page_count F r * ERASE_SIZE F" using assms(2) by (intro mult_le_mono1) simp
  then show ?thesis using config_facts(5) [OF assms(1)] by (simp add: calculate_page_address_def mult.commute)
qed

lemma wp_get_page_state_any:
  fixes s :: "('s, 'k) storage"
  assumes "config_ok F r" "in_chip inv mem r s" "i < page_count F r" "knows_readable F mem r s"
  shows "wp (get_page_state F i)
    (\<lambda>_ t. page_readable F r (mem (flash s)) i \<and> in_chip inv mem r t \<and> mem (flash t) = mem (flash s)
      \<and> knows_readable F mem r t)
    (\<lambda>e t. e = Corrupted \<and> \<not> page_readable F r (mem (flash s)) i \<and> in_chip inv mem r t
      \<and> mem (flash t) = mem (flash s) \<and> knows_readable F mem r t) s"
proof (cases "cached_page_state (cache s) i")
  case (Some st)
  then have "page_readable F r (mem (flash s)) i" using assms(3,4) by (simp add: knows_readable_def)
  then show ?thesis using Some assms by (simp add: get_page_state_def)
next
  case None
  let ?a = "calculate_page_address F r i"
  let ?e = "?a + (ERASE_SIZE F - READ_SIZE F)"
  let ?m = "mem (flash s)"
  have rd: "READ_SIZE F \<le> WORD_SIZE F" "0 < READ_SIZE F" by (simp_all add: READ_SIZE_le_WORD_SIZE read_pos)
  have h: "inv (flash s)" "flash_range s = r" "?a + ERASE_SIZE F \<le> length ?m"
    using assms(2) page_in_range [OF assms(1,3)] by (simp_all add: in_chip_def)
  have dvd: "READ_SIZE F dvd ?a"
    using word_multiples(1) page_address_dvd [OF assms(1), of i] by (rule dvd_trans)
  moreover have "READ_SIZE F dvd ERASE_SIZE F" using word_multiples(1) word_dvd_erase by (rule dvd_trans)
  ultimately have dvd': "READ_SIZE F dvd ?e" by (intro dvd_add dvd_diff_nat) simp_all
  have r1: "wp (on_flash (nf_read F b (READ_SIZE F)))
      (\<lambda>bs u. bs = sub_list b (READ_SIZE F) ?m \<and> reads s u) no_err t"
    if "b \<in> {?a, ?e}" "reads s t" for b and t :: "('s, 'k) storage"
  proof -
    have "wp (on_flash (nf_read F b (READ_SIZE F)))
        (\<lambda>bs u. bs = sub_list b (READ_SIZE F) (mem (flash t)) \<and> reads t u) no_err t"
      using that h dvd dvd' rd word_le_erase only_reads_simps [OF that(2)]
      by (intro wp_flash_read) auto
    then show ?thesis using that(2) only_reads_simps [OF that(2)] by (auto elim!: wp_mono dest: only_reads_trans)
  qed
  have keep: "in_chip inv mem r t \<and> mem (flash t) = ?m \<and> knows_readable F mem r t" if "reads s t" for t :: "('s, 'k) storage"
    using only_reads_simps [OF that] assms(2,4) by (simp add: in_chip_def knows_readable_def)
  have noticed: "in_chip inv mem r (t\<lparr>cache := notice_page_state i st False (cache t)\<rparr>)
      \<and> mem (flash (t\<lparr>cache := notice_page_state i st False (cache t)\<rparr>)) = ?m
      \<and> knows_readable F mem r (t\<lparr>cache := notice_page_state i st False (cache t)\<rparr>)"
    if "reads s t" "page_readable F r ?m i" for st and t :: "('s, 'k) storage"
    using keep [OF that(1)] that(2) page_state_after_notice [of i st False "cache t"]
    by (fastforce simp: in_chip_def knows_readable_def split: if_splits)
  have self: "reads s s" using h(1) by simp
  show ?thesis
    unfolding get_page_state_def wp_bnd wp_gets None option.case wp_sq wp_assert_that h(2)
  proof (intro conjI wp_mono [OF r1 [OF _ self, of ?a]])
    show "READ_SIZE F \<le> MAX_WORD_SIZE" using rd config_facts(1) [OF assms(1)] by simp
    fix bs t assume t: "bs = sub_list ?a (READ_SIZE F) ?m \<and> reads s t"
    show "wp (on_flash (nf_read F ?e (READ_SIZE F))) (\<lambda>es. wp
          (case (marked bs, marked es) of (True, True) \<Rightarrow> ret Closed | (True, False) \<Rightarrow> ret PartialOpen
           | (False, True) \<Rightarrow> fail Corrupted | (False, False) \<Rightarrow> ret Open)
          (\<lambda>st. wp (on_cache (notice_page_state i st False)) (\<lambda>_. wp (ret st)
            (\<lambda>_ t. page_readable F r ?m i \<and> in_chip inv mem r t \<and> mem (flash t) = ?m \<and> knows_readable F mem r t)
            (\<lambda>e t. e = Corrupted \<and> \<not> page_readable F r ?m i \<and> in_chip inv mem r t \<and> mem (flash t) = ?m
              \<and> knows_readable F mem r t))
            (\<lambda>e t. e = Corrupted \<and> \<not> page_readable F r ?m i \<and> in_chip inv mem r t \<and> mem (flash t) = ?m
              \<and> knows_readable F mem r t))
          (\<lambda>e t. e = Corrupted \<and> \<not> page_readable F r ?m i \<and> in_chip inv mem r t \<and> mem (flash t) = ?m
            \<and> knows_readable F mem r t))
        (\<lambda>e t. e = Corrupted \<and> \<not> page_readable F r ?m i \<and> in_chip inv mem r t \<and> mem (flash t) = ?m
          \<and> knows_readable F mem r t) t"
    proof (rule wp_mono [OF r1 [of ?e]], goal_cases)
      case (3 es u)
      then show ?case using t keep [of u] noticed [of u]
        by (cases "marked bs"; cases "marked es") (auto simp: page_readable_def)
    qed (use t in simp_all)
  qed simp_all
qed

section \<open>The general repair\<close>

lemma page_of_erased:
  assumes "calculate_page_address F r i + ERASE_SIZE F \<le> length m"
  shows "page_of F r (overwrite (calculate_page_address F r i) (erased (ERASE_SIZE F)) m) i = erased (ERASE_SIZE F)"
  using assms by (simp add: page_of_def sub_list_def overwrite_def)

lemma page_of_other:
  assumes "calculate_page_address F r i + ERASE_SIZE F \<le> length m"
    and "calculate_page_address F r j + ERASE_SIZE F \<le> length m" "i \<noteq> j"
  shows "page_of F r (overwrite (calculate_page_address F r i) (erased (ERASE_SIZE F)) m) j = page_of F r m j"
  using assms pages_disjoint [OF assms(3), of r]
  by (intro nth_equalityI) (auto simp: page_of_def nth_overwrite)

lemma erased_page_readable: "page_of F r m i = erased n \<Longrightarrow> page_readable F r m i"
  by (simp add: page_readable_page_of marked_erased_sub)

text \<open>Erasing the unreadable ones among some pages.\<close>

definition repaired :: "flash_range \<Rightarrow> nat set \<Rightarrow> u8 list \<Rightarrow> u8 list \<Rightarrow> bool" where
  "repaired r pages m m' \<longleftrightarrow> (\<forall>i < page_count F r. page_of F r m' i =
     (if i \<in> pages \<and> \<not> page_readable F r m i then erased (ERASE_SIZE F) else page_of F r m i))"

lemma repaired_readable:
  assumes "repaired r pages m m'" "i < page_count F r"
  shows "page_readable F r m' i \<longleftrightarrow> i \<in> pages \<or> page_readable F r m i"
  using assms erased_page_readable [of r m' i "ERASE_SIZE F"]
  by (cases "i \<in> pages \<and> \<not> page_readable F r m i") (auto simp: repaired_def page_readable_page_of)

lemma wp_repair_page:
  fixes s :: "('s, 'k) storage"
  assumes "config_ok F r" "in_chip inv mem r s" "i < page_count F r" "knows_readable F mem r s"
  shows "wp (bnd (attempt (get_page_state F i)) (\<lambda>x. case x of Inl Corrupted \<Rightarrow> open_page F i | _ \<Rightarrow> ret ()))
    (\<lambda>_ t. in_chip inv mem r t \<and> knows_readable F mem r t \<and> repaired r {i} (mem (flash s)) (mem (flash t))) no_err s"
proof -
  let ?a = "calculate_page_address F r i" and ?m = "mem (flash s)"
  have len: "calculate_page_address F r j + ERASE_SIZE F \<le> length ?m" if "j < page_count F r" for j
    using page_in_range [OF assms(1) that] assms(2) by (simp add: in_chip_def)
  have dvd: "ERASE_SIZE F dvd ?a" using assms(1) by (simp add: config_ok_def calculate_page_address_def)
  have e: "calculate_page_end_address F r i = ?a + ERASE_SIZE F"
    by (simp add: calculate_page_end_address_def calculate_page_address_def)
  have opened: "wp (open_page F i)
      (\<lambda>_ u. in_chip inv mem r u \<and> knows_readable F mem r u \<and> repaired r {i} ?m (mem (flash u))) no_err t"
    if t: "in_chip inv mem r t" "mem (flash t) = ?m" "knows_readable F mem r t" "\<not> page_readable F r ?m i"
    for t :: "('s, 'k) storage"
  proof -
    let ?m' = "overwrite ?a (erased (ERASE_SIZE F)) ?m"
    have "wp (nf_erase F ?a (?a + ERASE_SIZE F)) (\<lambda>_ f. inv f \<and> mem f = ?m') no_err (flash t)"
      using erase_bytes [of "flash t" ?a "?a + ERASE_SIZE F"] t(1,2) dvd len [OF assms(3)] by (simp add: in_chip_def)
    moreover have rep: "repaired r {i} ?m ?m'"
      using t(4) page_of_erased [OF len [OF assms(3)]] page_of_other [OF len [OF assms(3)] len]
      unfolding repaired_def by auto
    moreover have "length ?m' = length ?m" using len [OF assms(3)] by simp
    moreover have "page_readable F r ?m' j"
      if "j < page_count F r" "cached_page_state (notice_page_state i Open True (cache t)) j \<noteq> None" for j
      using that t(2,3) repaired_readable [OF rep that(1)] page_state_after_notice [of i Open True "cache t" j]
      by (fastforce simp: knows_readable_def split: if_splits)
    ultimately show ?thesis
      using t(1,2) by (auto simp: open_page_def e in_chip_def knows_readable_def elim!: wp_mono)
  qed
  have same: "repaired r {i} ?m ?m" if "page_readable F r ?m i" using that by (simp add: repaired_def)
  show ?thesis
    unfolding wp_bnd wp_attempt
    by (rule wp_mono [OF wp_get_page_state_any [OF assms]]) (use opened same in auto)
qed

lemma repaired_trans:
  "repaired r A m m1 \<Longrightarrow> repaired r B m1 m2 \<Longrightarrow> repaired r (A \<union> B) m m2"
  using repaired_readable [of r A m m1] unfolding repaired_def by auto

lemma wp_repair_pages:
  fixes s :: "('s, 'k) storage"
  assumes "config_ok F r" "in_chip inv mem r s" "\<forall>i \<in> set pages. i < page_count F r" "knows_readable F mem r s"
  shows "wp (for_each pages (\<lambda>i. bnd (attempt (get_page_state F i)) (\<lambda>x. case x of Inl Corrupted \<Rightarrow> open_page F i | _ \<Rightarrow> ret ())))
    (\<lambda>_ t. in_chip inv mem r t \<and> knows_readable F mem r t \<and> repaired r (set pages) (mem (flash s)) (mem (flash t)))
    no_err s"
  using assms(2-4)
proof (induction pages arbitrary: s)
  case Nil
  then show ?case by (simp add: repaired_def)
next
  case (Cons i pages)
  have i: "i < page_count F r" using Cons.prems(2) by simp
  show ?case
    unfolding for_each.simps wp_sq
  proof (rule wp_mono [OF wp_repair_page [OF assms(1) Cons.prems(1) i Cons.prems(3)]], goal_cases)
    case (1 _ t)
    then have t: "in_chip inv mem r t" "knows_readable F mem r t" "repaired r {i} (mem (flash s)) (mem (flash t))" by auto
    show ?case
      by (rule wp_mono [OF Cons.IH [OF t(1) _ t(2)]]) (use Cons.prems(2) repaired_trans [OF t(3)] in auto)
  qed simp
qed

lemma wp_queue_try_repair_any:
  fixes s :: "('s, 'k) storage"
  assumes "config_ok F r" "in_chip inv mem r s"
  shows "wp (queue_try_repair F)
    (\<lambda>_ t. in_chip inv mem r t \<and> knows_readable F mem r t
      \<and> repaired r {..<page_count F r} (mem (flash s)) (mem (flash t))) no_err s"
proof -
  let ?s = "s\<lparr>cache := invalidate_cache_state (cache s)\<rparr>"
  have s: "in_chip inv mem r ?s" "knows_readable F mem r ?s"
    using assms(2) by (simp_all add: in_chip_def knows_readable_def)
  have pages: "set (get_pages F r 0) = {..<page_count F r}"
    using config_facts(4) [OF assms(1)] by (auto simp: get_pages_def)
  have range: "flash_range ?s = r" using s(1) by (simp add: in_chip_def)
  show ?thesis
    unfolding queue_try_repair_def try_general_repair_def wp_sq wp_on_cache wp_bnd [of "gets _"] wp_gets range
    by (intro wp_mono [OF wp_repair_pages [OF assms(1) s(1) _ s(2), of "get_pages F r 0"]]) (simp_all add: pages)
qed

end

section \<open>Properties\<close>

text \<open>
  C26: the repair that follows a \<open>Corrupted\<close> error ends, without a panic or an error, on any contents
  of the flash. It erases the pages whose state could not be read, leaves every other page as it
  was, and after it every page has a state again.
\<close>

theorem repair_makes_pages_readable:
  fixes s :: "('s, 'k) storage" and F :: "('s, 'e) nor_flash"
  assumes "nor_flash F ok chip" "queue_config_try_new F r = Ok (Some r)" "in_chip ok chip r s"
  shows "wp (queue_try_repair F) (\<lambda>_ t. \<forall>i < page_count F r.
      page_of F r (chip (flash t)) i = (if page_readable F r (chip (flash s)) i then page_of F r (chip (flash s)) i
        else erased (ERASE_SIZE F))
      \<and> wp (get_page_state F i) (\<lambda>_ _. True) no_err t) no_err s"
proof -
  have config: "config_ok F r" using queue_config_ok [OF assms(2)] by simp
  show ?thesis
  proof (rule wp_mono [OF nor_flash.wp_queue_try_repair_any [OF assms(1) config assms(3)]], goal_cases)
    case (1 _ t)
    have "wp (get_page_state F i) (\<lambda>_ _. True) no_err t" if i: "i < page_count F r" for i
    proof (rule wp_mono [OF nor_flash.wp_get_page_state_any [OF assms(1) config _ i]])
      have "page_readable F r (chip (flash t)) i"
        using nor_flash.repaired_readable [OF assms(1), of r "{..<page_count F r}" "chip (flash s)" "chip (flash t)" i] 1 i
        by simp
      then show "e = Corrupted \<and> \<not> page_readable F r (chip (flash t)) i \<and> in_chip ok chip r u
          \<and> chip (flash u) = chip (flash t) \<and> knows_readable F chip r u \<Longrightarrow> False" for e and u :: "('s, 'k) storage" by simp
    qed (use 1 in auto)
    then show ?case using 1 by (auto simp: nor_flash.repaired_def [OF assms(1)])
  qed simp
qed

text \<open>A flash of two pages of which the first has an end marker only.\<close>

definition torn_storage :: "(mock_flash, unit) storage" where
  "torn_storage = \<lparr> flash = (mock_new 2 4 16 Disabled None)\<lparr> mdata := erased 60 @ replicate 4 0 @ erased 64 \<rparr>,
     flash_range = (0, 128), cache = NoCache_new, data_buffer = replicate 64 0 \<rparr>"

lemma torn_config: "queue_config_try_new (mock_ops 4 16) (0, 128) = Ok (Some (0, 128))"
  by (simp add: queue_config_try_new_def config_try_new_def mock_ops_def WORD_SIZE_def MAX_WORD_SIZE_def)

lemma torn_in_chip: "in_chip (mock_ok 4) mdata (0, 128) torn_storage"
  by (simp add: in_chip_def torn_storage_def mock_ok_def mock_new_def)

lemma torn_driver: "nor_flash (mock_ops 4 16) (mock_ok 4) mdata"
  using mock_multiwrite [of 4 16] by (simp add: multiwrite_nor_flash_def)

lemma repair_makes_pages_readable_witness:
  "wp (queue_try_repair (mock_ops 4 16)) (\<lambda>_ t. page_of (mock_ops 4 16) (0, 128) (mdata (flash t)) 0 = erased 64
      \<and> wp (get_page_state (mock_ops 4 16) 0) (\<lambda>_ _. True) no_err t) no_err torn_storage"
proof -
  have count: "page_count (mock_ops 4 16) (0, 128) = 2" "ERASE_SIZE (mock_ops 4 16) = 64"
    by (simp_all add: page_count_def mock_ops_def)
  have "\<not> marked (replicate 4 (0xFF :: u8))" using marked_erased [of 4] by (simp add: erased_def)
  moreover have "marked (replicate 4 (0 :: u8))" using marked_zeros [of 4] by (simp add: MARKER_def)
  ultimately have "\<not> page_readable (mock_ops 4 16) (0, 128) (mdata (flash torn_storage)) 0"
    by (simp add: page_readable_def torn_storage_def sub_list_def calculate_page_address_def mock_ops_def erased_def)
  then show ?thesis
    by (intro wp_mono [OF repair_makes_pages_readable [OF torn_driver torn_config torn_in_chip]])
      (simp_all add: count)
qed



text \<open>
  C28: whatever the flash holds and the driver returns, \<open>read_item\<close> calls an item present only if the
  bytes it left in the buffer have the checksum of the header.
\<close>

theorem read_item_checks_data:
  assumes "read_item F h a e s = (Ok (Present it), t)"
  shows "ih_crc h = Some (adapted_crc32 (take (unat (ih_length h)) (item_data_buffer it)))
    \<and> item_data_buffer it = data_buffer t \<and> item_header it = h"
proof -
  have data: "read_item_data F h crc b n k s = (Ok True, t) \<Longrightarrow>
      adapted_crc32 (take (unat (ih_length h)) (data_buffer t)) = crc" for crc b n k s t
    by (induction k arbitrary: s) (auto simp: sq_def bnd_Ok_iff split: if_splits)
  show ?thesis
    using assms by (auto simp: read_item_def bnd_Ok_iff Let_def simp del: read_item_data.simps One_nat_def
        split: option.splits if_splits dest!: data)
qed

text \<open>The header of an empty item, at the start of a page.\<close>

lemma read_item_checks_data_witness:
  "\<exists>h it. read_item (mock_ops 4 16) h 4 60 torn_storage = (Ok (Present it), torn_storage)
    \<and> ih_crc h = Some (adapted_crc32 (take (unat (ih_length h)) (item_data_buffer it)))"
proof -
  let ?h = "\<lparr> ih_length = 0, ih_crc = Some (adapted_crc32 []) \<rparr>"
  have "read_item (mock_ops 4 16) ?h 4 60 torn_storage
      = (Ok (Present \<lparr> item_header = ?h, item_data_buffer = replicate 64 0 \<rparr>), torn_storage)"
    by (simp add: read_item_def torn_storage_def bnd_def sq_def gets_def data_address_def ItemHeader_LENGTH_def
        round_up_to_alignment_def next_multiple_of_def mock_ops_def WORD_SIZE_def Let_def) (simp add: ret_def)
  from this read_item_checks_data [OF this] show ?thesis by blast
qed

end
