(* ===== verification/ItemProperties.thy ===== *)
theory ItemProperties
  imports QueueFifo AnyFlash
begin

text \<open>
  The theorems on single items and single pages: an item that is written is read back, an erased one
  is skipped, and the states of a page are a machine with three states whose transitions keep the
  items of all pages.
\<close>

section \<open>Items\<close>

context nor_flash
begin

lemma wp_write_slot:
  assumes "inv (flash s)" "WORD_SIZE F dvd a" "WORD_SIZE F \<le> MAX_WORD_SIZE"
    and "bytes_at (mem (flash s)) a (erased (slot_size F (length d)))"
  shows "wp (write_new F a d) (\<lambda>_ t. inv (flash t) \<and> bytes_at (mem (flash t)) a (slot_bytes F (True, d))
    \<and> data_buffer t = data_buffer s) no_err s"
proof -
  have "length (slot_bytes F (True, d)) = slot_size F (length d)"
    using length_slot_bytes [OF header_slice_len_le [OF assms(3)], of "(True, d)"] by simp
  then show ?thesis
    using assms bytes_at_program_erased [of "mem (flash s)" a "slot_bytes F (True, d)"]
    by (intro wp_mono [OF wp_write_new [OF assms]]) (auto simp: bytes_at_def becomes_def)
qed

lemma wp_write_read:
  assumes "inv (flash s)" "WORD_SIZE F dvd a" "WORD_SIZE F \<le> MAX_WORD_SIZE"
    and "bytes_at (mem (flash s)) a (erased (slot_size F (length d)))" "length d \<le> u16_MAX"
    and "a + slot_size F (length d) \<le> e" "round_up_to_alignment F (length d) \<le> length (data_buffer s)"
  shows "wp (sq (write_new F a d) (bnd (read_new F a e) (\<lambda>found. case found of
      None \<Rightarrow> panic | Some h \<Rightarrow> read_item F h a e)))
    (\<lambda>mi t. mi = Present \<lparr> item_header = slot_header (True, d), item_data_buffer = data_buffer t \<rparr>
      \<and> take (length d) (data_buffer t) = d) no_err s"
  unfolding wp_sq
proof (rule wp_mono [OF wp_write_slot [OF assms(1-4)]], goal_cases)
  case (1 _ t)
  then have t: "inv (flash t)" "bytes_at (mem (flash t)) a (slot_bytes F (True, d))"
    "data_buffer t = data_buffer s" by auto
  have "wp (read_new F a e) (\<lambda>r u. r = Some (slot_header (True, d)) \<and> reads t u) no_err t"
    using assms t by (intro wp_read_new_slot) simp_all
  then show ?case
    unfolding wp_bnd
  proof (rule wp_mono, goal_cases)
    case (1 r u)
    have u: "inv (flash u)" "mem (flash u) = mem (flash t)" "data_buffer u = data_buffer t"
      using only_reads_simps [of inv mem t u] 1 by auto
    have "wp (read_item F (slot_header (True, d)) a e)
        (\<lambda>mi v. mi = Present \<lparr> item_header = slot_header (True, d), item_data_buffer = data_buffer v \<rparr>
          \<and> only_fills inv mem u v \<and> take (length d) (data_buffer v) = d
          \<and> round_up_to_alignment F (length d) \<le> length (data_buffer u))
        (\<lambda>err v. err = BufferTooSmall (round_up_to_alignment F (length d)) \<and> v = u
          \<and> length (data_buffer u) < round_up_to_alignment F (length d)) u"
      using assms t u by (intro wp_read_item_live) simp_all
    then show ?case using 1 assms(7) t(3) u(3) by (auto elim!: wp_mono)
  qed simp
qed simp

end

context multiwrite_nor_flash
begin

lemma wp_write_erase_read:
  assumes "inv (flash s)" "WORD_SIZE F dvd a" "WORD_SIZE F \<le> MAX_WORD_SIZE"
    and "bytes_at (mem (flash s)) a (erased (slot_size F (length d)))" "length d \<le> u16_MAX"
    and "a + slot_size F (length d) \<le> e"
  shows "wp (bnd (write_new F a d) (\<lambda>h. sq (erase_data F (slot_header (True, d)) a) (read_new F a e)))
    (\<lambda>found t. found = Some (slot_header (False, d))) no_err s"
  unfolding wp_bnd
proof (rule wp_mono [OF wp_write_slot [OF assms(1-4)]], goal_cases)
  case (1 _ t)
  then have t: "inv (flash t)" "bytes_at (mem (flash t)) a (slot_bytes F (True, d))" by auto
  have "a + header_slice_len F \<le> length (mem (flash t))"
    using t(2) header_slice_len_le [OF assms(3)] by (auto simp: bytes_at_def slot_bytes_def)
  then show ?case
    unfolding wp_sq
  proof (intro wp_mono [OF wp_erase_data [OF t(1) assms(2,3)]], goal_cases)
    case (2 _ u)
    then have "inv (flash u)" "bytes_at (mem (flash u)) a (slot_bytes F (False, d))"
      using slot_bytes_erase [OF t(2) assms(3)] by (auto simp: becomes_def)
    then have "wp (read_new F a e) (\<lambda>r v. r = Some (slot_header (False, d)) \<and> reads u v) no_err u"
      using assms by (intro wp_read_new_slot) simp_all
    then show ?case by (rule wp_mono) simp_all
  qed simp_all
qed simp

end

text \<open>
  C29: an item written to an erased place is found there again and read back, byte for byte, into the
  start of the caller's buffer.
\<close>

theorem item_round_trip:
  assumes "nor_flash F ok chip" "ok (flash s)" "WORD_SIZE F dvd a" "WORD_SIZE F \<le> MAX_WORD_SIZE"
    and "bytes_at (chip (flash s)) a (erased (slot_size F (length d)))" "length d \<le> u16_MAX"
    and "a + slot_size F (length d) \<le> e" "round_up_to_alignment F (length d) \<le> length (data_buffer s)"
  shows "wp (sq (write_new F a d) (bnd (read_new F a e) (\<lambda>found. case found of
      None \<Rightarrow> panic | Some h \<Rightarrow> read_item F h a e)))
    (\<lambda>mi t. mi = Present \<lparr> item_header = slot_header (True, d), item_data_buffer = data_buffer t \<rparr>
      \<and> take (length d) (data_buffer t) = d) no_err s"
  by (rule nor_flash.wp_write_read [OF assms])

lemma example_erased:
  "mock_ok 4 (flash example_storage)" "bytes_at (mdata (flash example_storage)) 4 (erased (slot_size example_flash (Suc (Suc (Suc 0)))))"
  "WORD_SIZE example_flash = 4" "round_up_to_alignment example_flash (Suc (Suc (Suc 0))) = 4"
  "slot_size example_flash (Suc (Suc (Suc 0))) = 12"
  by (simp_all add: example_storage_def mock_new_def mock_ok_def bytes_at_def sub_list_def erased_def slot_size_def
      header_slice_len_def round_up_to_alignment_def next_multiple_of_def ItemHeader_LENGTH_def mock_ops_def WORD_SIZE_def)

lemma example_buffer: "length (data_buffer example_storage) = 64"
  by (simp add: example_storage_def)

lemma item_round_trip_witness:
  "wp (sq (write_new example_flash 4 [1, 2, 3]) (bnd (read_new example_flash 4 60) (\<lambda>found. case found of
      None \<Rightarrow> panic | Some h \<Rightarrow> read_item example_flash h 4 60)))
    (\<lambda>mi t. take 3 (data_buffer t) = [1, 2, 3]) no_err example_storage"
  by (rule wp_mono [OF item_round_trip [OF example_nor_flash, of _ _ "[1, 2, 3]"]])
    (use example_erased in \<open>simp_all add: MAX_WORD_SIZE_def numeral_3_eq_3 example_buffer\<close>)

text \<open>
  Erasing an item in place, without erasing the page, leaves its length readable and makes its
  header say that there is no item: the walk over the page steps over it.
\<close>

theorem erased_item_is_skipped:
  assumes "multiwrite_nor_flash F ok chip" "ok (flash s)" "WORD_SIZE F dvd a" "WORD_SIZE F \<le> MAX_WORD_SIZE"
    and "bytes_at (chip (flash s)) a (erased (slot_size F (length d)))" "length d \<le> u16_MAX"
    and "a + slot_size F (length d) \<le> e"
  shows "wp (bnd (write_new F a d) (\<lambda>h. sq (erase_data F (slot_header (True, d)) a) (read_new F a e)))
    (\<lambda>found t. found = Some \<lparr> ih_length = of_nat (length d), ih_crc = None \<rparr>) no_err s"
  using multiwrite_nor_flash.wp_write_erase_read [OF assms] by (simp add: slot_header_def)

lemma erased_item_is_skipped_witness:
  "wp (bnd (write_new example_flash 4 [1, 2, 3]) (\<lambda>h. sq (erase_data example_flash (slot_header (True, [1, 2, 3])) 4)
      (read_new example_flash 4 60)))
    (\<lambda>found t. found = Some \<lparr> ih_length = 3, ih_crc = None \<rparr>) no_err example_storage"
  by (rule wp_mono [OF erased_item_is_skipped [OF example_driver]])
    (use example_erased in \<open>simp_all add: MAX_WORD_SIZE_def\<close>)

section \<open>The states of a page\<close>

text \<open>
  C30: the page state machine. Each operation does its transition, reads its state from the cache or
  from the flash alike, and touches the items of no page but the one that \<open>open_page\<close> erases: what
  the flash holds and what the cache says of it agree before and after.
\<close>

theorem page_state_machine:
  assumes "nor_flash F ok chip" "queue_config_try_new F r = Ok (Some r)"
    and "flash_holds F ok chip r ap s" "i < page_count F r"
  shows "wp (get_page_state F i) (\<lambda>st t. st = fst (ap i) \<and> flash_holds F ok chip r ap t) no_err s
    \<and> wp (partial_close_page F i) (\<lambda>st t. st = (if fst (ap i) = Open then PartialOpen else fst (ap i))
        \<and> flash_holds F ok chip r (ap(i := (st, snd (ap i)))) t) no_err s
    \<and> wp (close_page F i) (\<lambda>_ t. flash_holds F ok chip r (ap(i := (Closed, snd (ap i)))) t) no_err s
    \<and> wp (open_page F i) (\<lambda>_ t. flash_holds F ok chip r (ap(i := (Open, []))) t) no_err s"
proof -
  have config: "config_ok F r" using queue_config_ok [OF assms(2)] by simp
  show ?thesis
    using nor_flash.wp_get_page_state [OF assms(1) config assms(3,4)]
      nor_flash.wp_partial_close_page [OF assms(1) config assms(3,4)]
      nor_flash.wp_close_page [OF assms(1) config assms(3,4)]
      nor_flash.wp_open_page [OF assms(1) config assms(3,4)]
    by (intro conjI) (erule wp_mono, auto simp: nor_flash.partially_closed_def [OF assms(1)])+
qed

lemma page_state_machine_witness:
  "wp (close_page example_flash 1) (\<lambda>_ t. flash_holds example_flash (mock_ok 4) mdata example_range
      (used_pages(1 := (Closed, [(True, [3])]))) t) no_err (used_storage (PagePointerCache_new 2))"
proof -
  have "cache_ok example_flash example_range used_pages (PagePointerCache_new 2)"
    by (rule cache_ok_unknown) simp
  note holds = used_pages_hold [OF this]
  have "1 < page_count example_flash example_range" by (simp add: example_count)
  from page_state_machine [OF example_nor_flash example_config(1) holds this, THEN conjunct2, THEN conjunct2, THEN conjunct1]
  show ?thesis by (simp only: used_pages_def) simp
qed

section \<open>The layout\<close>

lemma page_count_pos [simp]: "0 < page_count F r"
  by (simp add: page_count_def)

text \<open>
  C37: the pages are a ring. From any page on, \<open>get_pages\<close> lists every page once, and going to the
  next page and back ends at the same page.
\<close>

theorem pages_form_a_ring:
  assumes "i < page_count F r"
  shows "distinct (get_pages F r i) \<and> set (get_pages F r i) = {..<page_count F r} \<and> hd (get_pages F r i) = i
    \<and> next_page F r i < page_count F r \<and> previous_page F r (next_page F r i) = i
    \<and> next_page F r (previous_page F r i) = i"
proof -
  let ?n = "page_count F r"
  have inj: "inj_on (\<lambda>k. (k + i) mod ?n) {..<?n}"
  proof (rule inj_onI)
    fix x y assume xy: "x \<in> {..<?n}" "y \<in> {..<?n}" "(x + i) mod ?n = (y + i) mod ?n"
    then show "x = y" using ring_inj_iff [of x y ?n i] by (simp add: add.commute)
  qed
  have "set (get_pages F r i) = (\<lambda>k. (k + i) mod ?n) ` {..<?n}" by (auto simp: get_pages_def)
  also have "\<dots> = {..<?n}" using inj by (intro endo_inj_surj) auto
  finally have set: "set (get_pages F r i) = {..<?n}" .
  have "distinct (get_pages F r i)"
    using inj unfolding get_pages_def by (simp add: distinct_map atLeast0LessThan)
  moreover have "hd (get_pages F r i) = i" using assms by (simp add: get_pages_def hd_map upt_conv_Cons)
  moreover have "previous_page F r (next_page F r i) = i"
  proof (cases "i + 1 = ?n")
    case True
    then have "next_page F r i = 0" "?n - 1 = i" by (simp_all add: next_page_def)
    then show ?thesis by (simp add: previous_page_def)
  next
    case False
    then have "i + 1 < ?n" using assms by simp
    then show ?thesis by (simp add: previous_page_def next_page_def)
  qed
  moreover have "next_page F r (previous_page F r i) = i"
    using assms by (cases i) (simp_all add: previous_page_def next_page_def)
  moreover have "next_page F r i < ?n" by (simp add: next_page_def)
  ultimately show ?thesis using set by blast
qed

lemma pages_form_a_ring_witness: "get_pages example_flash example_range 1 = [1, 0]
    \<and> previous_page example_flash example_range (next_page example_flash example_range 1) = 1"
  using pages_form_a_ring [of 1 example_flash example_range]
  by (simp add: example_count get_pages_def upt_conv_Cons)

text \<open>
  C38: no address the code forms overflows \<open>u32\<close>: on a range that ends at least 65700 bytes below
  \<open>2^32\<close>, the address behind an item, of any length its header may state, at any address of the range.
\<close>

theorem item_addresses_fit_u32:
  assumes "0 < WORD_SIZE F" "WORD_SIZE F \<le> MAX_WORD_SIZE" "a \<le> snd r" "snd r + 65700 \<le> u32_MAX"
  shows "a < data_address F a \<and> data_address F a \<le> next_item_address F h a
    \<and> next_item_address F h a + 2 * WORD_SIZE F \<le> u32_MAX"
proof -
  have up: "round_up_to_alignment F n < n + WORD_SIZE F" for n
    using next_multiple_of_less [OF assms(1)] by (simp add: round_up_to_alignment_def)
  have "unat (ih_length h) < 2 ^ LENGTH(16)" by (rule unsigned_less)
  then show ?thesis
    using assms up [of 8] up [of "unat (ih_length h)"] data_address_gt [of a F]
    by (simp add: next_item_address_def data_address_def ItemHeader_LENGTH_def MAX_WORD_SIZE_def)
qed

lemma item_addresses_fit_u32_witness:
  "next_item_address example_flash \<lparr> ih_length = 65535, ih_crc = None \<rparr> 124 + 2 * WORD_SIZE example_flash \<le> u32_MAX"
  using item_addresses_fit_u32 [of example_flash 124 example_range "\<lparr> ih_length = 65535, ih_crc = None \<rparr>"]
  by (simp add: example_erased MAX_WORD_SIZE_def)

end
