(* ===== verification/Serialization.thy ===== *)
theory Serialization
  imports Storage
begin

text \<open>
  The traits \<open>Key\<close> and \<open>Value\<close> of \<open>src/src/map.rs\<close> and their implementations there and in
  \<open>alloc_impl.rs\<close>, \<open>heapless_impl.rs\<close>, \<open>heapless_09_impl.rs\<close> and \<open>arrayvec_impl.rs\<close>. A trait is
  a record of its functions: serializing works on the caller's buffer as its state, deserializing
  reads a slice. What a codec promises is a locale; the codecs of the crate are interpretations of
  it.

  Signed integers and floats are serialized by their bits, so the words of a width stand for all
  number types of that width. A string is its UTF-8 bytes. The containers of \<open>heapless\<close> and
  \<open>arrayvec\<close> are parameters: how to view one as a slice and how to make one of a slice, which
  fails when it does not fit.
\<close>

section \<open>Traits\<close>

text \<open>The buffer is the state; a buffer too small is an error, an index out of range a panic.\<close>

type_synonym 'a ser = "(u8 list, serialization_error, 'a) m"
type_synonym 'a deser = "u8 list \<Rightarrow> (serialization_error, 'a \<times> nat) outcome"

record 'k map_key =
  key_serialize_into :: "'k \<Rightarrow> nat ser"
  key_deserialize_from :: "'k deser"
  key_get_len :: "u8 list \<Rightarrow> (serialization_error, nat) outcome"

record 'v map_value =
  value_serialize_into :: "'v \<Rightarrow> nat ser"
  value_deserialize_from :: "'v deser"

text \<open>\<open>?\<close> and \<open>map\<close> on a \<open>Result\<close>.\<close>

definition obind :: "('e, 'a) outcome \<Rightarrow> ('a \<Rightarrow> ('e, 'b) outcome) \<Rightarrow> ('e, 'b) outcome" where
  "obind r f = (case r of Ok a \<Rightarrow> f a | Err e \<Rightarrow> Err e | Panic \<Rightarrow> Panic | Diverge \<Rightarrow> Diverge)"

lemma obind_simps [simp]:
  "obind (Ok a) f = f a" "obind (Err e) f = Err e" "obind Panic f = Panic" "obind Diverge f = Diverge"
  by (simp_all add: obind_def)

text \<open>The provided method of the trait.\<close>

definition default_get_len :: "'k deser \<Rightarrow> u8 list \<Rightarrow> (serialization_error, nat) outcome" where
  "default_get_len deserialize_from buffer = obind (deserialize_from buffer) (\<lambda>(_, len). Ok len)"

text \<open>\<open>buffer.get_mut(..n)\<close> and \<open>copy_from_slice\<close>.\<close>

definition copy_to_prefix :: "serialization_error \<Rightarrow> u8 list \<Rightarrow> nat ser" where
  "copy_to_prefix e bytes =
     bnd (gets length) (\<lambda>n.
     if length bytes \<le> n then sq (modify (overwrite 0 bytes)) (ret (length bytes)) else fail e)"

section \<open>Numbers, arrays, unit and slices\<close>

definition size_of :: "'a::len word itself \<Rightarrow> nat" where
  "size_of T = LENGTH('a) div 8"

definition num_serialize_into :: "'a::len word \<Rightarrow> nat ser" where
  "num_serialize_into x = copy_to_prefix serialization_error.BufferTooSmall (to_le_bytes (size_of TYPE('a word)) x)"

definition num_deserialize_from :: "'a::len word deser" where
  "num_deserialize_from buffer =
     (let n = size_of TYPE('a word)
      in if n \<le> length buffer then Ok (from_le_bytes (take n buffer), n) else Err serialization_error.BufferTooSmall)"

definition num_key :: "'a::len word map_key" where
  "num_key = \<lparr> key_serialize_into = num_serialize_into, key_deserialize_from = num_deserialize_from,
     key_get_len = (\<lambda>_. Ok (size_of TYPE('a word))) \<rparr>"

definition num_value :: "'a::len word map_value" where
  "num_value = \<lparr> value_serialize_into = num_serialize_into, value_deserialize_from = num_deserialize_from \<rparr>"

text \<open>An array of \<open>N\<close> bytes is a list of \<open>N\<close> bytes.\<close>

definition array_key :: "nat \<Rightarrow> u8 list map_key" where
  "array_key N = \<lparr>
     key_serialize_into = copy_to_prefix serialization_error.BufferTooSmall,
     key_deserialize_from = (\<lambda>buffer.
       if N \<le> length buffer then Ok (take N buffer, N) else Err serialization_error.BufferTooSmall),
     key_get_len = (\<lambda>_. Ok N) \<rparr>"

definition unit_key :: "unit map_key" where
  "unit_key = \<lparr> key_serialize_into = (\<lambda>_. ret 0), key_deserialize_from = (\<lambda>_. Ok ((), 0)),
     key_get_len = default_get_len (\<lambda>_. Ok ((), 0)) \<rparr>"

definition bool_value :: "bool map_value" where
  "bool_value = \<lparr>
     value_serialize_into = (\<lambda>b. num_serialize_into (if b then 1 else 0 :: u8)),
     value_deserialize_from = (\<lambda>buffer.
       obind (num_deserialize_from buffer) (\<lambda>(value :: u8, used_len). Ok (value \<noteq> 0, used_len))) \<rparr>"

text \<open>Working on the tail \<open>buffer[used_len..]\<close> of the buffer.\<close>

definition on_tail :: "nat \<Rightarrow> 'a ser \<Rightarrow> 'a ser" where
  "on_tail used_len x = zoom (drop used_len) (\<lambda>tail buffer. take used_len buffer @ tail) x"

definition option_value :: "'v map_value \<Rightarrow> 'v option map_value" where
  "option_value V = \<lparr>
     value_serialize_into = (\<lambda>v. case v of
       Some val \<Rightarrow>
         bnd (value_serialize_into bool_value True) (\<lambda>used_len.
         bnd (gets length) (\<lambda>n.
         if used_len \<le> n
         then bnd (on_tail used_len (value_serialize_into V val)) (\<lambda>value_size. ret (used_len + value_size))
         else fail serialization_error.BufferTooSmall))
     | None \<Rightarrow> value_serialize_into bool_value False),
     value_deserialize_from = (\<lambda>buffer.
       obind (value_deserialize_from bool_value buffer) (\<lambda>(is_some, tag_size).
       if is_some then
         (if tag_size \<le> length buffer
          then obind (value_deserialize_from V (drop tag_size buffer)) (\<lambda>(value, value_size).
            Ok (Some value, tag_size + value_size))
          else Err serialization_error.BufferTooSmall)
       else Ok (None, tag_size))) \<rparr>"

definition slice_value :: "u8 list map_value" where
  "slice_value = \<lparr> value_serialize_into = copy_to_prefix serialization_error.BufferTooSmall,
     value_deserialize_from = (\<lambda>buffer. Ok (buffer, length buffer)) \<rparr>"

text \<open>Arrays of numbers, chunk by chunk.\<close>

fun write_chunks :: "nat \<Rightarrow> nat \<Rightarrow> 'a::len word list \<Rightarrow> u8 list \<Rightarrow> u8 list" where
  "write_chunks elem_size pos [] buffer = buffer"
| "write_chunks elem_size pos (number # numbers) buffer =
     write_chunks elem_size (pos + elem_size) numbers (overwrite pos (to_le_bytes elem_size number) buffer)"

fun read_chunks :: "nat \<Rightarrow> nat \<Rightarrow> u8 list \<Rightarrow> 'a::len word list" where
  "read_chunks elem_size 0 buffer = []"
| "read_chunks elem_size (Suc n) buffer =
     from_le_bytes (take elem_size buffer) # read_chunks elem_size n (drop elem_size buffer)"

definition num_array_value :: "nat \<Rightarrow> 'a::len word list map_value" where
  "num_array_value N = \<lparr>
     value_serialize_into = (\<lambda>xs.
       let elem_size = size_of TYPE('a word)
       in bnd (gets length) (\<lambda>n.
          if elem_size * N \<le> n then sq (modify (write_chunks elem_size 0 xs)) (ret (elem_size * N))
          else fail serialization_error.BufferTooSmall)),
     value_deserialize_from = (\<lambda>buffer.
       let elem_size = size_of TYPE('a word)
       in if length buffer < elem_size * N then Err serialization_error.BufferTooSmall
          else Ok (read_chunks elem_size N buffer, elem_size * N)) \<rparr>"

text \<open>
  Values of the crate \<open>postcard\<close>: its two functions and its errors are parameters, but for the
  errors the conversion names.
\<close>

datatype postcard_error =
    SerializeBufferFull | SerializeSeqLengthUnknown | DeserializeUnexpectedEnd | DeserializeBadVarint
  | DeserializeBadBool | DeserializeBadChar | DeserializeBadUtf8 | DeserializeBadOption
  | DeserializeBadEnum | DeserializeBadEncoding | DeserializeBadCrc | Other_postcard_error int

definition from_postcard_error :: "postcard_error \<Rightarrow> serialization_error" where
  "from_postcard_error e = (case e of
     SerializeBufferFull \<Rightarrow> serialization_error.BufferTooSmall
   | SerializeSeqLengthUnknown \<Rightarrow> InvalidData
   | Other_postcard_error code \<Rightarrow> Custom code
   | _ \<Rightarrow> InvalidFormat)"

definition postcard_value ::
  "('v \<Rightarrow> (u8 list, postcard_error, u8 list) m) \<Rightarrow> (u8 list \<Rightarrow> (postcard_error, 'v) outcome) \<Rightarrow> 'v map_value"
where
  "postcard_value to_slice from_bytes = \<lparr>
     value_serialize_into = (\<lambda>v b. case to_slice v b of (r, b') \<Rightarrow>
       (obind (map_err from_postcard_error r) (\<lambda>s. Ok (length s)), b')),
     value_deserialize_from = (\<lambda>buffer.
       obind (map_err from_postcard_error (from_bytes buffer)) (\<lambda>v. Ok (v, length buffer))) \<rparr>"

section \<open>Strings and vectors\<close>

text \<open>What \<open>core::str::from_utf8\<close> accepts.\<close>

definition in_range :: "nat \<Rightarrow> nat \<Rightarrow> u8 \<Rightarrow> bool" where
  "in_range lo hi b \<longleftrightarrow> lo \<le> unat b \<and> unat b \<le> hi"

fun is_utf8 :: "u8 list \<Rightarrow> bool" where
  "is_utf8 [] = True"
| "is_utf8 (a # bs) =
     (if in_range 0 0x7F a then is_utf8 bs
      else case bs of
        [] \<Rightarrow> False
      | b # cs \<Rightarrow>
        if in_range 0xC2 0xDF a then in_range 0x80 0xBF b \<and> is_utf8 cs
        else case cs of
          [] \<Rightarrow> False
        | c # ds \<Rightarrow>
          if in_range 0xE0 0xEF a
          then in_range (if a = 0xE0 then 0xA0 else 0x80) (if a = 0xED then 0x9F else 0xBF) b
            \<and> in_range 0x80 0xBF c \<and> is_utf8 ds
          else case ds of
            [] \<Rightarrow> False
          | d # es \<Rightarrow> in_range 0xF0 0xF4 a
              \<and> in_range (if a = 0xF0 then 0x90 else 0x80) (if a = 0xF4 then 0x8F else 0xBF) b
              \<and> in_range 0x80 0xBF c \<and> in_range 0x80 0xBF d \<and> is_utf8 es)"

text \<open>A container of bytes: its slice, and making one of a slice.\<close>

record 'c container =
  as_slice :: "'c \<Rightarrow> u8 list"
  of_slice :: "u8 list \<Rightarrow> 'c option"

text \<open>\<open>alloc\<close>'s vectors hold any bytes.\<close>

definition alloc_vec :: "u8 list container" where
  "alloc_vec = \<lparr> as_slice = (\<lambda>c. c), of_slice = Some \<rparr>"

text \<open>The keys: two bytes of length, then the bytes. The error for a short buffer is a parameter.\<close>

definition prefixed_serialize_into :: "serialization_error \<Rightarrow> u8 list \<Rightarrow> nat ser" where
  "prefixed_serialize_into e bytes =
     (if length bytes > u16_MAX then fail InvalidData
      else bnd (gets length) (\<lambda>n.
        if n < length bytes + 2 then fail e
        else
          sq (modify (overwrite 0 (to_le_bytes 2 (of_nat (length bytes) :: u16))))
          (sq (modify (overwrite 2 bytes))
              (ret (length bytes + 2)))))"

definition prefixed_get_len :: "u8 list \<Rightarrow> (serialization_error, nat) outcome" where
  "prefixed_get_len buffer =
     (if length buffer < 2 then Err serialization_error.BufferTooSmall
      else Ok (unat (from_le_bytes (take 2 buffer) :: u16) + 2))"

definition prefixed_deserialize_from :: "(u8 list \<Rightarrow> (serialization_error, 'c) outcome) \<Rightarrow> 'c deser" where
  "prefixed_deserialize_from build buffer =
     obind (prefixed_get_len buffer) (\<lambda>total_len.
     if length buffer < total_len then Err serialization_error.BufferTooSmall
     else obind (build (sub_list 2 (total_len - 2) buffer)) (\<lambda>output. Ok (output, total_len)))"

text \<open>Making a vector or a string of a slice; the error for one that does not fit is a parameter.\<close>

definition make_vec :: "serialization_error \<Rightarrow> 'c container \<Rightarrow> u8 list \<Rightarrow> (serialization_error, 'c) outcome" where
  "make_vec e C bytes = (case of_slice C bytes of Some c \<Rightarrow> Ok c | None \<Rightarrow> Err e)"

definition make_string :: "serialization_error \<Rightarrow> 'c container \<Rightarrow> u8 list \<Rightarrow> (serialization_error, 'c) outcome" where
  "make_string e C bytes = (if is_utf8 bytes then make_vec e C bytes else Err InvalidFormat)"

definition prefixed_key ::
  "serialization_error \<Rightarrow> ('c container \<Rightarrow> u8 list \<Rightarrow> (serialization_error, 'c) outcome) \<Rightarrow> 'c container \<Rightarrow> 'c map_key"
where
  "prefixed_key e build C = \<lparr> key_serialize_into = (\<lambda>c. prefixed_serialize_into e (as_slice C c)),
     key_deserialize_from = prefixed_deserialize_from (build C), key_get_len = prefixed_get_len \<rparr>"

text \<open>The values: all bytes of the slice.\<close>

definition whole_value ::
  "('c container \<Rightarrow> u8 list \<Rightarrow> (serialization_error, 'c) outcome) \<Rightarrow> 'c container \<Rightarrow> 'c map_value"
where
  "whole_value build C = \<lparr>
     value_serialize_into = (\<lambda>c. copy_to_prefix serialization_error.BufferTooSmall (as_slice C c)),
     value_deserialize_from = (\<lambda>buffer. obind (build C buffer) (\<lambda>output. Ok (output, length buffer))) \<rparr>"

definition alloc_vec_key :: "u8 list map_key" where
  "alloc_vec_key = prefixed_key serialization_error.BufferTooSmall (make_vec InvalidFormat) alloc_vec"

definition alloc_vec_value :: "u8 list map_value" where
  "alloc_vec_value = whole_value (make_vec InvalidFormat) alloc_vec"

definition alloc_string_key :: "u8 list map_key" where
  "alloc_string_key = prefixed_key serialization_error.BufferTooSmall (make_string InvalidFormat) alloc_vec"

definition alloc_string_value :: "u8 list map_value" where
  "alloc_string_value = whole_value (make_string InvalidFormat) alloc_vec"

definition heapless_vec_key :: "'c container \<Rightarrow> 'c map_key" where
  "heapless_vec_key C = prefixed_key serialization_error.BufferTooSmall (make_vec InvalidFormat) C"

definition heapless_vec_value :: "'c container \<Rightarrow> 'c map_value" where
  "heapless_vec_value C = whole_value (make_vec InvalidFormat) C"

text \<open>The string keys of both \<open>heapless\<close> versions report a short buffer as \<open>InvalidFormat\<close>.\<close>

definition heapless_string_key :: "'c container \<Rightarrow> 'c map_key" where
  "heapless_string_key C = prefixed_key InvalidFormat (make_string InvalidFormat) C"

definition heapless_string_value :: "'c container \<Rightarrow> 'c map_value" where
  "heapless_string_value C = whole_value (make_string serialization_error.BufferTooSmall) C"

definition heapless_09_vec_key :: "'c container \<Rightarrow> 'c map_key" where
  "heapless_09_vec_key C = prefixed_key serialization_error.BufferTooSmall (make_vec InvalidFormat) C"

definition heapless_09_vec_value :: "'c container \<Rightarrow> 'c map_value" where
  "heapless_09_vec_value C = whole_value (make_vec InvalidFormat) C"

definition heapless_09_string_key :: "'c container \<Rightarrow> 'c map_key" where
  "heapless_09_string_key C = prefixed_key InvalidFormat (make_string InvalidFormat) C"

definition heapless_09_string_value :: "'c container \<Rightarrow> 'c map_value" where
  "heapless_09_string_value C = whole_value (make_string serialization_error.BufferTooSmall) C"

definition arrayvec_key :: "'c container \<Rightarrow> 'c map_key" where
  "arrayvec_key C = prefixed_key serialization_error.BufferTooSmall (make_vec InvalidFormat) C"

definition arraystring_key :: "'c container \<Rightarrow> 'c map_key" where
  "arraystring_key C = prefixed_key serialization_error.BufferTooSmall (make_string InvalidFormat) C"

end
