(* ===== verification/Codecs.thy ===== *)
theory Codecs
  imports Serialization
begin

text \<open>
  The contracts of the traits \<open>Key\<close> and \<open>Value\<close> as locales, and the codecs of the crate as their
  interpretations: serializing writes the encoding to the start of the buffer, or fails and leaves
  the buffer when it is too short; deserializing reads the encoding back. A key is read back with
  anything behind it, a value from exactly its bytes.
\<close>

section \<open>The contracts\<close>

locale key_codec =
  fixes K :: "'k map_key"
    and valid :: "'k \<Rightarrow> bool"
    and enc :: "'k \<Rightarrow> u8 list"
  assumes serialize_key: "\<lbrakk>valid k; length (enc k) \<le> length b\<rbrakk> \<Longrightarrow>
      key_serialize_into K k b = (Ok (length (enc k)), overwrite 0 (enc k) b)"
    and serialize_key_short: "\<lbrakk>valid k; length b < length (enc k)\<rbrakk> \<Longrightarrow> \<exists>e. key_serialize_into K k b = (Err e, b)"
    and deserialize_key: "valid k \<Longrightarrow> key_deserialize_from K (enc k @ rest) = Ok (k, length (enc k))"
    and get_len: "valid k \<Longrightarrow> key_get_len K (enc k @ rest) = Ok (length (enc k))"

locale value_codec =
  fixes V :: "'v map_value"
    and valid :: "'v \<Rightarrow> bool"
    and enc :: "'v \<Rightarrow> u8 list"
  assumes serialize_value: "\<lbrakk>valid v; length (enc v) \<le> length b\<rbrakk> \<Longrightarrow>
      value_serialize_into V v b = (Ok (length (enc v)), overwrite 0 (enc v) b)"
    and serialize_value_short: "\<lbrakk>valid v; length b < length (enc v)\<rbrakk> \<Longrightarrow> \<exists>e b'. value_serialize_into V v b = (Err e, b')
      \<and> length b' = length b"
    and deserialize_value: "valid v \<Longrightarrow> value_deserialize_from V (enc v) = Ok (v, length (enc v))"

context key_codec
begin

text \<open>The encoding is prefix free.\<close>

lemma enc_prefix:
  assumes "valid k" "valid k'" "enc k @ xs = enc k' @ ys"
  shows "k = k' \<and> xs = ys"
  using deserialize_key [OF assms(1), of xs] deserialize_key [OF assms(2), of ys] assms(3) by auto

end

section \<open>Copying to the buffer\<close>

lemma copy_to_prefix_fits:
  "length bytes \<le> length b \<Longrightarrow> copy_to_prefix e bytes b = (Ok (length bytes), overwrite 0 bytes b)"
  by (simp add: copy_to_prefix_def bnd_def sq_def gets_def modify_def ret_def)

lemma copy_to_prefix_short: "length b < length bytes \<Longrightarrow> copy_to_prefix e bytes b = (Err e, b)"
  by (simp add: copy_to_prefix_def bnd_def gets_def fail_def)

section \<open>Numbers, arrays and unit\<close>

abbreviation num_enc :: "'a::len word \<Rightarrow> u8 list" where
  "num_enc \<equiv> to_le_bytes (size_of TYPE('a word))"

lemma num_dec:
  fixes x :: "'a::len word"
  assumes "8 dvd LENGTH('a)"
  shows "num_deserialize_from (num_enc x @ rest) = Ok (x, length (num_enc x))"
proof -
  have "LENGTH('a) \<le> 8 * size_of TYPE('a word)" using assms by (simp add: size_of_def)
  then show ?thesis by (simp add: num_deserialize_from_def Let_def from_to_le_bytes)
qed

lemma num_key_codec:
  assumes "8 dvd LENGTH('a::len)"
  shows "key_codec (num_key :: 'a word map_key) (\<lambda>_. True) num_enc"
  by unfold_locales (auto simp: num_key_def num_serialize_into_def copy_to_prefix_fits copy_to_prefix_short num_dec [OF assms])

lemma num_value_codec:
  assumes "8 dvd LENGTH('a::len)"
  shows "value_codec (num_value :: 'a word map_value) (\<lambda>_. True) num_enc"
  using num_dec [OF assms, where rest = "[]"]
  by unfold_locales (auto simp: num_value_def num_serialize_into_def copy_to_prefix_fits copy_to_prefix_short)

interpretation u8_key: key_codec "num_key :: u8 map_key" "\<lambda>_. True" num_enc by (rule num_key_codec) simp
interpretation u16_key: key_codec "num_key :: u16 map_key" "\<lambda>_. True" num_enc by (rule num_key_codec) simp
interpretation u32_key: key_codec "num_key :: u32 map_key" "\<lambda>_. True" num_enc by (rule num_key_codec) simp
interpretation u64_key: key_codec "num_key :: 64 word map_key" "\<lambda>_. True" num_enc by (rule num_key_codec) simp
interpretation u128_key: key_codec "num_key :: 128 word map_key" "\<lambda>_. True" num_enc by (rule num_key_codec) simp

interpretation u8_value: value_codec "num_value :: u8 map_value" "\<lambda>_. True" num_enc by (rule num_value_codec) simp
interpretation u16_value: value_codec "num_value :: u16 map_value" "\<lambda>_. True" num_enc by (rule num_value_codec) simp
interpretation u32_value: value_codec "num_value :: u32 map_value" "\<lambda>_. True" num_enc by (rule num_value_codec) simp
interpretation u64_value: value_codec "num_value :: 64 word map_value" "\<lambda>_. True" num_enc by (rule num_value_codec) simp
interpretation u128_value: value_codec "num_value :: 128 word map_value" "\<lambda>_. True" num_enc by (rule num_value_codec) simp

interpretation array_key: key_codec "array_key N" "\<lambda>k. length k = N" "\<lambda>k. k" for N
  by unfold_locales (auto simp: array_key_def copy_to_prefix_fits copy_to_prefix_short)

interpretation unit_key: key_codec unit_key "\<lambda>_. True" "\<lambda>_. []"
  by unfold_locales (auto simp: unit_key_def default_get_len_def ret_def overwrite_def)

interpretation slice_value: value_codec slice_value "\<lambda>_. True" "\<lambda>v. v"
  by unfold_locales (auto simp: slice_value_def copy_to_prefix_fits copy_to_prefix_short)

section \<open>Booleans and options\<close>

abbreviation bool_enc :: "bool \<Rightarrow> u8 list" where
  "bool_enc b \<equiv> num_enc (if b then 1 else 0 :: u8)"

lemma bool_dec: "value_deserialize_from bool_value (bool_enc b @ rest) = Ok (b, 1)"
  using num_dec [of "if b then 1 else 0 :: u8" rest] by (simp add: bool_value_def size_of_def)

lemma bool_ser:
  "1 \<le> length buffer \<Longrightarrow> value_serialize_into bool_value b buffer = (Ok 1, overwrite 0 (bool_enc b) buffer)"
  "length buffer < 1 \<Longrightarrow> value_serialize_into bool_value b buffer = (Err serialization_error.BufferTooSmall, buffer)"
  by (simp_all add: bool_value_def num_serialize_into_def copy_to_prefix_fits copy_to_prefix_short size_of_def)

interpretation bool_value: value_codec bool_value "\<lambda>_. True" bool_enc
  using bool_dec [where rest = "[]"] bool_ser by unfold_locales (auto simp: size_of_def)

fun option_enc :: "('v \<Rightarrow> u8 list) \<Rightarrow> 'v option \<Rightarrow> u8 list" where
  "option_enc enc None = bool_enc False"
| "option_enc enc (Some v) = bool_enc True @ enc v"

context value_codec
begin

lemma option_codec: "value_codec (option_value V) (pred_option valid) (option_enc enc)"
proof
  fix v :: "'v option" and b :: "u8 list"
  assume v: "pred_option valid v" and len: "length (option_enc enc v) \<le> length b"
  show "value_serialize_into (option_value V) v b = (Ok (length (option_enc enc v)), overwrite 0 (option_enc enc v) b)"
  proof (cases v)
    case (Some x)
    then have x: "valid x" "1 + length (enc x) \<le> length b" using v len by (simp_all add: size_of_def)
    let ?b = "overwrite 0 (bool_enc True) b"
    have "length (enc x) \<le> length (drop 1 ?b)" using x(2) by (simp add: size_of_def)
    from serialize_value [OF x(1) this]
    show ?thesis
      using x Some bool_ser(1) [of b True]
      by (simp add: option_value_def bnd_def gets_def on_tail_def zoom_def ret_def overwrite_def size_of_def)
  qed (use bool_ser(1) [of b False] len in \<open>simp add: option_value_def size_of_def\<close>)
next
  fix v :: "'v option" and b :: "u8 list"
  assume v: "pred_option valid v" and len: "length b < length (option_enc enc v)"
  show "\<exists>e b'. value_serialize_into (option_value V) v b = (Err e, b') \<and> length b' = length b"
  proof (cases v)
    case (Some x)
    then have x: "valid x" "length b < 1 + length (enc x)" using v len by (simp_all add: size_of_def)
    show ?thesis
    proof (cases "1 \<le> length b")
      case True
      let ?b = "overwrite 0 (bool_enc True) b"
      have "length (drop 1 ?b) < length (enc x)" using x(2) True by (simp add: size_of_def)
      from serialize_value_short [OF x(1) this] obtain e b'
        where "value_serialize_into V x (drop 1 ?b) = (Err e, b')" "length b' = length (drop 1 ?b)" by blast
      then show ?thesis
        using True Some bool_ser(1) [of b True]
        by (simp add: option_value_def bnd_def gets_def on_tail_def zoom_def ret_def size_of_def)
    next
      case False
      then show ?thesis using Some bool_ser(2) [of b True] by (simp add: option_value_def bnd_def not_le)
    qed
  qed (use bool_ser(2) [of b False] len in \<open>simp add: option_value_def size_of_def\<close>)
next
  fix v :: "'v option" assume "pred_option valid v"
  then show "value_deserialize_from (option_value V) (option_enc enc v) = Ok (v, length (option_enc enc v))"
    using bool_dec [of False "[]"] bool_dec [of True "enc (the v)"] deserialize_value [of "the v"]
    by (cases v) (simp_all add: option_value_def size_of_def)
qed

end

interpretation u32_option: value_codec "option_value (num_value :: u32 map_value)" "pred_option (\<lambda>_. True)" "option_enc num_enc"
  by (rule u32_value.option_codec)

section \<open>Arrays of numbers\<close>

lemma overwrite_overwrite:
  assumes "length zs = n" "pos + n + length ys \<le> length b"
  shows "overwrite (pos + n) ys (overwrite pos zs b) = overwrite pos (zs @ ys) b"
  using assms by (simp add: overwrite_def ac_simps min_def)

lemma write_chunks_eq:
  "pos + n * length xs \<le> length b \<Longrightarrow>
   write_chunks n pos xs b = overwrite pos (concat (map (to_le_bytes n) xs)) b"
proof (induction xs arbitrary: pos b)
  case (Cons x xs)
  have len: "length (concat (map (to_le_bytes n) xs)) = n * length xs"
    by (simp add: length_concat comp_def sum_list_triv)
  have "write_chunks n (pos + n) xs (overwrite pos (to_le_bytes n x) b)
      = overwrite (pos + n) (concat (map (to_le_bytes n) xs)) (overwrite pos (to_le_bytes n x) b)"
    using Cons.prems by (intro Cons.IH) (simp add: add.assoc)
  also have "\<dots> = overwrite pos (to_le_bytes n x @ concat (map (to_le_bytes n) xs)) b"
    using Cons.prems len by (intro overwrite_overwrite) (simp_all add: add.assoc)
  finally show ?case by simp
qed (simp add: overwrite_def)

lemma read_chunks_eq:
  assumes "8 dvd LENGTH('a::len)" "n = size_of TYPE('a word)"
  shows "read_chunks n (length xs) (concat (map (to_le_bytes n) xs)) = (xs :: 'a word list)"
proof -
  have "LENGTH('a) \<le> 8 * n" using assms by (simp add: size_of_def)
  then show ?thesis by (induction xs) (simp_all add: from_to_le_bytes)
qed

lemma length_num_encs: "length (concat (map num_enc xs)) = size_of TYPE('a word) * length (xs :: 'a::len word list)"
  by (simp add: length_concat comp_def sum_list_triv)

lemma num_array_codec:
  assumes "8 dvd LENGTH('a::len)"
  shows "value_codec (num_array_value N :: 'a word list map_value) (\<lambda>xs. length xs = N) (\<lambda>xs. concat (map num_enc xs))"
proof
  fix v :: "'a word list" and b :: "u8 list"
  assume v: "length v = N"
  show "length (concat (map num_enc v)) \<le> length b \<Longrightarrow> value_serialize_into (num_array_value N) v b
      = (Ok (length (concat (map num_enc v))), overwrite 0 (concat (map num_enc v)) b)"
    using v write_chunks_eq [of 0 "size_of TYPE('a word)" v b]
    by (simp add: num_array_value_def Let_def length_num_encs bnd_def sq_def gets_def modify_def ret_def)
  show "length b < length (concat (map num_enc v)) \<Longrightarrow> \<exists>e b'. value_serialize_into (num_array_value N) v b = (Err e, b')
      \<and> length b' = length b"
    using v by (simp add: num_array_value_def Let_def length_num_encs bnd_def gets_def fail_def)
  show "value_deserialize_from (num_array_value N) (concat (map num_enc v)) = Ok (v, length (concat (map num_enc v)))"
    using v read_chunks_eq [OF assms refl, of v] by (simp add: num_array_value_def Let_def length_num_encs)
qed

interpretation u16_array: value_codec "num_array_value N :: u16 list map_value" "\<lambda>xs. length xs = N"
    "\<lambda>xs. concat (map num_enc xs)" for N
  by (rule num_array_codec) simp

section \<open>Strings and vectors\<close>

definition prefixed_enc :: "u8 list \<Rightarrow> u8 list" where
  "prefixed_enc bytes = to_le_bytes 2 (of_nat (length bytes) :: u16) @ bytes"

lemma length_prefixed_enc [simp]: "length (prefixed_enc bytes) = length bytes + 2"
  by (simp add: prefixed_enc_def)

lemma prefixed_get_len_enc:
  "length bytes \<le> u16_MAX \<Longrightarrow> prefixed_get_len (prefixed_enc bytes @ rest) = Ok (length bytes + 2)"
  by (simp add: prefixed_get_len_def prefixed_enc_def from_to_le_bytes unat_of_nat)

text \<open>All string and vector keys of the crate, with the container and how to build it as parameters.\<close>

interpretation prefixed: key_codec "prefixed_key e build C"
    "\<lambda>c. length (as_slice C c) \<le> u16_MAX \<and> build C (as_slice C c) = Ok c" "\<lambda>c. prefixed_enc (as_slice C c)"
  for e :: serialization_error and build :: "'c container \<Rightarrow> u8 list \<Rightarrow> (serialization_error, 'c) outcome"
    and C :: "'c container"
proof
  fix c :: 'c and b rest :: "u8 list"
  let ?d = "as_slice C c"
  assume c: "length ?d \<le> u16_MAX \<and> build C ?d = Ok c"
  show "length (prefixed_enc ?d) \<le> length b \<Longrightarrow> key_serialize_into (prefixed_key e build C) c b
      = (Ok (length (prefixed_enc ?d)), overwrite 0 (prefixed_enc ?d) b)"
    using c overwrite_overwrite [of "to_le_bytes 2 (of_nat (length ?d) :: u16)" 2 0 ?d b]
    by (simp add: prefixed_key_def prefixed_serialize_into_def bnd_def sq_def gets_def modify_def ret_def prefixed_enc_def
        flip: numeral_2_eq_2)
  show "length b < length (prefixed_enc ?d) \<Longrightarrow> \<exists>f. key_serialize_into (prefixed_key e build C) c b = (Err f, b)"
    using c by (simp add: prefixed_key_def prefixed_serialize_into_def bnd_def gets_def fail_def)
  show "key_get_len (prefixed_key e build C) (prefixed_enc ?d @ rest) = Ok (length (prefixed_enc ?d))"
    using c by (simp add: prefixed_key_def prefixed_get_len_enc)
  have "sub_list 2 (length ?d) (prefixed_enc ?d @ rest) = ?d" by (simp add: sub_list_def prefixed_enc_def)
  then show "key_deserialize_from (prefixed_key e build C) (prefixed_enc ?d @ rest) = Ok (c, length (prefixed_enc ?d))"
    using c by (simp add: prefixed_key_def prefixed_deserialize_from_def prefixed_get_len_enc)
qed

interpretation whole: value_codec "whole_value build C" "\<lambda>c. build C (as_slice C c) = Ok c" "as_slice C"
  for build :: "'c container \<Rightarrow> u8 list \<Rightarrow> (serialization_error, 'c) outcome" and C :: "'c container"
  by unfold_locales (auto simp: whole_value_def copy_to_prefix_fits copy_to_prefix_short)

section \<open>Properties\<close>

lemmas string_key_defs = alloc_string_key_def heapless_string_key_def heapless_09_string_key_def arraystring_key_def

text \<open>
  C39: a string is read back from the key it was serialized to, with the bytes behind it in the
  buffer ignored, and the length of the key is known without decoding it. This holds of the keys of
  every string type of the crate, over any container that gives back what was taken of it.
\<close>

theorem string_key_round_trip:
  assumes "is_utf8 (as_slice C c)" "of_slice C (as_slice C c) = Some c" "length (as_slice C c) \<le> u16_MAX"
    and "length (as_slice C c) + 2 \<le> length b"
    and "K \<in> {heapless_string_key C, heapless_09_string_key C, arraystring_key C}"
  shows "\<exists>b'. key_serialize_into K c b = (Ok (length (as_slice C c) + 2), b') \<and> length b' = length b
    \<and> key_deserialize_from K b' = Ok (c, length (as_slice C c) + 2)
    \<and> key_get_len K b' = Ok (length (as_slice C c) + 2)"
proof -
  let ?d = "as_slice C c" and ?build = "make_string InvalidFormat"
  obtain e where K: "K = prefixed_key e ?build C" using assms(5) by (auto simp: string_key_defs)
  have valid: "length ?d \<le> u16_MAX \<and> ?build C ?d = Ok c" using assms(1-3) by (simp add: make_string_def make_vec_def)
  have "overwrite 0 (prefixed_enc ?d) b = prefixed_enc ?d @ drop (length ?d + 2) b" by (simp add: overwrite_def)
  then show ?thesis
    using prefixed.serialize_key [of C c ?build b e] prefixed.deserialize_key [of C c ?build e]
      prefixed.get_len [of C c ?build e] valid assms(4) unfolding K by simp
qed

lemma string_key_round_trip_witness:
  "\<exists>b'. key_serialize_into (arraystring_key alloc_vec) [0x61, 0xC3, 0xA9] (replicate 8 0) = (Ok 5, b')
    \<and> key_deserialize_from (arraystring_key alloc_vec) b' = Ok ([0x61, 0xC3, 0xA9], 5)"
proof -
  let ?s = "[0x61, 0xC3, 0xA9] :: u8 list"
  have "is_utf8 (as_slice alloc_vec ?s)" "of_slice alloc_vec (as_slice alloc_vec ?s) = Some ?s"
    "length (as_slice alloc_vec ?s) \<le> u16_MAX" "length (as_slice alloc_vec ?s) + 2 \<le> length (replicate 8 (0 :: u8))"
    "length (as_slice alloc_vec ?s) + 2 = 5"
    by (simp_all add: alloc_vec_def in_range_def)
  note facts = this
  from string_key_round_trip [OF facts(1-4), of "arraystring_key alloc_vec"]
  show ?thesis unfolding facts(5) by auto
qed



end
