(* ===== verification/MapStorage.thy ===== *)
theory MapStorage
  imports Item Serialization
begin

text \<open>
  \<open>src/src/map.rs\<close>: the key-value store. Storing appends an item with the key and the value to the
  partially open page; the newest item with a key is the value of the key. One page is kept open as
  a buffer: when the partially open page is full, the page after the next one is emptied by moving
  the items that are still the newest of their key.

  The key and value codecs are arguments; \<open>==\<close> on keys is equality. Loops over the items of a
  page are given as many rounds as the page has bytes left, loops over pages as many as there are
  pages. The assertions under the crate's own \<open>_test\<close> feature are left out.
\<close>

type_synonym ('s, 'k, 'e, 'a) map_m = "(('s, 'k) storage, 'e error, 'a) m"

text \<open>\<open>MapStorage::new\<close>; the caller's buffer is a field of the state.\<close>

definition map_storage_new :: "'s \<Rightarrow> flash_range \<Rightarrow> 'k cache \<Rightarrow> u8 list \<Rightarrow> ('s, 'k) storage" where
  "map_storage_new fl config c buffer =
     \<lparr> flash = fl, flash_range = config, cache = c, data_buffer = buffer \<rparr>"

section \<open>Codecs on the caller's buffer\<close>

text \<open>Serializing to the buffer and the errors of deserializing, as errors of the crate.\<close>

definition on_data_buffer :: "'a ser \<Rightarrow> ('s, 'k, 'e, 'a) map_m" where
  "on_data_buffer x = (\<lambda>s. case x (data_buffer s) of (r, b) \<Rightarrow> (map_err SerializationError r, s\<lparr> data_buffer := b \<rparr>))"

definition deserialized :: "(serialization_error, 'a) outcome \<Rightarrow> ('t, 'e error, 'a) m" where
  "deserialized r = lift_outcome (map_err SerializationError r)"

lemma wp_on_data_buffer [wp_simps, simp]:
  "wp (on_data_buffer x) Q E s = wp x (\<lambda>a b. Q a (s\<lparr> data_buffer := b \<rparr>))
     (\<lambda>e b. E (SerializationError e) (s\<lparr> data_buffer := b \<rparr>)) (data_buffer s)"
  by (auto simp: wp_def on_data_buffer_def map_err_def split: prod.splits outcome.splits)

text \<open>\<open>notice_key_location\<close> of the cache, with its panics.\<close>

definition note_key_location :: "'k \<Rightarrow> nat \<Rightarrow> bool \<Rightarrow> ('s, 'k, 'e, unit) map_m" where
  "note_key_location key item_address dirty =
     bnd (gets (\<lambda>s. notice_key_location key item_address dirty (cache s))) (\<lambda>noticed. case noticed of
       Some c \<Rightarrow> on_cache (\<lambda>_. c)
     | None \<Rightarrow> panic)"

text \<open>The iterator over the data area of a page.\<close>

definition page_items_iter :: "('s, 'e) nor_flash \<Rightarrow> flash_range \<Rightarrow> nat \<Rightarrow> header_iter" where
  "page_items_iter F r page_index = header_iter_new (page_data_start F r page_index) (page_data_end F r page_index)"

definition iter_fuel :: "header_iter \<Rightarrow> nat" where
  "iter_fuel it = end_address it - current_address it + 1"

section \<open>Fetching\<close>

text \<open>What was found: the header, the address, and the length of the key if it was decoded.\<close>

type_synonym found_item = "item_header \<times> nat \<times> nat option"

text \<open>The block labelled \<open>'cache\<close>; \<open>None\<close> breaks out of it.\<close>

definition fetch_cached :: "('s, 'e) nor_flash \<Rightarrow> 'k \<Rightarrow> ('s, 'k, 'e, found_item option) map_m" where
  "fetch_cached F search_key =
     bnd (gets (\<lambda>s. key_location (cache s) search_key)) (\<lambda>cached. case cached of
       None \<Rightarrow> ret None
     | Some cached_location \<Rightarrow>
         bnd (gets flash_range) (\<lambda>r.
         let page_data_end_address = page_data_end F r (calculate_page_index F r cached_location)
         in bnd (read_new F cached_location page_data_end_address) (\<lambda>found. case found of
              None \<Rightarrow> sq (on_cache invalidate_cache_state) (ret None)
            | Some header \<Rightarrow>
                bnd (read_item F header cached_location page_data_end_address) (\<lambda>mi. case mi of
                  Present it \<Rightarrow> ret (Some (item_header it, cached_location, None))
                | CorruptedItem _ _ \<Rightarrow> sq (on_cache invalidate_cache_state) (ret None)
                | ErasedItem _ _ \<Rightarrow> sq (on_cache invalidate_cache_state) (ret None)))))"

text \<open>
  The page that was written last: the partially open one, or the closed one before the first open
  page; \<open>None\<close> when all pages are open.
\<close>

definition last_used_page :: "('s, 'e) nor_flash \<Rightarrow> ('s, 'k, 'e, nat option) map_m" where
  "last_used_page F =
     bnd (find_first_page F 0 PartialOpen) (\<lambda>partial_open. case partial_open of
       Some page \<Rightarrow> ret (Some page)
     | None \<Rightarrow>
         bnd (find_first_page F 0 Open) (\<lambda>first_open. case first_open of
           Some first_open_page \<Rightarrow>
             bnd (gets (\<lambda>s. previous_page F (flash_range s) first_open_page)) (\<lambda>page.
             bnd (get_page_state F page) (\<lambda>st.
               if is_closed st then ret (Some page)
               else sq (on_cache unmark_dirty) (ret None)))
         | None \<Rightarrow> fail Corrupted))"

text \<open>The newest item with the key on a page: its address and the length of its key.\<close>

primrec search_rounds ::
  "('s, 'e) nor_flash \<Rightarrow> 'k map_key \<Rightarrow> 'k \<Rightarrow> (nat \<times> nat) option \<Rightarrow> nat
    \<Rightarrow> (('s, 'k) storage \<times> header_iter, 'e error, (nat \<times> nat) option) m"
where
  "search_rounds F K search_key newest 0 = diverge"
| "search_rounds F K search_key newest (Suc fuel) =
     bnd (item_iter_next F) (\<lambda>next_item. case next_item of
       None \<Rightarrow> ret newest
     | Some (it, address) \<Rightarrow>
         bnd (deserialized (key_deserialize_from K (item_data_buffer it))) (\<lambda>(found_key, found_key_len).
         search_rounds F K search_key
           (if found_key = search_key then Some (address, found_key_len) else newest) fuel))"

definition search_page ::
  "('s, 'e) nor_flash \<Rightarrow> 'k map_key \<Rightarrow> 'k \<Rightarrow> nat \<Rightarrow> ('s, 'k, 'e, (nat \<times> nat) option) map_m"
where
  "search_page F K search_key page_index =
     bnd (gets (\<lambda>s. page_items_iter F (flash_range s) page_index)) (\<lambda>it.
     with_local it (search_rounds F K search_key None (iter_fuel it)))"

text \<open>From page to page backwards, as long as the page before is closed.\<close>

primrec search_back ::
  "('s, 'e) nor_flash \<Rightarrow> 'k map_key \<Rightarrow> 'k \<Rightarrow> nat \<Rightarrow> nat \<Rightarrow> ('s, 'k, 'e, (nat \<times> nat) option) map_m"
where
  "search_back F K search_key current_page_to_check 0 = diverge"
| "search_back F K search_key current_page_to_check (Suc fuel) =
     bnd (search_page F K search_key current_page_to_check) (\<lambda>newest. case newest of
       Some (address, key_len) \<Rightarrow>
         sq (note_key_location search_key address False) (ret (Some (address, key_len)))
     | None \<Rightarrow>
         bnd (gets (\<lambda>s. previous_page F (flash_range s) current_page_to_check)) (\<lambda>page.
         bnd (get_page_state F page) (\<lambda>st.
           if st \<noteq> Closed then ret None
           else search_back F K search_key page fuel)))"

definition reread_item ::
  "('s, 'e) nor_flash \<Rightarrow> nat \<Rightarrow> nat \<Rightarrow> ('s, 'k, 'e, found_item option) map_m"
where
  "reread_item F address key_len =
     bnd (read_new F address u32_MAX) (\<lambda>found. case found of
       None \<Rightarrow> fail Corrupted
     | Some header \<Rightarrow>
         bnd (read_item F header address u32_MAX) (\<lambda>mi.
         bnd (maybe_item_unwrap mi) (\<lambda>it.
         ret (Some (item_header it, address, Some key_len)))))"

definition fetch_item_with_location ::
  "('s, 'e) nor_flash \<Rightarrow> 'k map_key \<Rightarrow> 'k \<Rightarrow> ('s, 'k, 'e, found_item option) map_m"
where
  "fetch_item_with_location F K search_key =
     sq drop_dirty_cache
     (bnd (fetch_cached F search_key) (\<lambda>cached. case cached of
       Some found \<Rightarrow> ret (Some found)
     | None \<Rightarrow>
         bnd (last_used_page F) (\<lambda>last_used. case last_used of
           None \<Rightarrow> ret None
         | Some page \<Rightarrow>
             bnd (gets (\<lambda>s. page_count F (flash_range s))) (\<lambda>pages.
             bnd (search_back F K search_key page pages) (\<lambda>newest.
             sq (on_cache unmark_dirty)
             (case newest of
                Some (address, key_len) \<Rightarrow> reread_item F address key_len
              | None \<Rightarrow> ret None))))))"

section \<open>Moving items and repairing\<close>

text \<open>
  The items of the source page that are still the newest of their key are written to the target
  page, one after the other from the given address on.
\<close>

primrec migrate_rounds ::
  "('s, 'e) nor_flash \<Rightarrow> 'k map_key \<Rightarrow> nat \<Rightarrow> nat \<Rightarrow> (('s, 'k) storage \<times> header_iter, 'e error, unit) m"
where
  "migrate_rounds F K next_page_write_address 0 = diverge"
| "migrate_rounds F K next_page_write_address (Suc fuel) =
     bnd (item_iter_next F) (\<lambda>next_item. case next_item of
       None \<Rightarrow> ret ()
     | Some (it, address) \<Rightarrow>
         bnd (deserialized (key_deserialize_from K (item_data_buffer it))) (\<lambda>(key, _).
         sq (lift_local (on_cache unmark_dirty))
         (bnd (lift_local (fetch_item_with_location F K key)) (\<lambda>found. case found of
           None \<Rightarrow> fail Corrupted
         | Some (header, found_address, _) \<Rightarrow>
             bnd (gets (\<lambda>t. reborrow header (data_buffer (fst t)))) (\<lambda>reborrowed. case reborrowed of
               None \<Rightarrow> fail LogicBug
             | Some found_item \<Rightarrow>
                 if found_address = address
                 then
                   sq (lift_local (note_key_location key next_page_write_address True))
                   (sq (lift_local (item_write F found_item next_page_write_address))
                       (migrate_rounds F K
                         (next_item_address F (item_header found_item) next_page_write_address) fuel))
                 else migrate_rounds F K next_page_write_address fuel)))))"

definition migrate_items ::
  "('s, 'e) nor_flash \<Rightarrow> 'k map_key \<Rightarrow> nat \<Rightarrow> nat \<Rightarrow> ('s, 'k, 'e, unit) map_m"
where
  "migrate_items F K source_page target_page =
     bnd (gets flash_range) (\<lambda>r.
     let it = page_items_iter F r source_page
     in sq (with_local it (migrate_rounds F K (page_data_start F r target_page) (iter_fuel it)))
           (open_page F source_page))"

definition map_try_repair :: "('s, 'e) nor_flash \<Rightarrow> 'k map_key \<Rightarrow> ('s, 'k, 'e, unit) map_m" where
  "map_try_repair F K =
     sq (on_cache invalidate_cache_state)
     (sq (try_general_repair F)
     (bnd (find_first_page F 0 PartialOpen) (\<lambda>partial_open. case partial_open of
       None \<Rightarrow> ret ()
     | Some partial_open_page \<Rightarrow>
         bnd (gets (\<lambda>s. next_page F (flash_range s) partial_open_page)) (\<lambda>buffer_page.
         bnd (get_page_state F buffer_page) (\<lambda>st.
         if is_open st then ret ()
         else
           sq (open_page F partial_open_page)
           (sq (partial_close_page F partial_open_page)
               (migrate_items F K buffer_page partial_open_page)))))))"

text \<open>The value of a key; the slices of the buffer panic when the lengths do not fit.\<close>

definition fetch_item ::
  "('s, 'e) nor_flash \<Rightarrow> 'k map_key \<Rightarrow> 'v map_value \<Rightarrow> 'k \<Rightarrow> ('s, 'k, 'e, 'v option) map_m"
where
  "fetch_item F K V search_key =
     bnd (run_with_auto_repair (fetch_item_with_location F K search_key) (map_try_repair F K)) (\<lambda>found.
     case found of
       None \<Rightarrow> ret None
     | Some (header, _, known_key_len) \<Rightarrow>
         let data_len = unat (ih_length header)
         in bnd (gets data_buffer) (\<lambda>buffer.
            bnd (case known_key_len of
                   Some key_len \<Rightarrow> ret key_len
                 | None \<Rightarrow>
                     sq (assert_that (data_len \<le> length buffer))
                        (deserialized (key_get_len K (take data_len buffer)))) (\<lambda>key_len.
            sq (assert_that (key_len \<le> data_len \<and> data_len \<le> length buffer))
            (bnd (deserialized (value_deserialize_from V (sub_list key_len (data_len - key_len) buffer)))
              (\<lambda>(val, _). ret (Some val))))))"

section \<open>Storing\<close>

text \<open>The key, then the value behind it; the length of both.\<close>

definition serialize_item ::
  "'k map_key \<Rightarrow> 'v map_value \<Rightarrow> 'k \<Rightarrow> 'v \<Rightarrow> ('s, 'k, 'e, nat) map_m"
where
  "serialize_item K V key val =
     bnd (on_data_buffer (key_serialize_into K key)) (\<lambda>key_len.
     bnd (gets (\<lambda>s. length (data_buffer s))) (\<lambda>n.
     sq (assert_that (key_len \<le> n))
     (bnd (on_data_buffer (on_tail key_len (value_serialize_into V val))) (\<lambda>value_len.
      ret (key_len + value_len)))))"

text \<open>
  Writing to the partially open page: \<open>None\<close> when the item was stored, else the next page, after
  this one was closed.
\<close>

definition store_in_page ::
  "('s, 'e) nor_flash \<Rightarrow> 'k map_key \<Rightarrow> 'v map_value \<Rightarrow> 'k \<Rightarrow> 'v \<Rightarrow> nat \<Rightarrow> ('s, 'k, 'e, nat option) map_m"
where
  "store_in_page F K V key val partial_open_page =
     bnd (gets flash_range) (\<lambda>r.
     bnd (get_page_state F (next_page F r partial_open_page)) (\<lambda>st.
     if \<not> is_open st then fail Corrupted
     else
       bnd (serialize_item K V key val) (\<lambda>item_data_length.
       if item_data_length > u16_MAX \<or> item_data_length > calculate_page_size F - data_address F 0
       then sq (on_cache unmark_dirty) (fail ItemTooBig)
       else
         bnd (find_next_free_item_spot F (page_data_start F r partial_open_page)
                (page_data_end F r partial_open_page) item_data_length) (\<lambda>free_spot_address.
         case free_spot_address of
           Some address \<Rightarrow>
             sq (note_key_location key address True)
             (bnd (gets data_buffer) (\<lambda>buffer.
              sq (assert_that (item_data_length \<le> length buffer))
              (sq (write_new F address (take item_data_length buffer))
              (sq (on_cache unmark_dirty)
                  (ret None)))))
         | None \<Rightarrow>
             sq (close_page F partial_open_page)
                (ret (Some (next_page F r partial_open_page)))))))"

text \<open>Starting the page after a full one, and emptying the one that becomes the buffer.\<close>

definition start_next_page ::
  "('s, 'e) nor_flash \<Rightarrow> 'k map_key \<Rightarrow> nat \<Rightarrow> ('s, 'k, 'e, unit) map_m"
where
  "start_next_page F K next_page_to_use =
     bnd (get_page_state F next_page_to_use) (\<lambda>st.
     if \<not> is_open st then fail Corrupted
     else
       sq (partial_close_page F next_page_to_use)
       (bnd (gets (\<lambda>s. next_page F (flash_range s) next_page_to_use)) (\<lambda>next_buffer_page.
        bnd (get_page_state F next_buffer_page) (\<lambda>buffer_state.
        if \<not> is_open buffer_state then migrate_items F K next_buffer_page next_page_to_use
        else ret ()))))"

definition start_first_page :: "('s, 'e) nor_flash \<Rightarrow> ('s, 'k, 'e, unit) map_m" where
  "start_first_page F =
     bnd (find_first_page F 0 Open) (\<lambda>first_open. case first_open of
       None \<Rightarrow> fail Corrupted
     | Some first_open_page \<Rightarrow> sq (partial_close_page F first_open_page) (ret ()))"

text \<open>The loop; its argument is how many levels are left until it gives up.\<close>

primrec store_levels ::
  "('s, 'e) nor_flash \<Rightarrow> 'k map_key \<Rightarrow> 'v map_value \<Rightarrow> 'k \<Rightarrow> 'v \<Rightarrow> nat \<Rightarrow> ('s, 'k, 'e, unit) map_m"
where
  "store_levels F K V key val 0 = sq (on_cache unmark_dirty) (fail FullStorage)"
| "store_levels F K V key val (Suc levels) =
     bnd (find_first_page F 0 PartialOpen) (\<lambda>partial_open. case partial_open of
       Some partial_open_page \<Rightarrow>
         bnd (store_in_page F K V key val partial_open_page) (\<lambda>next_page_to_use. case next_page_to_use of
           None \<Rightarrow> ret ()
         | Some page \<Rightarrow> sq (start_next_page F K page) (store_levels F K V key val levels))
     | None \<Rightarrow> sq (start_first_page F) (store_levels F K V key val levels))"

definition store_item_inner ::
  "('s, 'e) nor_flash \<Rightarrow> 'k map_key \<Rightarrow> 'v map_value \<Rightarrow> 'k \<Rightarrow> 'v \<Rightarrow> ('s, 'k, 'e, unit) map_m"
where
  "store_item_inner F K V key val =
     sq drop_dirty_cache
     (bnd (gets (\<lambda>s. length (get_pages F (flash_range s) 0))) (store_levels F K V key val))"

definition store_item ::
  "('s, 'e) nor_flash \<Rightarrow> 'k map_key \<Rightarrow> 'v map_value \<Rightarrow> 'k \<Rightarrow> 'v \<Rightarrow> ('s, 'k, 'e, unit) map_m"
where
  "store_item F K V key val = run_with_auto_repair (store_item_inner F K V key val) (map_try_repair F K)"

section \<open>Removing\<close>

text \<open>One page: every present item that matches is erased.\<close>

primrec remove_rounds ::
  "('s, 'e) nor_flash \<Rightarrow> 'k map_key \<Rightarrow> 'k option \<Rightarrow> nat \<Rightarrow> (('s, 'k) storage \<times> header_iter, 'e error, unit) m"
where
  "remove_rounds F K search_key 0 = diverge"
| "remove_rounds F K search_key (Suc fuel) =
     bnd (header_iter_next F) (\<lambda>(found, address). case found of
       None \<Rightarrow> ret ()
     | Some header \<Rightarrow>
         bnd (gets (\<lambda>t. end_address (snd t))) (\<lambda>end_addr.
         bnd (lift_local (read_item F header address end_addr)) (\<lambda>mi. case mi of
           CorruptedItem _ _ \<Rightarrow> remove_rounds F K search_key fuel
         | ErasedItem _ _ \<Rightarrow> remove_rounds F K search_key fuel
         | Present it \<Rightarrow>
             bnd (case search_key of
                    Some key \<Rightarrow>
                      bnd (deserialized (key_deserialize_from K (item_data_buffer it))) (\<lambda>(found_key, _).
                        ret (found_key = key))
                  | None \<Rightarrow> ret True) (\<lambda>item_match.
             if item_match
             then sq (lift_local (erase_data F (item_header it) address)) (remove_rounds F K search_key fuel)
             else remove_rounds F K search_key fuel))))"

definition remove_on_page ::
  "('s, 'e) nor_flash \<Rightarrow> 'k map_key \<Rightarrow> 'k option \<Rightarrow> nat \<Rightarrow> ('s, 'k, 'e, unit) map_m"
where
  "remove_on_page F K search_key page_index =
     bnd (get_page_state F page_index) (\<lambda>st.
     if is_open st then ret ()
     else
       bnd (gets (\<lambda>s. page_items_iter F (flash_range s) page_index)) (\<lambda>it.
       with_local it (remove_rounds F K search_key (iter_fuel it))))"

definition remove_item_inner ::
  "('s, 'e) nor_flash \<Rightarrow> 'k map_key \<Rightarrow> 'k option \<Rightarrow> ('s, 'k, 'e, unit) map_m"
where
  "remove_item_inner F K search_key =
     sq (case search_key of
           Some key \<Rightarrow> on_cache (notice_key_erased key)
         | None \<Rightarrow> on_cache invalidate_cache_state)
     (bnd (find_first_page F 0 PartialOpen) (\<lambda>partial_open.
      let last_used = (case partial_open of Some page \<Rightarrow> page | None \<Rightarrow> 0)
      in bnd (gets (\<lambda>s. get_pages F (flash_range s) (next_page F (flash_range s) last_used))) (\<lambda>pages.
         sq (for_each pages (remove_on_page F K search_key))
            (on_cache unmark_dirty))))"

definition remove_item :: "('s, 'e) nor_flash \<Rightarrow> 'k map_key \<Rightarrow> 'k \<Rightarrow> ('s, 'k, 'e, unit) map_m" where
  "remove_item F K search_key =
     run_with_auto_repair (remove_item_inner F K (Some search_key)) (map_try_repair F K)"

definition remove_all_items :: "('s, 'e) nor_flash \<Rightarrow> 'k map_key \<Rightarrow> ('s, 'k, 'e, unit) map_m" where
  "remove_all_items F K = run_with_auto_repair (remove_item_inner F K None) (map_try_repair F K)"

section \<open>Iterating over all items\<close>

record map_item_iter =
  mi_first_page :: nat
  mi_current_page_index :: nat
  mi_current_iter :: header_iter

definition first_page_of_map :: "('s, 'e) nor_flash \<Rightarrow> ('s, 'k, 'e, nat) map_m" where
  "first_page_of_map F =
     bnd (find_first_page F 0 PartialOpen) (\<lambda>partial_open. case partial_open of
       Some last_used \<Rightarrow> gets (\<lambda>s. next_page F (flash_range s) last_used)
     | None \<Rightarrow>
         bnd (find_first_page F 0 Open) (\<lambda>first_open. case first_open of
           Some first_open_page \<Rightarrow>
             bnd (gets (\<lambda>s. previous_page F (flash_range s) first_open_page)) (\<lambda>page.
             bnd (get_page_state F page) (\<lambda>st.
               if is_closed st then ret first_open_page
               else sq (on_cache unmark_dirty) (ret 0)))
         | None \<Rightarrow> fail Corrupted))"

definition fetch_all_items :: "('s, 'e) nor_flash \<Rightarrow> 'k map_key \<Rightarrow> ('s, 'k, 'e, map_item_iter) map_m" where
  "fetch_all_items F K =
     bnd (run_with_auto_repair (first_page_of_map F) (map_try_repair F K)) (\<lambda>page.
     bnd (gets (\<lambda>s. page_items_iter F (flash_range s) page)) (\<lambda>it.
     ret \<lparr> mi_first_page = page, mi_current_page_index = page, mi_current_iter = it \<rparr>))"

type_synonym ('s, 'k, 'e, 'a) map_iter_m = "(('s, 'k) storage \<times> map_item_iter, 'e error, 'a) m"

text \<open>The item iterator inside the map iterator.\<close>

definition on_current_iter ::
  "(('s, 'k) storage \<times> header_iter, 'e error, 'a) m \<Rightarrow> ('s, 'k, 'e, 'a) map_iter_m"
where
  "on_current_iter x = zoom (\<lambda>(s, it). (s, mi_current_iter it))
     (\<lambda>(s, h) (_, it). (s, it\<lparr> mi_current_iter := h \<rparr>)) x"

text \<open>
  The next page that is not open, \<open>False\<close> when the first page is reached again. An error of
  \<open>get_page_state\<close> skips the page.
\<close>

primrec next_map_page :: "('s, 'e) nor_flash \<Rightarrow> nat \<Rightarrow> ('s, 'k, 'e, bool) map_iter_m" where
  "next_map_page F 0 = diverge"
| "next_map_page F (Suc fuel) =
     sq (modify (\<lambda>(s, it). (s, it\<lparr> mi_current_page_index :=
          next_page F (flash_range s) (mi_current_page_index it) \<rparr>)))
     (bnd (gets (\<lambda>(s, it). mi_current_page_index it)) (\<lambda>page.
      bnd (gets (\<lambda>(s, it). mi_first_page it)) (\<lambda>first.
      if page = first then ret False
      else
        bnd (attempt (lift_local (get_page_state F page))) (\<lambda>st. case st of
          Inr Closed \<Rightarrow> sq (modify (\<lambda>(s, it). (s, it\<lparr> mi_current_iter := page_items_iter F (flash_range s) page \<rparr>))) (ret True)
        | Inr PartialOpen \<Rightarrow> sq (modify (\<lambda>(s, it). (s, it\<lparr> mi_current_iter := page_items_iter F (flash_range s) page \<rparr>))) (ret True)
        | Inr Open \<Rightarrow> next_map_page F fuel
        | Inl _ \<Rightarrow> next_map_page F fuel))))"

primrec next_map_item :: "('s, 'e) nor_flash \<Rightarrow> nat \<Rightarrow> ('s, 'k, 'e, item option) map_iter_m" where
  "next_map_item F 0 = diverge"
| "next_map_item F (Suc fuel) =
     bnd (on_current_iter (item_iter_next F)) (\<lambda>found. case found of
       Some (it, _) \<Rightarrow> ret (Some it)
     | None \<Rightarrow>
         bnd (gets (\<lambda>(s, _). page_count F (flash_range s))) (\<lambda>pages.
         bnd (next_map_page F pages) (\<lambda>more.
         if more then next_map_item F fuel else ret None)))"

definition map_item_iter_next ::
  "('s, 'e) nor_flash \<Rightarrow> 'k map_key \<Rightarrow> 'v map_value \<Rightarrow> ('s, 'k, 'e, ('k \<times> 'v) option) map_iter_m"
where
  "map_item_iter_next F K V =
     bnd (gets (\<lambda>(s, _). page_count F (flash_range s))) (\<lambda>pages.
     bnd (next_map_item F pages) (\<lambda>found. case found of
       None \<Rightarrow> ret None
     | Some it \<Rightarrow>
         let data_len = unat (ih_length (item_header it))
         in bnd (deserialized (key_deserialize_from K (item_data_buffer it))) (\<lambda>(key, key_len).
            bnd (gets (\<lambda>(s, _). data_buffer s)) (\<lambda>buffer.
            sq (assert_that (data_len \<le> length buffer \<and> key_len \<le> data_len))
            (bnd (deserialized (value_deserialize_from V (drop key_len (take data_len buffer)))) (\<lambda>(val, _).
            ret (Some (key, val))))))))"

end
