(* ===== verification/MapFrame.thy ===== *)
theory MapFrame
  imports MapStorage
begin

text \<open>
  What the operations below the map leave alone: none of them touches the cached key locations.
  \<open>leaves g x\<close> says that \<open>x\<close> does not change what \<open>g\<close> sees of the state, however it ends; the
  facts are composed along the definitions, and \<open>wp_leaves\<close> adds one to a specification.
\<close>

definition leaves :: "('s \<Rightarrow> 'b) \<Rightarrow> ('s, 'e, 'a) m \<Rightarrow> bool" where
  "leaves g x \<longleftrightarrow> (\<forall>s. g (snd (x s)) = g s)"

lemma wp_leaves:
  assumes "leaves g x" "wp x Q E s"
  shows "wp x (\<lambda>a t. Q a t \<and> g t = g s) (\<lambda>e t. E e t \<and> g t = g s) s"
proof (cases "x s")
  case (Pair r t)
  then have "g t = g s" using assms(1) unfolding leaves_def by (metis snd_conv)
  then show ?thesis using Pair assms(2) by (auto simp: wp_def split: outcome.splits)
qed

section \<open>The combinators\<close>

named_theorems leaves_intros \<open>what leaves the key locations alone\<close>

lemma leaves_basic [leaves_intros]:
  "leaves g (ret a)" "leaves g (fail e)" "leaves g panic" "leaves g diverge" "leaves g (gets f)"
  "leaves g (assert_that b)" "leaves g (checked_minus m n)" "leaves g (lift_outcome r)"
  by (simp_all add: leaves_def ret_def fail_def panic_def diverge_def gets_def assert_that_def
      checked_minus_def lift_outcome_def)

lemma leaves_bnd [leaves_intros]: "leaves g x \<Longrightarrow> (\<And>a. leaves g (f a)) \<Longrightarrow> leaves g (bnd x f)"
  by (auto simp: leaves_def bnd_def split: prod.splits outcome.splits) (metis snd_conv)+

lemma leaves_sq [leaves_intros]: "leaves g x \<Longrightarrow> leaves g y \<Longrightarrow> leaves g (sq x y)"
  by (simp add: sq_def leaves_bnd)

lemma leaves_attempt [leaves_intros]: "leaves g x \<Longrightarrow> leaves g (attempt x)"
  by (auto simp: leaves_def attempt_def split: prod.splits outcome.splits) (metis snd_conv)+

lemma leaves_modify: "(\<And>s. g (f s) = g s) \<Longrightarrow> leaves g (modify f)"
  by (simp add: leaves_def modify_def)

lemma leaves_if [leaves_intros]: "leaves g x \<Longrightarrow> leaves g y \<Longrightarrow> leaves g (if b then x else y)"
  by simp

section \<open>The key locations\<close>

abbreviation cached_keys :: "('s, 'k) storage \<Rightarrow> 'k key_pointers_cache" where
  "cached_keys s \<equiv> key_pointers (cache s)"

abbreviation cached_keys_fst :: "('s, 'k) storage \<times> 'i \<Rightarrow> 'k key_pointers_cache" where
  "cached_keys_fst t \<equiv> key_pointers (cache (fst t))"

lemma leaves_on_flash [leaves_intros]: "leaves cached_keys (on_flash x)"
  by (simp add: leaves_def on_flash_def split: prod.splits)

lemma leaves_on_cache: "(\<And>c. key_pointers (f c) = key_pointers c) \<Longrightarrow> leaves cached_keys (on_cache f)"
  by (simp add: on_cache_def leaves_modify)

lemma keeps_keys:
  "key_pointers (mark_dirty c) = key_pointers c"
  "key_pointers (unmark_dirty c) = key_pointers c"
  "key_pointers (notice_page_state i st d c) = key_pointers c"
  "key_pointers (notice_item_written F r a h c) = key_pointers c"
  "key_pointers (notice_item_erased F r a h c) = key_pointers c"
  by (simp_all add: mark_dirty_def unmark_dirty_def notice_page_state_def notice_item_written_def
      notice_item_erased_def Let_def)

lemma leaves_notices [leaves_intros]:
  "leaves cached_keys (on_cache unmark_dirty)"
  "leaves cached_keys (on_cache (notice_page_state i st d))"
  "leaves cached_keys (on_cache (notice_item_written F r a h))"
  "leaves cached_keys (on_cache (notice_item_erased F r a h))"
  by (simp_all add: leaves_on_cache keeps_keys)

lemma leaves_fill_buffer [leaves_intros]: "leaves cached_keys (modify (\<lambda>s. s\<lparr> data_buffer := f s \<rparr>))"
  by (simp add: leaves_modify)

lemma leaves_on_data_buffer [leaves_intros]: "leaves cached_keys (on_data_buffer x)"
  by (simp add: leaves_def on_data_buffer_def split: prod.splits)

lemma leaves_lift_local [leaves_intros]: "leaves cached_keys x \<Longrightarrow> leaves cached_keys_fst (lift_local x)"
  by (auto simp: leaves_def lift_local_def split: prod.splits) (metis snd_conv)

lemma leaves_with_local [leaves_intros]: "leaves cached_keys_fst x \<Longrightarrow> leaves cached_keys (with_local i x)"
  by (auto simp: leaves_def with_local_def split: prod.splits) (metis fst_conv snd_conv)

section \<open>The operations\<close>

lemma leaves_get_page_state [leaves_intros]: "leaves cached_keys (get_page_state F i)"
  unfolding get_page_state_def by (auto intro!: leaves_intros split: option.split bool.split)

lemma leaves_open_page [leaves_intros]: "leaves cached_keys (open_page F i)"
  unfolding open_page_def by (intro leaves_intros)

lemma leaves_write_marker [leaves_intros]: "leaves cached_keys (write_marker F a)"
  unfolding write_marker_def by (intro leaves_intros)

lemma leaves_partial_close_page [leaves_intros]: "leaves cached_keys (partial_close_page F i)"
  unfolding partial_close_page_def Let_def by (intro leaves_intros)

lemma leaves_close_page [leaves_intros]: "leaves cached_keys (close_page F i)"
  unfolding close_page_def by (intro leaves_intros)

lemma leaves_find_first_page [leaves_intros]: "leaves cached_keys (find_first_page F j st)"
proof -
  have "leaves cached_keys (first_page_in F st pages :: (('s, 'k) storage, 'e error, nat option) m)" for F pages
    by (induction pages) (auto intro!: leaves_intros)
  then show ?thesis unfolding find_first_page_def by (intro leaves_intros)
qed

lemma leaves_try_general_repair [leaves_intros]: "leaves cached_keys (try_general_repair F)"
proof -
  have [leaves_intros]: "leaves cached_keys (for_each pages (body :: nat \<Rightarrow> (('s, 'k) storage, 'e error, unit) m))"
    if "\<And>i. leaves cached_keys (body i)" for pages body
    by (induction pages) (auto intro!: leaves_intros that)
  show ?thesis
    unfolding try_general_repair_def
    by (intro leaves_intros) (auto intro!: leaves_intros split: sum.split error.split)
qed

lemma leaves_read_new [leaves_intros]: "leaves cached_keys (read_new F a e)"
proof -
  have "leaves cached_keys (read_header_bytes F a k :: (('s, 'k) storage, 'e error, u8 list option) m)" for F a k
    by (induction k) (auto intro!: leaves_intros)
  then show ?thesis
    unfolding read_new_def Let_def by (auto intro!: leaves_intros split: option.split)
qed

lemma leaves_read_item [leaves_intros]: "leaves cached_keys (read_item F h a e)"
proof -
  have "leaves cached_keys (read_item_data F h c a n k :: (('s, 'k) storage, 'e error, bool) m)" for F h c a n k
    by (induction k) (auto intro!: leaves_intros simp del: wp_on_flash)
  then show ?thesis
    unfolding read_item_def Let_def by (auto intro!: leaves_intros split: option.split)
qed

lemma leaves_header_write [leaves_intros]: "leaves cached_keys (header_write F h a)"
  unfolding header_write_def by (intro leaves_intros)

lemma leaves_erase_data [leaves_intros]: "leaves cached_keys (erase_data F h a)"
  unfolding erase_data_def Let_def by (intro leaves_intros)

lemma leaves_write_raw [leaves_intros]: "leaves cached_keys (write_raw F h d a)"
  unfolding write_raw_def Let_def by (intro leaves_intros)

lemma leaves_write_new [leaves_intros]: "leaves cached_keys (write_new F a d)"
  unfolding write_new_def Let_def by (intro leaves_intros)

lemma leaves_item_write [leaves_intros]: "leaves cached_keys (item_write F it a)"
  unfolding item_write_def by (intro leaves_intros)

lemma leaves_traverse [leaves_intros]:
  fixes F :: "('s, 'e) nor_flash"
  shows "leaves cached_keys_fst (traverse F callback :: (('s, 'k) storage \<times> header_iter, 'e error, item_header option \<times> nat) m)"
proof -
  have "cached_keys_fst (snd (traverse F callback t)) = cached_keys_fst t" for t :: "('s, 'k) storage \<times> header_iter"
  proof (induction F callback t rule: traverse.induct)
    case (1 F callback t)
    obtain s it where t: "t = (s, it)" by (cases t)
    obtain r u where run: "read_new F (current_address it) (end_address it) s = (r, u)" by (cases "read_new F (current_address it) (end_address it) s")
    have u: "cached_keys u = cached_keys s"
      using leaves_read_new [of F "current_address it" "end_address it"] run unfolding leaves_def by (metis snd_conv)
    show ?case
      using 1 u run unfolding t
      by (subst traverse.simps) (auto simp: lift_local_def Let_def split: outcome.splits option.splits error.splits)
  qed
  then show ?thesis by (simp add: leaves_def)
qed

lemma leaves_item_iter_next [leaves_intros]: "leaves cached_keys_fst (item_iter_next F)"
proof -
  have "leaves cached_keys_fst (item_iter_rounds F k :: (('s, 'k) storage \<times> header_iter, 'e error, (item \<times> nat) option) m)" for F k
    by (induction k) (auto simp: header_iter_next_def intro!: leaves_intros split: option.split maybe_item.split)
  then show ?thesis unfolding item_iter_next_def by (intro leaves_intros)
qed

lemma leaves_find_next_free_item_spot [leaves_intros]: "leaves cached_keys (find_next_free_item_spot F a e n)"
  unfolding find_next_free_item_spot_def by (auto intro!: leaves_intros split: option.split)

end
