(* ===== verification/MapModel.thy ===== *)
theory MapModel
  imports MapFrame QueueRing Codecs
begin

text \<open>
  The map a flash holds. The live items of the pages with their addresses, oldest page first, are
  its entries; the newest entry with a key gives the value of the key. The pages form a ring as
  those of a queue do, and between operations at least one open page is behind the page that is
  written to. This theory defines that relation and the contract the operations of the map are
  proved under, and says what the item iterators see.
\<close>

section \<open>Live items and their addresses\<close>

type_synonym map_entry = "nat \<times> u8 list"

fun live_at :: "('s, 'e) nor_flash \<Rightarrow> nat \<Rightarrow> slot list \<Rightarrow> map_entry list" where
  "live_at F a [] = []"
| "live_at F a ((l, d) # ss) = (if l then [(a, d)] else []) @ live_at F (a + slot_size F (length d)) ss"

definition page_entries :: "('s, 'e) nor_flash \<Rightarrow> flash_range \<Rightarrow> (nat \<Rightarrow> apage) \<Rightarrow> nat \<Rightarrow> map_entry list" where
  "page_entries F r ap i = live_at F (page_data_start F r i) (snd (ap i))"

text \<open>The entries of the pages at the offsets 1 to \<open>j\<close> behind page \<open>y\<close>.\<close>

definition entries_upto :: "('s, 'e) nor_flash \<Rightarrow> flash_range \<Rightarrow> (nat \<Rightarrow> apage) \<Rightarrow> nat \<Rightarrow> nat \<Rightarrow> map_entry list" where
  "entries_upto F r ap y j = concat (map (\<lambda>i. page_entries F r ap ((y + i) mod page_count F r)) [1..<Suc j])"

definition ring_entries :: "('s, 'e) nor_flash \<Rightarrow> flash_range \<Rightarrow> (nat \<Rightarrow> apage) \<Rightarrow> nat \<Rightarrow> map_entry list" where
  "ring_entries F r ap y = entries_upto F r ap y (page_count F r)"

lemma entries_upto_simps [simp]:
  "entries_upto F r ap y 0 = []"
  "entries_upto F r ap y (Suc j) = entries_upto F r ap y j @ page_entries F r ap ((y + Suc j) mod page_count F r)"
  by (simp_all add: entries_upto_def)

lemma page_entries_Nil [simp]: "snd (ap i) = [] \<Longrightarrow> page_entries F r ap i = []"
  by (simp add: page_entries_def)

context nor_flash
begin

lemma live_at_append: "live_at F a (ss @ ts) = live_at F a ss @ live_at F (a + slots_size F ss) ts"
  by (induction ss arbitrary: a) (auto simp: add.assoc)

lemma live_at_in:
  "(b, d) \<in> set (live_at F a ss) \<Longrightarrow> \<exists>pre post. ss = pre @ (True, d) # post \<and> b = a + slots_size F pre"
proof (induction F a ss rule: live_at.induct)
  case (2 F a l d' ss)
  show ?case
  proof (cases "(b, d) = (a, d') \<and> l")
    case True
    then show ?thesis by (intro exI [of _ "[]"] exI [of _ ss]) (simp add: slots_size_def)
  next
    case False
    then obtain pre post where "ss = pre @ (True, d) # post" "b = a + slot_size F (length d') + slots_size F pre"
      using 2 by (auto split: if_splits)
    then show ?thesis by (intro exI [of _ "(l, d') # pre"] exI [of _ post]) (simp add: slots_size_def)
  qed
qed simp

lemma live_at_split: "live_at F a (pre @ (True, d) # post) =
    live_at F a pre @ (a + slots_size F pre, d) # live_at F (a + slots_size F pre + slot_size F (length d)) post"
  by (simp add: live_at_append)

lemma slot_size_positive: "0 < slot_size F n"
  using header_slice_len_ge [of F] by (simp add: slot_size_def)

lemma live_at_range: "e \<in> set (live_at F a ss) \<Longrightarrow> a \<le> fst e \<and> fst e < a + slots_size F ss"
  using live_at_in [of "fst e" "snd e" a ss] slot_size_positive by (cases e) auto

lemma distinct_live_at: "distinct (map fst (live_at F a ss))"
proof (induction ss arbitrary: a)
  case (Cons sl ss)
  obtain l d where sl: "sl = (l, d)" by (cases sl)
  have "a \<notin> fst ` set (live_at F (a + slot_size F (length d)) ss)"
    using live_at_range [of _ "a + slot_size F (length d)" ss] slot_size_positive [of "length d"] by fastforce
  then show ?case using Cons.IH [of "a + slot_size F (length d)"] sl by simp
qed simp

lemma length_le_slots_size: "length ss \<le> slots_size F ss"
proof (induction ss)
  case (Cons sl ss)
  then show ?case using slot_size_positive [of "length (snd sl)"] by simp
qed simp

text \<open>An entry names a live slot of a page.\<close>

lemma page_entries_in:
  assumes "(a, d) \<in> set (page_entries F r ap i)"
  obtains pre post where "snd (ap i) = pre @ (True, d) # post" "a = page_data_start F r i + slots_size F pre"
  using live_at_in assms unfolding page_entries_def by blast

lemma entries_upto_in:
  assumes "e \<in> set (entries_upto F r ap y j)"
  obtains i where "1 \<le> i" "i \<le> j" "e \<in> set (page_entries F r ap ((y + i) mod page_count F r))"
  using assms by (auto simp: entries_upto_def less_Suc_eq_le simp del: upt_Suc)

lemma page_entries_range:
  assumes "config_ok F r" "page_wf F (ap i)" "e \<in> set (page_entries F r ap i)"
  shows "calculate_page_address F r i < fst e" "fst e < calculate_page_address F r i + ERASE_SIZE F"
proof -
  have "page_data_start F r i \<le> fst e" "fst e < page_data_start F r i + slots_size F (snd (ap i))"
    using live_at_range assms(3) unfolding page_entries_def by blast+
  moreover have "slots_size F (snd (ap i)) \<le> calculate_page_size F" using assms(2) by (simp add: page_wf_def)
  ultimately show "calculate_page_address F r i < fst e" "fst e < calculate_page_address F r i + ERASE_SIZE F"
    using word_pos config_facts(6) [OF assms(1)] by (simp_all add: page_data_start_def)
qed

text \<open>No two entries have the same address.\<close>

lemma distinct_entries:
  assumes "config_ok F r" "\<And>i. i < page_count F r \<Longrightarrow> page_wf F (ap i)" "j \<le> page_count F r"
  shows "distinct (map fst (entries_upto F r ap y j))"
  using assms(3)
proof (induction j)
  case (Suc j)
  let ?n = "page_count F r" and ?p = "(y + Suc j) mod page_count F r"
  have "fst ` set (entries_upto F r ap y j) \<inter> fst ` set (page_entries F r ap ?p) = {}"
  proof -
    have "fst e \<noteq> fst e'" if e: "e \<in> set (entries_upto F r ap y j)" and e': "e' \<in> set (page_entries F r ap ?p)" for e e'
    proof -
      obtain i where i: "1 \<le> i" "i \<le> j" "e \<in> set (page_entries F r ap ((y + i) mod ?n))"
        using entries_upto_in [OF e] .
      let ?q = "(y + i) mod ?n"
      have n: "0 < ?n" using config_facts(4) [OF assms(1)] .
      have "?q \<noteq> ?p" using i Suc.prems ring_inj_iff [of i "Suc j" ?n y] by simp
      from pages_disjoint [OF this, of r] show ?thesis
        using page_entries_range [OF assms(1,2) i(3)] page_entries_range [OF assms(1,2) e'] n by fastforce
    qed
    then show ?thesis by fastforce
  qed
  then show ?case using Suc distinct_live_at by (simp add: page_entries_def)
qed simp

end

section \<open>The newest entry with a key\<close>

definition key_of :: "'k map_key \<Rightarrow> u8 list \<Rightarrow> 'k option" where
  "key_of K d = (case key_deserialize_from K d of Ok (key, _) \<Rightarrow> Some key | _ \<Rightarrow> None)"

definition value_of :: "'k map_key \<Rightarrow> 'v map_value \<Rightarrow> u8 list \<Rightarrow> 'v option" where
  "value_of K V d = (case key_deserialize_from K d of
     Ok (_, n) \<Rightarrow> (case value_deserialize_from V (drop n d) of Ok (v, _) \<Rightarrow> Some v | _ \<Rightarrow> None) | _ \<Rightarrow> None)"

definition newest :: "'k map_key \<Rightarrow> map_entry list \<Rightarrow> 'k \<Rightarrow> map_entry option" where
  "newest K es key = map_of (rev (map (\<lambda>e. (key_of K (snd e), e)) es)) (Some key)"

definition map_of_entries :: "'k map_key \<Rightarrow> 'v map_value \<Rightarrow> map_entry list \<Rightarrow> 'k \<Rightarrow> 'v option" where
  "map_of_entries K V es key = Option.bind (newest K es key) (\<lambda>e. value_of K V (snd e))"

text \<open>Where the cache of key locations may say a key is.\<close>

definition key_addresses :: "'k map_key \<Rightarrow> map_entry list \<Rightarrow> 'k \<Rightarrow> nat option" where
  "key_addresses K es key = map_option fst (newest K es key)"

definition keys_sound :: "'k key_pointers_cache \<Rightarrow> ('k \<Rightarrow> nat option) \<Rightarrow> bool" where
  "keys_sound c locs \<longleftrightarrow> kpc.sound c locs \<and> c \<noteq> CachedKeyPointers []"

lemma newest_simps [simp]:
  "newest K [] key = None"
  "newest K [e] key = (if key_of K (snd e) = Some key then Some e else None)"
  "newest K (es @ fs) key = (case newest K fs key of Some e \<Rightarrow> Some e | None \<Rightarrow> newest K es key)"
  by (auto simp: newest_def map_add_def split: option.split)

lemma newest_Cons: "newest K (e # es) key = (case newest K es key of Some e' \<Rightarrow> Some e'
    | None \<Rightarrow> if key_of K (snd e) = Some key then Some e else None)"
  using newest_simps(3) [of K "[e]" es key] by (auto split: option.split)

lemma newest_in: "newest K es key = Some e \<Longrightarrow> e \<in> set es \<and> key_of K (snd e) = Some key"
  by (induction es) (auto simp: newest_Cons split: option.splits if_splits)

lemma newest_None: "newest K es key = None \<longleftrightarrow> (\<forall>e \<in> set es. key_of K (snd e) \<noteq> Some key)"
  by (induction es) (auto simp: newest_Cons split: option.splits)

lemma newest_exists: "e \<in> set es \<Longrightarrow> key_of K (snd e) = Some key \<Longrightarrow> newest K es key \<noteq> None"
  by (auto simp: newest_None)

lemma map_of_entries_simps [simp]:
  "map_of_entries K V [] key = None"
  by (simp add: map_of_entries_def)

section \<open>The relation\<close>

text \<open>The bytes of a key and a value.\<close>

definition encodes :: "('k \<Rightarrow> bool) \<Rightarrow> ('k \<Rightarrow> u8 list) \<Rightarrow> ('v \<Rightarrow> bool) \<Rightarrow> ('v \<Rightarrow> u8 list) \<Rightarrow> u8 list \<Rightarrow> bool" where
  "encodes kvalid kenc vvalid venc d \<longleftrightarrow> (\<exists>key val. kvalid key \<and> vvalid val \<and> d = kenc key @ venc val)"

text \<open>All entries are items of the map and fit the caller's buffer.\<close>

definition entries_fit :: "('s, 'e) nor_flash \<Rightarrow> (u8 list \<Rightarrow> bool) \<Rightarrow> nat \<Rightarrow> map_entry list \<Rightarrow> bool" where
  "entries_fit F is_item len es \<longleftrightarrow> (\<forall>e \<in> set es. is_item (snd e) \<and> round_up_to_alignment F (length (snd e)) \<le> len)"

definition map_at ::
  "('s, 'e) nor_flash \<Rightarrow> ('s \<Rightarrow> bool) \<Rightarrow> ('s \<Rightarrow> u8 list) \<Rightarrow> 'k map_key \<Rightarrow> (u8 list \<Rightarrow> bool) \<Rightarrow> flash_range \<Rightarrow>
    (nat \<Rightarrow> apage) \<Rightarrow> nat \<Rightarrow> nat \<Rightarrow> ('s, 'k) storage \<Rightarrow> bool"
where
  "map_at F ok chip K is_item r ap y k s \<longleftrightarrow> flash_holds F ok chip r ap s \<and> queue_shape (page_count F r) ap y k
     \<and> entries_fit F is_item (length (data_buffer s)) (ring_entries F r ap y)
     \<and> keys_sound (cached_keys s) (key_addresses K (ring_entries F r ap y))"

definition map_repr ::
  "('s, 'e) nor_flash \<Rightarrow> ('s \<Rightarrow> bool) \<Rightarrow> ('s \<Rightarrow> u8 list) \<Rightarrow> 'k map_key \<Rightarrow> 'v map_value \<Rightarrow> (u8 list \<Rightarrow> bool) \<Rightarrow>
    flash_range \<Rightarrow> ('s, 'k) storage \<Rightarrow> ('k \<Rightarrow> 'v option) \<Rightarrow> bool"
where
  "map_repr F ok chip K V is_item r s m \<longleftrightarrow> (\<exists>ap y k. map_at F ok chip K is_item r ap y k s \<and> 0 < k
     \<and> m = map_of_entries K V (ring_entries F r ap y))"

section \<open>The contract\<close>

text \<open>
  A driver, a key and a value codec, and an accepted configuration. Only erased flash is written. A page of only three words is
  accepted by \<open>MapConfig::try_new\<close> but has room for one header at most, so four words are asked for.
\<close>

locale map_store =
  nor_flash F inv mem + key_codec K kvalid kenc + value_codec V vvalid venc
  for F :: "('s, 'e) nor_flash" and inv mem
    and K :: "'k map_key" and kvalid kenc and V :: "'v map_value" and vvalid venc +
  fixes r :: flash_range
  assumes accepted: "map_config_try_new F r = Ok (Some r)"
    and four_words: "4 * WORD_SIZE F \<le> ERASE_SIZE F"
    and header_fits: "header_slice_len F \<le> calculate_page_size F"
    and range_u32: "snd r \<le> u32_MAX"
begin

abbreviation is_item :: "u8 list \<Rightarrow> bool" where
  "is_item \<equiv> encodes kvalid kenc vvalid venc"

abbreviation mapped :: "(nat \<Rightarrow> apage) \<Rightarrow> nat \<Rightarrow> nat \<Rightarrow> ('s, 'k) storage \<Rightarrow> bool" where
  "mapped \<equiv> map_at F inv mem K is_item r"

abbreviation entries_of :: "(nat \<Rightarrow> apage) \<Rightarrow> nat \<Rightarrow> map_entry list" where
  "entries_of \<equiv> ring_entries F r"

lemma config: "config_ok F r" "2 * ERASE_SIZE F \<le> snd r - fst r"
  using accepted four_words erase_pos
  by (auto simp: map_config_try_new_def config_try_new_def config_ok_def split: if_splits)

lemma two_pages: "2 \<le> page_count F r"
proof -
  have "2 * ERASE_SIZE F div ERASE_SIZE F \<le> (snd r - fst r) div ERASE_SIZE F"
    using config(2) by (intro div_le_mono)
  then show ?thesis using erase_pos by (simp add: page_count_def)
qed

lemma item_decodes:
  assumes "kvalid key" "vvalid val"
  shows "key_of K (kenc key @ venc val) = Some key" "value_of K V (kenc key @ venc val) = Some val"
  using deserialize_key [OF assms(1)] deserialize_value [OF assms(2)] by (simp_all add: key_of_def value_of_def)

lemma is_itemE:
  assumes "is_item d"
  obtains key val where "kvalid key" "vvalid val" "d = kenc key @ venc val" "key_of K d = Some key" "value_of K V d = Some val"
  using assms item_decodes unfolding encodes_def by blast

text \<open>The key is read from the start of a buffer that holds the item.\<close>

lemma decode_from_buffer:
  assumes "is_item d" "take (length d) b = d"
  obtains key where "kvalid key" "key_of K d = Some key" "key_deserialize_from K b = Ok (key, length (kenc key))"
    "length (kenc key) \<le> length d"
proof -
  obtain key val where d: "kvalid key" "d = kenc key @ venc val" "key_of K d = Some key"
    using is_itemE [OF assms(1)] by blast
  have "b = kenc key @ venc val @ drop (length d) b" using assms(2) d(2) append_take_drop_id [of "length d" b] by simp
  then have "key_deserialize_from K b = Ok (key, length (kenc key))" using deserialize_key [OF d(1)] by metis
  then show thesis using that d by simp
qed

lemma previous_on_ring: "previous_page F r ((y + Suc j) mod page_count F r) = (y + j) mod page_count F r"
proof -
  let ?n = "page_count F r" and ?a = "(y + j) mod page_count F r"
  have n: "0 < ?n" using two_pages by linarith
  have "(y + Suc j) mod ?n = (if Suc ?a = ?n then 0 else Suc ?a)" by (simp add: mod_Suc)
  moreover have "?a < ?n" using n by simp
  ultimately show ?thesis by (auto simp: previous_page_def)
qed

end

text \<open>Removing items overwrites their headers.\<close>

locale multiwrite_map_store =
  map_store F inv mem K kvalid kenc V vvalid venc r + multiwrite_nor_flash F inv mem
  for F :: "('s, 'e) nor_flash" and inv mem
    and K :: "'k map_key" and kvalid kenc and V :: "'v map_value" and vvalid venc and r

end
