(* ===== verification/MapFetch.thy ===== *)
theory MapFetch
  imports MapModel
begin

text \<open>
  Looking up a key: the iterators over a page see its entries, the search from page to page finds
  the newest entry with the key, and the cached location of a key is the address of that entry.
\<close>

section \<open>Iterating over the items of a page\<close>

text \<open>The iterator of page \<open>i\<close> stands between two of its slots; \<open>es\<close> are the entries to come.\<close>

definition slots_left ::
  "('s, 'e) nor_flash \<Rightarrow> flash_range \<Rightarrow> (nat \<Rightarrow> apage) \<Rightarrow> nat \<Rightarrow> slot list \<Rightarrow> header_iter \<Rightarrow> bool"
where
  "slots_left F r ap i post it \<longleftrightarrow> (\<exists>pre. snd (ap i) = pre @ post
     \<and> it = \<lparr> current_address = page_data_start F r i + slots_size F pre, end_address = page_data_end F r i \<rparr>)"

definition items_left ::
  "('s, 'e) nor_flash \<Rightarrow> flash_range \<Rightarrow> (nat \<Rightarrow> apage) \<Rightarrow> nat \<Rightarrow> map_entry list \<Rightarrow> header_iter \<Rightarrow> bool"
where
  "items_left F r ap i es it \<longleftrightarrow> (\<exists>post. slots_left F r ap i post it \<and> es = live_at F (current_address it) post)"

text \<open>What the item iterator returns: the next entry, with its bytes at the start of the buffer.\<close>

definition next_entry ::
  "('s, 'e) nor_flash \<Rightarrow> flash_range \<Rightarrow> (nat \<Rightarrow> apage) \<Rightarrow> nat \<Rightarrow> map_entry list \<Rightarrow> (item \<times> nat) option
    \<Rightarrow> ('s, 'k) storage \<times> header_iter \<Rightarrow> bool"
where
  "next_entry F r ap i es res t \<longleftrightarrow> (case es of
     [] \<Rightarrow> res = None
   | (a, d) # es' \<Rightarrow> res = Some (\<lparr> item_header = slot_header (True, d), item_data_buffer = data_buffer (fst t) \<rparr>, a)
       \<and> take (length d) (data_buffer (fst t)) = d \<and> items_left F r ap i es' (snd t))"

context nor_flash
begin

lemma page_items_iter_left:
  "slots_left F r ap i (snd (ap i)) (page_items_iter F r i)"
  "items_left F r ap i (page_entries F r ap i) (page_items_iter F r i)"
proof -
  show "slots_left F r ap i (snd (ap i)) (page_items_iter F r i)"
    unfolding slots_left_def page_items_iter_def header_iter_new_def by (intro exI [of _ "[]"]) (simp add: slots_size_def)
  then show "items_left F r ap i (page_entries F r ap i) (page_items_iter F r i)"
    unfolding items_left_def page_entries_def
    by (intro exI [of _ "snd (ap i)"]) (simp add: page_items_iter_def header_iter_new_def)
qed

lemma slots_left_fuel:
  assumes "config_ok F r" "holds r ap s" "i < page_count F r" "slots_left F r ap i post it"
  shows "length post < iter_fuel it"
proof -
  obtain pre where pre: "snd (ap i) = pre @ post"
    "it = \<lparr> current_address = page_data_start F r i + slots_size F pre, end_address = page_data_end F r i \<rparr>"
    using assms(4) unfolding slots_left_def by blast
  have "page_data_start F r i + slots_size F (snd (ap i)) \<le> page_data_end F r i" by (rule holds_page(5) [OF assms(1-3)])
  then show ?thesis using length_le_slots_size [of post] pre by (simp add: iter_fuel_def)
qed

lemma length_live_at: "length (live_at F a ss) \<le> length ss"
  by (induction F a ss rule: live_at.induct) auto

lemma items_left_fuel:
  assumes "config_ok F r" "holds r ap s" "i < page_count F r" "items_left F r ap i es it"
  shows "length es < iter_fuel it"
proof -
  obtain post where post: "slots_left F r ap i post it" "es = live_at F (current_address it) post"
    using assms(4) unfolding items_left_def by blast
  then show ?thesis using slots_left_fuel [OF assms(1-3) post(1)] length_live_at [of "current_address it" post] by simp
qed

text \<open>The header iterator returns the next slot, live or not.\<close>

lemma wp_header_iter_next:
  fixes s :: "('s, 'k) storage"
  assumes "config_ok F r" "holds r ap s" "i < page_count F r" "slots_left F r ap i post it"
  shows "wp (header_iter_next F)
    (\<lambda>res t. holds r ap (fst t) \<and> data_buffer (fst t) = data_buffer s \<and> cached_keys_fst t = cached_keys s
      \<and> (case post of [] \<Rightarrow> res = (None, current_address it)
         | sl # post' \<Rightarrow> res = (Some (slot_header sl), current_address it) \<and> slots_left F r ap i post' (snd t)
             \<and> current_address (snd t) = current_address it + slot_size F (length (snd sl)))) no_err (s, it)"
proof -
  obtain pre where pre: "snd (ap i) = pre @ post"
    and it: "it = \<lparr> current_address = page_data_start F r i + slots_size F pre, end_address = page_data_end F r i \<rparr>"
    using assms(4) unfolding slots_left_def by blast
  let ?a = "page_data_start F r i + slots_size F pre" and ?e = "page_data_end F r i"
  have split: "take (length pre) (snd (ap i)) = pre" "drop (length pre) (snd (ap i)) = post" using pre by simp_all
  note page = holds_page [OF assms(1-3)]
  have "length pre \<le> length (snd (ap i))" using pre by simp
  note area = holds_area [OF assms(1-3) this, unfolded split, OF refl]
  note W = config_facts(1) [OF assms(1)]
  show ?thesis
  proof (cases post)
    case Nil
    then have "wp (read_new F ?a ?e) (\<lambda>res t. res = None \<and> reads s t) no_err s"
      using area page W by (intro wp_read_new_end) (simp_all add: data_area_def slots_bytes_def)
    from wp_leaves [OF leaves_read_new this] show ?thesis
      unfolding header_iter_next_def it
      by (intro wp_traverse) (use Nil assms(2) in \<open>auto simp: reads_holds only_reads_simps elim!: wp_mono\<close>)
  next
    case (Cons sl post')
    let ?n = "slot_size F (length (snd sl))"
    have at: "bytes_at (mem (flash s)) ?a (slot_bytes F sl)"
      using area(1,2) data_area_Cons [of sl post' "?e - ?a"] unfolding Cons by simp
    have sl: "length (snd sl) \<le> u16_MAX" using page(7) pre Cons by simp
    have fits: "?a + ?n \<le> ?e" using area(2) Cons by simp
    have nxt: "next_item_address F (slot_header sl) ?a = ?a + ?n" using sl by (rule next_item_address_slot)
    have left: "slots_left F r ap i post' \<lparr> current_address = ?a + ?n, end_address = ?e \<rparr>"
      unfolding slots_left_def using pre Cons by (intro exI [of _ "pre @ [sl]"]) (simp add: add.assoc)
    have "wp (read_new F ?a ?e) (\<lambda>res t. res = Some (slot_header sl) \<and> reads s t) no_err s"
      by (rule wp_read_new_slot [OF page(1) area(4) W at sl fits])
    from wp_leaves [OF leaves_read_new this] show ?thesis
      unfolding header_iter_next_def it
      by (intro wp_traverse) (use Cons assms(2) nxt left in \<open>auto simp: reads_holds only_reads_simps elim!: wp_mono\<close>)
  qed
qed

lemma read_item_dead: "read_item F (slot_header (False, d)) a e = bnd (gets data_buffer) (\<lambda>b. ret (ErasedItem (slot_header (False, d)) b))"
  by (simp add: read_item_def slot_header_def)

lemma slots_left_live:
  assumes "slots_left F r ap i ((True, d) # post) it"
  obtains pre where "snd (ap i) = pre @ (True, d) # post" "current_address it = page_data_start F r i + slots_size F pre"
    "end_address it = page_data_end F r i"
  using assms unfolding slots_left_def by auto

lemma slots_left_end: "slots_left F r ap i post it \<Longrightarrow> end_address it = page_data_end F r i"
  unfolding slots_left_def by auto

lemma wp_item_iter_rounds:
  fixes s :: "('s, 'k) storage"
  assumes "config_ok F r" "holds r ap s" "i < page_count F r" "slots_left F r ap i post it" "length post < fuel"
    and "\<forall>e \<in> set (live_at F (current_address it) post). round_up_to_alignment F (length (snd e)) \<le> length (data_buffer s)"
  shows "wp (item_iter_rounds F fuel)
    (\<lambda>res t. holds r ap (fst t) \<and> length (data_buffer (fst t)) = length (data_buffer s)
      \<and> cached_keys_fst t = cached_keys s
      \<and> next_entry F r ap i (live_at F (current_address it) post) res t) no_err (s, it)"
  using assms(2,4-)
proof (induction post arbitrary: fuel s it)
  case Nil
  obtain fuel' where fuel: "fuel = Suc fuel'" using Nil.prems(3) by (cases fuel) auto
  show ?case
    unfolding fuel item_iter_rounds.simps wp_bnd [of "header_iter_next F"]
    by (rule wp_mono [OF wp_header_iter_next [OF assms(1) Nil.prems(1) assms(3) Nil.prems(2)]])
      (auto simp: next_entry_def)
next
  case (Cons sl post)
  obtain fuel' where fuel: "fuel = Suc fuel'" "length post < fuel'" using Cons.prems(3) by (cases fuel) auto
  obtain l d where sl: "sl = (l, d)" by (cases sl)
  show ?case
    unfolding fuel(1) item_iter_rounds.simps wp_bnd [of "header_iter_next F"]
  proof (rule wp_mono [OF wp_header_iter_next [OF assms(1) Cons.prems(1) assms(3) Cons.prems(2)]], goal_cases)
    case (1 res t)
    obtain u it' where t: "t = (u, it')" by (cases t)
    have u: "holds r ap u" "data_buffer u = data_buffer s" "cached_keys u = cached_keys s"
      "slots_left F r ap i post it'" "current_address it' = current_address it + slot_size F (length d)"
      and res: "res = (Some (slot_header (l, d)), current_address it)"
      using 1 unfolding t sl by simp_all
    show ?case
    proof (cases l)
      case True
      have left: "slots_left F r ap i ((True, d) # post) it" using Cons.prems(2) sl True by simp
      obtain pre where pre: "snd (ap i) = pre @ (True, d) # post"
        "current_address it = page_data_start F r i + slots_size F pre"
        using slots_left_live [OF left] by blast
      have fit: "round_up_to_alignment F (length d) \<le> length (data_buffer u)"
        using Cons.prems(4) sl True u(2) by simp
      have "items_left F r ap i (live_at F (current_address it') post) it'"
        using u(4) unfolding items_left_def by blast
      then show ?thesis
        using res sl True u fit slots_left_end [OF u(4)] unfolding t
        by (simp add: wp_bnd [of "lift_local _"])
          (rule wp_mono [OF wp_leaves [OF leaves_read_item wp_read_item_at [OF assms(1) u(1) assms(3) pre]]];
            auto simp: next_entry_def)
    next
      case False
      have "wp (item_iter_rounds F fuel')
          (\<lambda>res t. holds r ap (fst t) \<and> length (data_buffer (fst t)) = length (data_buffer u)
            \<and> cached_keys_fst t = cached_keys u
            \<and> next_entry F r ap i (live_at F (current_address it') post) res t) no_err (u, it')"
        using Cons.prems(4) u(2,5) sl False fuel(2)
        by (intro Cons.IH [OF u(1,4)]) auto
      then show ?thesis
        using res sl False u slots_left_end [OF u(4)] unfolding t by (simp add: read_item_dead)
    qed
  qed simp
qed

lemma wp_item_iter_next:
  fixes s :: "('s, 'k) storage"
  assumes "config_ok F r" "holds r ap s" "i < page_count F r" "items_left F r ap i es it"
    and "\<forall>e \<in> set es. round_up_to_alignment F (length (snd e)) \<le> length (data_buffer s)"
  shows "wp (item_iter_next F)
    (\<lambda>res t. holds r ap (fst t) \<and> length (data_buffer (fst t)) = length (data_buffer s)
      \<and> cached_keys_fst t = cached_keys s \<and> next_entry F r ap i es res t) no_err (s, it)"
proof -
  obtain post where post: "slots_left F r ap i post it" "es = live_at F (current_address it) post"
    using assms(4) unfolding items_left_def by blast
  have "length post < iter_fuel it" by (rule slots_left_fuel [OF assms(1-3) post(1)])
  then show ?thesis
    unfolding item_iter_next_def wp_bnd wp_gets post(2)
    by (intro wp_item_iter_rounds [OF assms(1-3) post(1)]) (use assms(5) post(2) in \<open>simp_all add: iter_fuel_def\<close>)
qed

end

section \<open>The cache of key locations\<close>

lemma deserialized_Ok [simp]: "deserialized (Ok x) = ret x"
  by (simp add: deserialized_def lift_outcome_def map_err_def ret_def fun_eq_iff)

lemma cache_ok_key_pointers [simp]:
  "cache_ok F r ap (c\<lparr> key_pointers := kps \<rparr>) = cache_ok F r ap c" "cache_ok F r ap (mark_dirty c) = cache_ok F r ap c"
  by (simp_all add: cache_ok_def cached_page_state_def first_item_after_written_def first_item_after_erased_def mark_dirty_def)

lemma keys_sound_notice:
  assumes "keys_sound c locs" "0 < a"
  obtains c' where "kp_notice_key_location key a c = Some c'" "keys_sound c' (locs(key \<mapsto> a))"
proof (cases c)
  case UncachedKeyPointers
  then have "kpc.sound c (locs(key \<mapsto> a))" by (simp add: kpc.sound_def)
  then show thesis using that UncachedKeyPointers by (simp add: keys_sound_def)
next
  case (CachedKeyPointers kps)
  then have "kps \<noteq> []" using assms(1) by (auto simp: keys_sound_def)
  then obtain rest where n: "kp_notice_key_location key a c = Some (CachedKeyPointers (Some (key, a) # rest))"
    using kp_notice_front [OF _ assms(2)] CachedKeyPointers by metis
  have "kpc.sound (CachedKeyPointers (Some (key, a) # rest)) (locs(key \<mapsto> a))"
    using assms(1) n by (intro kpc.sound_notice [of c locs]) (simp_all add: keys_sound_def)
  then show thesis using that [OF n] by (simp add: keys_sound_def)
qed

lemma keys_sound_invalidate: "c \<noteq> CachedKeyPointers [] \<Longrightarrow> keys_sound (kp_invalidate c) locs"
proof -
  assume "c \<noteq> CachedKeyPointers []"
  then have "kp_invalidate c \<noteq> CachedKeyPointers []" by (cases c) auto
  then show "keys_sound (kp_invalidate c) locs" by (simp add: keys_sound_def kpc.sound_invalidate)
qed

lemma cached_keys_invalidate [simp]: "key_pointers (invalidate_cache_state c) = kp_invalidate (key_pointers c)"
  by (simp add: invalidate_cache_state_def)

context nor_flash
begin

lemma wp_note_key_location:
  fixes s :: "('s, 'k) storage"
  assumes "holds r ap s" "keys_sound (cached_keys s) locs" "0 < a"
  shows "wp (note_key_location key a dirty)
    (\<lambda>_ t. holds r ap t \<and> data_buffer t = data_buffer s \<and> keys_sound (cached_keys t) (locs(key \<mapsto> a))) no_err s"
proof -
  obtain c' where c': "kp_notice_key_location key a (cached_keys s) = Some c'" "keys_sound c' (locs(key \<mapsto> a))"
    using keys_sound_notice [OF assms(2,3)] .
  then show ?thesis
    using assms(1) by (simp add: note_key_location_def notice_key_location_def Let_def keeps_keys flash_holds_def)
qed

end

section \<open>Searching the pages\<close>

context map_store
begin

lemma mappedE:
  assumes "mapped ap y k s"
  shows "holds r ap s" "queue_shape (page_count F r) ap y k" "flash_range s = r"
    "entries_fit F is_item (length (data_buffer s)) (entries_of ap y)"
    "keys_sound (cached_keys s) (key_addresses K (entries_of ap y))"
  using assms by (auto simp: map_at_def flash_holds_def)

lemma mapped_same:
  assumes "mapped ap y k s" "holds r ap t" "length (data_buffer t) = length (data_buffer s)" "cached_keys t = cached_keys s"
  shows "mapped ap y k t"
  using assms by (simp add: map_at_def)

lemma mapped_unmark [simp]: "mapped ap y k (s\<lparr>cache := unmark_dirty (cache s)\<rparr>) = mapped ap y k s"
  by (simp add: map_at_def flash_holds_def keeps_keys)

lemma mapped_invalidate: "mapped ap y k s \<Longrightarrow> mapped ap y k (s\<lparr>cache := invalidate_cache_state (cache s)\<rparr>)"
  using keys_sound_invalidate [of "cached_keys s"] by (auto simp: map_at_def flash_holds_def keys_sound_def)

lemma entries_of_in:
  assumes "mapped ap y k s" "e \<in> set (entries_of ap y)"
  obtains i where "i < page_count F r" "e \<in> set (page_entries F r ap i)"
proof -
  have "0 < page_count F r" using two_pages by linarith
  then show thesis using that entries_upto_in [of e r ap y "page_count F r"] assms(2) mod_less_divisor
    unfolding ring_entries_def by metis
qed

lemma page_entries_of: "i \<in> {1..page_count F r} \<Longrightarrow>
    set (page_entries F r ap ((y + i) mod page_count F r)) \<subseteq> set (entries_of ap y)"
  by (auto simp: ring_entries_def entries_upto_def less_Suc_eq_le simp del: upt_Suc)

text \<open>What a search gives: the address of the newest entry and the length of its key.\<close>

definition found_on :: "map_entry list \<Rightarrow> 'k \<Rightarrow> (nat \<times> nat) option" where
  "found_on es key = map_option (\<lambda>e. (fst e, length (kenc key))) (newest K es key)"

lemma wp_search_rounds:
  fixes s :: "('s, 'k) storage"
  assumes "holds r ap s" "i < page_count F r" "items_left F r ap i es it" "length es < fuel"
    and "entries_fit F is_item (length (data_buffer s)) es"
  shows "wp (search_rounds F K key before fuel)
    (\<lambda>res t. res = (case found_on es key of Some x \<Rightarrow> Some x | None \<Rightarrow> before) \<and> holds r ap (fst t)
      \<and> length (data_buffer (fst t)) = length (data_buffer s) \<and> cached_keys_fst t = cached_keys s) no_err (s, it)"
  using assms(1,3-)
proof (induction es arbitrary: s it before fuel)
  case Nil
  then obtain fuel' where fuel: "fuel = Suc fuel'" by (cases fuel) auto
  show ?case
    unfolding fuel search_rounds.simps wp_bnd [of "item_iter_next F"]
    by (rule wp_mono [OF wp_item_iter_next [OF config(1) Nil(1) assms(2) Nil(2)]])
      (auto simp: next_entry_def found_on_def)
next
  case (Cons e es)
  obtain a d where e: "e = (a, d)" by (cases e)
  obtain fuel' where fuel: "fuel = Suc fuel'" "length es < fuel'" using Cons.prems(3) by (cases fuel) auto
  have fit: "\<forall>e \<in> set (e # es). round_up_to_alignment F (length (snd e)) \<le> length (data_buffer s)" and d: "is_item d"
    and rest: "entries_fit F is_item (length (data_buffer s)) es"
    using Cons.prems(4) e by (auto simp: entries_fit_def)
  show ?case
    unfolding fuel(1) search_rounds.simps wp_bnd [of "item_iter_next F"]
  proof (rule wp_mono [OF wp_item_iter_next [OF config(1) Cons.prems(1) assms(2) Cons.prems(2) fit]], goal_cases)
    case (1 res t)
    obtain u it' where t: "t = (u, it')" by (cases t)
    have u: "holds r ap u" "length (data_buffer u) = length (data_buffer s)" "cached_keys u = cached_keys s"
      "take (length d) (data_buffer u) = d" "items_left F r ap i es it'"
      and res: "res = Some (\<lparr> item_header = slot_header (True, d), item_data_buffer = data_buffer u \<rparr>, a)"
      using 1 unfolding t e next_entry_def by simp_all
    obtain found where found: "key_of K d = Some found" "key_deserialize_from K (data_buffer u) = Ok (found, length (kenc found))"
      using decode_from_buffer [OF d u(4)] by blast
    let ?now = "if found = key then Some (a, length (kenc found)) else before"
    have "(case found_on es key of Some x \<Rightarrow> Some x | None \<Rightarrow> ?now)
        = (case found_on (e # es) key of Some x \<Rightarrow> Some x | None \<Rightarrow> before)"
      using found(1) e by (auto simp: found_on_def newest_Cons split: option.split)
    then show ?case
      using Cons.IH [OF u(1,5) fuel(2), of ?now] rest u(2,3) unfolding t res
      by (simp add: found(2) del: search_rounds.simps cong: if_cong)
  qed simp
qed

lemma wp_search_page:
  fixes s :: "('s, 'k) storage"
  assumes "holds r ap s" "i < page_count F r" "entries_fit F is_item (length (data_buffer s)) (page_entries F r ap i)"
  shows "wp (search_page F K key i)
    (\<lambda>res t. res = found_on (page_entries F r ap i) key \<and> holds r ap t
      \<and> length (data_buffer t) = length (data_buffer s) \<and> cached_keys t = cached_keys s) no_err s"
proof -
  have range: "flash_range s = r" using assms(1) by (simp add: flash_holds_def)
  note left = page_items_iter_left(2) [of r ap i]
  note fuel = items_left_fuel [OF config(1) assms(1,2) left]
  from wp_search_rounds [OF assms(1,2) left fuel assms(3)]
  show ?thesis
    unfolding search_page_def wp_bnd wp_gets wp_with_local range
    by (rule wp_mono) (auto split: option.splits)
qed

text \<open>Behind the last page with items there is one that is not closed.\<close>

lemma entries_upto_open:
  assumes "queue_shape (page_count F r) ap y k" "j \<le> k"
  shows "entries_upto F r ap y j = []"
  using assms(2)
proof (induction j)
  case (Suc j)
  then show ?case using shape_open [OF assms(1), of "Suc j"] by simp
qed simp

lemma closed_behind:
  assumes "queue_shape (page_count F r) ap y k" "fst (ap y) = PartialOpen" "j < page_count F r"
  shows "fst (ap ((y + j) mod page_count F r)) = Closed \<longleftrightarrow> k < j"
proof (cases "k < j")
  case False
  then show ?thesis
    using shape_open [OF assms(1), of j] shape_less(1) [OF assms(1)] assms(2) by (cases "j = 0") auto
qed (use shape_closed [OF assms(1)] assms(3) in simp)

lemma wp_search_back:
  fixes s :: "('s, 'k) storage"
  assumes "mapped ap y k s" "fst (ap y) = PartialOpen" "k < j" "j \<le> page_count F r" "j \<le> fuel"
    and "newest K (entries_of ap y) key = newest K (entries_upto F r ap y j) key"
  shows "wp (search_back F K key ((y + j) mod page_count F r) fuel)
    (\<lambda>res t. res = found_on (entries_of ap y) key \<and> mapped ap y k t
      \<and> length (data_buffer t) = length (data_buffer s)) no_err s"
  using assms(1,3-)
proof (induction j arbitrary: s fuel)
  case (Suc j)
  let ?n = "page_count F r" and ?p = "(y + Suc j) mod page_count F r"
  obtain fuel' where fuel: "fuel = Suc fuel'" "j \<le> fuel'" using Suc.prems(4) by (cases fuel) auto
  note m = mappedE [OF Suc.prems(1)]
  have p: "?p < ?n" "(y + j) mod ?n < ?n" using shape_less(3) [OF m(2)] by simp_all
  have "entries_fit F is_item (length (data_buffer s)) (page_entries F r ap ?p)"
    using m(4) page_entries_of [of "Suc j" ap y] Suc.prems(3) unfolding entries_fit_def by auto
  note search = wp_search_page [OF m(1) p(1) this, of key]
  show ?case
    unfolding fuel(1) search_back.simps wp_bnd [of "search_page F K key ?p"]
  proof (rule wp_mono [OF search], goal_cases)
    case (1 res t)
    then have t: "mapped ap y k t" "length (data_buffer t) = length (data_buffer s)" and res: "res = found_on (page_entries F r ap ?p) key"
      using mapped_same [OF Suc.prems(1)] by simp_all
    note mt = mappedE [OF t(1)]
    show ?case
    proof (cases "newest K (page_entries F r ap ?p) key")
      case (Some e)
      then have found: "newest K (entries_of ap y) key = Some e" using Suc.prems(5) by simp
      have "e \<in> set (page_entries F r ap ?p)" using newest_in [OF Some] by simp
      moreover have "page_wf F (ap ?p)" using holds_page(3) [OF config(1) mt(1) p(1)] .
      ultimately have "0 < fst e" using page_entries_range(1) [OF config(1)] by fastforce
      from wp_note_key_location [OF mt(1,5) this, of key False]
      have "wp (note_key_location key (fst e) False) (\<lambda>_ u. mapped ap y k u \<and> data_buffer u = data_buffer t) no_err t"
        by (rule wp_mono) (use found mt t in \<open>auto simp: map_at_def key_addresses_def fun_upd_idem\<close>)
      then show ?thesis
        using found Some t(2) unfolding res found_on_def by (auto elim!: wp_mono)
    next
      case None
      then have newest_upto: "newest K (entries_of ap y) key = newest K (entries_upto F r ap y j) key"
        using Suc.prems(5) by simp
      note state = wp_leaves [OF leaves_get_page_state wp_get_page_state [OF config(1) mt(1) p(2)]]
      have "wp (bnd (get_page_state F ((y + j) mod ?n)) (\<lambda>st. if st \<noteq> Closed then ret None
            else search_back F K key ((y + j) mod ?n) fuel'))
          (\<lambda>res u. res = found_on (entries_of ap y) key \<and> mapped ap y k u
            \<and> length (data_buffer u) = length (data_buffer s)) no_err t"
        unfolding wp_bnd
      proof (rule wp_mono [OF state], goal_cases)
        case (1 st u)
        then have u: "mapped ap y k u" "length (data_buffer u) = length (data_buffer s)"
          using mapped_same [OF t(1)] t(2) by simp_all
        have st: "st = Closed \<longleftrightarrow> k < j" using 1 closed_behind [OF mt(2) assms(2)] Suc.prems(3) by auto
        show ?case
        proof (cases "k < j")
          case True
          then show ?thesis
            using Suc.IH [OF u(1) True _ fuel(2) newest_upto] Suc.prems(3) st u(2) by simp
        next
          case False
          then have "entries_upto F r ap y j = []" using entries_upto_open [OF mt(2)] by simp
          then show ?thesis using st False u newest_upto by (simp add: found_on_def)
        qed
      qed simp
      moreover have "res = None" using None by (simp add: res found_on_def)
      ultimately show ?thesis by (simp only: option.case wp_bnd [of "gets f" for f] wp_gets mt(3) previous_on_ring)
    qed
  qed simp
qed simp

end

section \<open>Fetching\<close>

context map_store
begin

text \<open>Reading an entry, with any end address at or behind the end of its page.\<close>

lemma wp_read_entry:
  fixes s :: "('s, 'k) storage"
  assumes "holds r ap s" "i < page_count F r" "(a, d) \<in> set (page_entries F r ap i)" "page_data_end F r i \<le> e"
    and "round_up_to_alignment F (length d) \<le> length (data_buffer s)"
  shows "wp (read_new F a e) (\<lambda>res t. res = Some (slot_header (True, d)) \<and> holds r ap t
      \<and> data_buffer t = data_buffer s \<and> cached_keys t = cached_keys s) no_err s"
    and "wp (read_item F (slot_header (True, d)) a e)
      (\<lambda>mi t. mi = Present \<lparr> item_header = slot_header (True, d), item_data_buffer = data_buffer t \<rparr>
        \<and> holds r ap t \<and> take (length d) (data_buffer t) = d \<and> length (data_buffer t) = length (data_buffer s)
        \<and> cached_keys t = cached_keys s) no_err s"
proof -
  obtain pre post where pre: "snd (ap i) = pre @ (True, d) # post" "a = page_data_start F r i + slots_size F pre"
    using page_entries_in [OF assms(3)] .
  have split: "drop (length pre) (snd (ap i)) = (True, d) # post" "take (length pre) (snd (ap i)) = pre"
    using pre by simp_all
  have "length pre \<le> length (snd (ap i))" using pre by simp
  note page = holds_page [OF config(1) assms(1,2)] and W = config_facts(1) [OF config(1)]
    and area = holds_area [OF config(1) assms(1,2) this, unfolded split, OF pre(2)]
  have d: "length d \<le> u16_MAX" using page(7) pre by simp
  have fits: "a + slot_size F (length d) \<le> e" using area(2) assms(4) by simp
  have at: "bytes_at (mem (flash s)) a (slot_bytes F (True, d))"
    using area(1,2) by (subst (asm) data_area_Cons) auto
  have "wp (read_new F a e) (\<lambda>res t. res = Some (slot_header (True, d)) \<and> reads s t) no_err s"
    using wp_read_new_slot [OF page(1) area(4) W at] d fits by simp
  from wp_leaves [OF leaves_read_new this]
  show "wp (read_new F a e) (\<lambda>res t. res = Some (slot_header (True, d)) \<and> holds r ap t
      \<and> data_buffer t = data_buffer s \<and> cached_keys t = cached_keys s) no_err s"
    by (rule wp_mono) (use assms(1) in \<open>auto simp: reads_holds only_reads_simps\<close>)
  from wp_leaves [OF leaves_read_item wp_read_item_live [OF page(1) area(4) W at d fits]]
  show "wp (read_item F (slot_header (True, d)) a e)
      (\<lambda>mi t. mi = Present \<lparr> item_header = slot_header (True, d), item_data_buffer = data_buffer t \<rparr>
        \<and> holds r ap t \<and> take (length d) (data_buffer t) = d \<and> length (data_buffer t) = length (data_buffer s)
        \<and> cached_keys t = cached_keys s) no_err s"
    by (rule wp_mono) (use assms(1,5) in \<open>auto simp: only_fills_def flash_holds_def\<close>)
qed

text \<open>What a fetch finds: the newest entry of the key, with its bytes in the buffer.\<close>

definition found_item :: "(nat \<Rightarrow> apage) \<Rightarrow> nat \<Rightarrow> 'k \<Rightarrow> found_item option \<Rightarrow> ('s, 'k) storage \<Rightarrow> bool" where
  "found_item ap y key res t \<longleftrightarrow> (case newest K (entries_of ap y) key of
     None \<Rightarrow> res = None
   | Some (a, d) \<Rightarrow> (\<exists>kl. res = Some (slot_header (True, d), a, kl) \<and> (kl = None \<or> kl = Some (length (kenc key))))
       \<and> take (length d) (data_buffer t) = d)"

lemma found_item_unmark [simp]:
  "found_item ap y key res (s\<lparr>cache := c\<rparr>) = found_item ap y key res s"
  by (simp add: found_item_def split: option.split)

lemma entry_length:
  assumes "holds r ap s" "i < page_count F r" "(a, d) \<in> set (page_entries F r ap i)"
  shows "length d \<le> u16_MAX" "unat (ih_length (slot_header (True, d))) = length d"
proof -
  obtain pre post where "snd (ap i) = pre @ (True, d) # post" using page_entries_in [OF assms(3)] .
  then show "length d \<le> u16_MAX" using holds_page(7) [OF config(1) assms(1,2)] by simp
  then show "unat (ih_length (slot_header (True, d))) = length d" by (simp add: slot_header_def unat_of_nat)
qed

lemma newest_entry:
  assumes "mapped ap y k s" "newest K (entries_of ap y) key = Some (a, d)"
  obtains i where "i < page_count F r" "(a, d) \<in> set (page_entries F r ap i)" "is_item d"
    "key_of K d = Some key" "round_up_to_alignment F (length d) \<le> length (data_buffer s)"
    "page_data_start F r i \<le> a" "a \<le> page_data_end F r i" "page_data_end F r i \<le> u32_MAX"
proof -
  note m = mappedE [OF assms(1)] and e = newest_in [OF assms(2)]
  obtain i where i: "i < page_count F r" "(a, d) \<in> set (page_entries F r ap i)"
    using entries_of_in [OF assms(1)] e by blast
  have "page_data_start F r i \<le> a" "a < page_data_start F r i + slots_size F (snd (ap i))"
    using live_at_range [of "(a, d)"] i(2) unfolding page_entries_def by fastforce+
  moreover have "page_data_start F r i + slots_size F (snd (ap i)) \<le> page_data_end F r i"
    by (rule holds_page(5) [OF config(1) m(1) i(1)])
  moreover have "page_data_end F r i \<le> snd r"
  proof -
    have "ERASE_SIZE F * (i + 1) \<le> ERASE_SIZE F * page_count F r" using i(1) by (intro mult_le_mono2) simp
    then show ?thesis
      using config_facts(5) [OF config(1)]
      by (simp add: page_data_end_def calculate_page_end_address_def mult.commute)
  qed
  ultimately show thesis
    using that [OF i] m(4) e range_u32 by (fastforce simp: entries_fit_def)
qed

lemma wp_fetch_cached:
  fixes s :: "('s, 'k) storage"
  assumes "mapped ap y k s"
  shows "wp (fetch_cached F key)
    (\<lambda>res t. mapped ap y k t \<and> length (data_buffer t) = length (data_buffer s)
      \<and> (res \<noteq> None \<longrightarrow> found_item ap y key res t)) no_err s"
proof (cases "key_location (cache s) key")
  case None
  then show ?thesis using assms by (simp add: fetch_cached_def)
next
  case (Some a)
  note m = mappedE [OF assms]
  have "key_addresses K (entries_of ap y) key = Some a"
    using Some m(5) by (simp add: keys_sound_def kpc.sound_def key_location_def)
  then obtain d where new: "newest K (entries_of ap y) key = Some (a, d)" by (auto simp: key_addresses_def)
  then obtain i where i: "i < page_count F r" "(a, d) \<in> set (page_entries F r ap i)"
    and fit: "round_up_to_alignment F (length d) \<le> length (data_buffer s)"
    and range: "page_data_start F r i \<le> a" "a \<le> page_data_end F r i"
    using newest_entry [OF assms new] by blast
  have idx: "calculate_page_index F r a = i" by (rule page_index_data [OF config(1) range])
  show ?thesis
    unfolding fetch_cached_def wp_bnd [of "gets f" for f] wp_gets Some option.case m(3) Let_def idx wp_bnd [of "read_new _ _ _"]
  proof (rule wp_mono [OF wp_read_entry(1) [OF m(1) i order_refl fit]], goal_cases)
    case (1 res t)
    then have fit': "round_up_to_alignment F (length d) \<le> length (data_buffer t)" using fit by simp
    have t: "holds r ap t" using 1 by simp
    have found: "found_item ap y key (Some (slot_header (True, d), a, None)) u" if "take (length d) (data_buffer u) = d"
      for u :: "('s, 'k) storage"
      using that new by (simp add: found_item_def)
    show ?case
      unfolding conjunct1 [OF 1] option.case wp_bnd [of "read_item _ _ _ _"]
      by (rule wp_mono [OF wp_read_entry(2) [OF t i order_refl fit']])
        (use 1 found mapped_same [OF assms] in auto)
  qed simp
qed

text \<open>Looking for the page that is written to: there is none only when all pages are open.\<close>

lemma wp_find_partial_open:
  fixes s :: "('s, 'k) storage"
  assumes "mapped ap y k s"
  shows "wp (find_first_page F 0 PartialOpen) (\<lambda>found t. found = (if fst (ap y) = PartialOpen then Some y else None)
      \<and> mapped ap y k t \<and> length (data_buffer t) = length (data_buffer s)) no_err s"
  by (rule wp_mono [OF wp_leaves [OF leaves_find_first_page
        wp_find_first_page [OF config(1) mappedE(1) [OF assms], of 0 PartialOpen]]])
    (use find_youngest [OF mappedE(2) [OF assms]] mapped_same [OF assms] in \<open>auto simp: get_pages_ring\<close>)

lemma all_open_entries:
  assumes "queue_shape (page_count F r) ap y k" "fst (ap y) \<noteq> PartialOpen"
  shows "entries_of ap y = []"
proof -
  have "page_entries F r ap ((y + i) mod page_count F r) = []" for i
    using all_open [OF assms, of "(y + i) mod page_count F r"] shape_less(3) [OF assms(1)] by simp
  then show ?thesis by (simp add: ring_entries_def entries_upto_def)
qed

lemma wp_all_open:
  fixes s :: "('s, 'k) storage"
  assumes "mapped ap y k s" "fst (ap y) \<noteq> PartialOpen"
  shows "wp (find_first_page F 0 Open)
      (\<lambda>found t. found = Some 0 \<and> mapped ap y k t \<and> length (data_buffer t) = length (data_buffer s)) no_err s"
    and "previous_page F r 0 = page_count F r - 1"
    and "wp (get_page_state F (page_count F r - 1))
      (\<lambda>st t. st = Open \<and> mapped ap y k t \<and> length (data_buffer t) = length (data_buffer s)) no_err s"
proof -
  let ?n = "page_count F r"
  note m = mappedE [OF assms(1)]
  have all: "ap i = (Open, [])" if "i < ?n" for i using all_open [OF m(2) assms(2) that] .
  have n: "0 < ?n" using shape_less(3) [OF m(2)] .
  have pages: "find (\<lambda>i. Open = fst (ap i)) (get_pages F r 0) = Some 0"
    using all [of 0] n by (simp add: get_pages_ring upt_conv_Cons)
  show "wp (find_first_page F 0 Open)
      (\<lambda>found t. found = Some 0 \<and> mapped ap y k t \<and> length (data_buffer t) = length (data_buffer s)) no_err s"
    by (rule wp_mono [OF wp_leaves [OF leaves_find_first_page wp_find_first_page [OF config(1) m(1), of 0 Open]]])
      (use mapped_same [OF assms(1)] pages in auto)
  show "previous_page F r 0 = ?n - 1" using n by (simp add: previous_page_def)
  have last: "?n - 1 < ?n" using n by simp
  show "wp (get_page_state F (?n - 1))
      (\<lambda>st t. st = Open \<and> mapped ap y k t \<and> length (data_buffer t) = length (data_buffer s)) no_err s"
    by (rule wp_mono [OF wp_leaves [OF leaves_get_page_state wp_get_page_state [OF config(1) m(1) last]]])
      (use all [OF last] mapped_same [OF assms(1)] in auto)
qed

text \<open>The page written last; when there is none, there are no entries.\<close>

lemma wp_last_used_page:
  fixes s :: "('s, 'k) storage"
  assumes "mapped ap y k s"
  shows "wp (last_used_page F)
    (\<lambda>res t. mapped ap y k t \<and> length (data_buffer t) = length (data_buffer s)
      \<and> (if fst (ap y) = PartialOpen then res = Some y else res = None \<and> entries_of ap y = [])) no_err s"
proof (cases "fst (ap y) = PartialOpen")
  case True
  then show ?thesis
    unfolding last_used_page_def wp_bnd [of "find_first_page F 0 PartialOpen"]
    by (intro wp_mono [OF wp_find_partial_open [OF assms]]) auto
next
  case False
  note none = all_open_entries [OF mappedE(2) [OF assms] False]
  show ?thesis
    unfolding last_used_page_def wp_bnd [of "find_first_page F 0 PartialOpen"]
  proof (rule wp_mono [OF wp_find_partial_open [OF assms]], goal_cases)
    case (1 found t)
    then have t: "mapped ap y k t" "length (data_buffer t) = length (data_buffer s)" and found: "found = None"
      using False by simp_all
    show ?case
      unfolding found option.case wp_bnd [of "find_first_page F 0 Open"]
    proof (rule wp_mono [OF wp_all_open(1) [OF t(1) False]], goal_cases)
      case (1 found u)
      then have u: "mapped ap y k u" "length (data_buffer u) = length (data_buffer s)" and found: "found = Some 0"
        using t(2) by simp_all
      show ?case
        unfolding found option.case wp_bnd [of "gets f" for f] wp_gets mappedE(3) [OF u(1)] wp_all_open(2) [OF u(1) False]
          wp_bnd [of "get_page_state _ _"]
        by (rule wp_mono [OF wp_all_open(3) [OF u(1) False]]) (use False none u(2) in \<open>auto simp: is_closed_def\<close>)
    qed simp
  qed simp
qed

lemma wp_reread_item:
  fixes s :: "('s, 'k) storage"
  assumes "mapped ap y k s" "newest K (entries_of ap y) key = Some (a, d)"
  shows "wp (reread_item F a (length (kenc key)))
    (\<lambda>res t. found_item ap y key res t \<and> mapped ap y k t \<and> length (data_buffer t) = length (data_buffer s)) no_err s"
proof -
  obtain i where i: "i < page_count F r" "(a, d) \<in> set (page_entries F r ap i)"
    and fit: "round_up_to_alignment F (length d) \<le> length (data_buffer s)" and e: "page_data_end F r i \<le> u32_MAX"
    using newest_entry [OF assms] by blast
  note m = mappedE [OF assms(1)]
  show ?thesis
    unfolding reread_item_def wp_bnd [of "read_new _ _ _"]
  proof (rule wp_mono [OF wp_read_entry(1) [OF m(1) i e fit]], goal_cases)
    case (1 res t)
    then have fit': "round_up_to_alignment F (length d) \<le> length (data_buffer t)" using fit by simp
    have t: "holds r ap t" using 1 by simp
    show ?case
      unfolding conjunct1 [OF 1] option.case wp_bnd [of "read_item _ _ _ _"]
      by (rule wp_mono [OF wp_read_entry(2) [OF t i e fit']])
        (use 1 assms mapped_same [OF assms(1)] in \<open>auto simp: maybe_item_unwrap_def found_item_def\<close>)
  qed simp
qed

lemma wp_drop_dirty:
  "mapped ap y k s \<Longrightarrow> wp drop_dirty_cache (\<lambda>_ t. mapped ap y k t \<and> data_buffer t = data_buffer s) no_err s"
  by (auto simp: drop_dirty_cache_def mapped_invalidate)

lemma wp_fetch_with_location:
  fixes s :: "('s, 'k) storage"
  assumes "mapped ap y k s"
  shows "wp (fetch_item_with_location F K key)
    (\<lambda>res t. found_item ap y key res t \<and> mapped ap y k t \<and> length (data_buffer t) = length (data_buffer s)) no_err s"
proof -
  let ?Q = "\<lambda>res t. found_item ap y key res t \<and> mapped ap y k t \<and> length (data_buffer t) = length (data_buffer s)"
  let ?n = "page_count F r"
  have behind: "wp (bnd (search_back F K key y ?n) (\<lambda>found. sq (on_cache unmark_dirty) (case found of
        Some (address, key_len) \<Rightarrow> reread_item F address key_len | None \<Rightarrow> ret None))) ?Q no_err t"
    if t: "mapped ap y k t" "length (data_buffer t) = length (data_buffer s)" "fst (ap y) = PartialOpen" for t
  proof -
    note mt = mappedE [OF t(1)]
    have y: "(y + ?n) mod ?n = y" using shape_less [OF mt(2)] by simp
    have "wp (search_back F K key ((y + ?n) mod ?n) ?n)
        (\<lambda>res u. res = found_on (entries_of ap y) key \<and> mapped ap y k u
          \<and> length (data_buffer u) = length (data_buffer t)) no_err t"
      using shape_less [OF mt(2)]
      by (intro wp_search_back [OF t(1,3)]) (simp_all add: ring_entries_def)
    then show ?thesis
      unfolding wp_bnd [of "search_back F K key y ?n"] y
    proof (rule wp_mono, goal_cases)
      case (1 found u)
      let ?u = "u\<lparr>cache := unmark_dirty (cache u)\<rparr>"
      have u: "mapped ap y k ?u" "length (data_buffer ?u) = length (data_buffer s)" using 1 t(2) by simp_all
      show ?case
      proof (cases "newest K (entries_of ap y) key")
        case None
        then show ?thesis using u 1 by (simp add: found_on_def found_item_def)
      next
        case (Some e)
        then have "newest K (entries_of ap y) key = Some (fst e, snd e)" by simp
        from wp_reread_item [OF u(1) this] show ?thesis
          using Some 1 u(2) by (auto simp: found_on_def elim!: wp_mono)
      qed
    qed simp
  qed
  have rest: "wp (bnd (last_used_page F) (\<lambda>last_used. case last_used of
        None \<Rightarrow> ret None
      | Some page \<Rightarrow> bnd (gets (\<lambda>s. page_count F (flash_range s))) (\<lambda>pages.
          bnd (search_back F K key page pages) (\<lambda>found. sq (on_cache unmark_dirty) (case found of
            Some (address, key_len) \<Rightarrow> reread_item F address key_len | None \<Rightarrow> ret None))))) ?Q no_err t"
    if t: "mapped ap y k t" "length (data_buffer t) = length (data_buffer s)" for t
    unfolding wp_bnd [of "last_used_page F"]
  proof (rule wp_mono [OF wp_last_used_page [OF t(1)]], goal_cases)
    case (1 found u)
    then have u: "mapped ap y k u" "length (data_buffer u) = length (data_buffer s)" using t(2) by simp_all
    show ?case
    proof (cases "fst (ap y) = PartialOpen")
      case True
      then have found: "found = Some y" using 1 by simp
      show ?thesis
        unfolding found option.case wp_bnd [of "gets f" for f] wp_gets mappedE(3) [OF u(1)]
        by (rule behind [OF u True])
    next
      case False
      then show ?thesis using 1 u by (simp add: found_item_def)
    qed
  qed simp
  show ?thesis
    unfolding fetch_item_with_location_def wp_sq [of drop_dirty_cache]
  proof (rule wp_mono [OF wp_drop_dirty [OF assms]], goal_cases)
    case (1 _ t)
    show ?case
      unfolding wp_bnd [of "fetch_cached F key"]
    proof (rule wp_mono [OF wp_fetch_cached [OF conjunct1 [OF 1], of key]], goal_cases)
      case (1 cached u)
      then show ?case using rest [of u] \<open>_ \<and> data_buffer t = data_buffer s\<close> by (cases cached) (simp_all del: wp_bnd)
    qed simp
  qed simp
qed

text \<open>The value of a key.\<close>

lemma wp_fetch_item:
  fixes s :: "('s, 'k) storage"
  assumes "mapped ap y k s"
  shows "wp (fetch_item F K V key)
    (\<lambda>res t. res = map_of_entries K V (entries_of ap y) key \<and> mapped ap y k t
      \<and> length (data_buffer t) = length (data_buffer s)) no_err s"
proof -
  have fetch: "wp (run_with_auto_repair (fetch_item_with_location F K key) (map_try_repair F K))
    (\<lambda>res t. found_item ap y key res t \<and> mapped ap y k t \<and> length (data_buffer t) = length (data_buffer s)) no_err s"
    by (rule wp_run_with_auto_repair [OF wp_fetch_with_location [OF assms]]) simp
  show ?thesis
    unfolding fetch_item_def wp_bnd [of "run_with_auto_repair _ _"]
  proof (rule wp_mono [OF fetch], goal_cases)
    case (1 res t)
    then have t: "mapped ap y k t" by simp
    show ?case
    proof (cases "newest K (entries_of ap y) key")
      case None
      then show ?thesis using 1 by (simp add: found_item_def map_of_entries_def)
    next
      case (Some e)
      then obtain a d where e: "newest K (entries_of ap y) key = Some (a, d)" by (cases e) auto
      obtain kl where res: "res = Some (slot_header (True, d), a, kl)" "kl = None \<or> kl = Some (length (kenc key))"
        and buf: "take (length d) (data_buffer t) = d" using 1 e by (auto simp: found_item_def)
      obtain i where i: "i < page_count F r" "(a, d) \<in> set (page_entries F r ap i)" "is_item d" "key_of K d = Some key"
        using newest_entry [OF t e] by blast
      obtain key' val where d: "kvalid key'" "vvalid val" "d = kenc key' @ venc val" "key_of K d = Some key'"
        "value_of K V d = Some val"
        using is_itemE [OF i(3)] .
      have k': "key' = key" using d(4) i(4) by simp
      note len = entry_length(2) [OF mappedE(1) [OF t] i(1,2)]
      have room: "length d \<le> length (data_buffer t)" using arg_cong [OF buf, of length] by simp
      have key_len: "key_get_len K (take (length d) (data_buffer t)) = Ok (length (kenc key))"
        using get_len [OF d(1), of "venc val"] d(3) k' buf by simp
      have "sub_list (length (kenc key)) (length d - length (kenc key)) (data_buffer t) = venc val"
        using buf d(3) k' room by (metis append_eq_conv_conj drop_take sub_list_def)
      then have val: "value_deserialize_from V (sub_list (length (kenc key)) (length d - length (kenc key)) (data_buffer t))
          = Ok (val, length (venc val))" using deserialize_value [OF d(2)] by simp
      have "length (kenc key) \<le> length d" using d(3) k' by simp
      then show ?thesis
        using 1 res(2) e d(5) len room key_len val unfolding res(1) by (auto simp: Let_def map_of_entries_def)
    qed
  qed simp
qed

end

end
