(* ===== verification/MapMigrate.thy ===== *)
theory MapMigrate
  imports MapFetch
begin

text \<open>
  Moving the items of a page that is to become the buffer: those that are still the newest of their
  key are appended to the page that is written to, and then the page is opened. The data the newest
  entries hold, \<open>contents\<close>, stay the same.
\<close>

section \<open>The contents of a list of entries\<close>

definition contents :: "'k map_key \<Rightarrow> map_entry list \<Rightarrow> 'k \<Rightarrow> u8 list option" where
  "contents K es key = map_option snd (newest K es key)"

lemma map_of_entries_contents: "map_of_entries K V es key = Option.bind (contents K es key) (value_of K V)"
  by (simp add: map_of_entries_def contents_def bind_map_option comp_def)

lemma contents_append: "contents K (es @ fs) key = (case contents K fs key of Some d \<Rightarrow> Some d | None \<Rightarrow> contents K es key)"
  by (simp add: contents_def split: option.split)

lemma contents_snoc: "key_of K d = Some key \<Longrightarrow> contents K (es @ [(a, d)]) = (contents K es)(key \<mapsto> d)"
  by (auto simp: fun_eq_iff contents_def)

lemma key_addresses_snoc: "key_of K d = Some key \<Longrightarrow> key_addresses K (es @ [(a, d)]) = (key_addresses K es)(key \<mapsto> a)"
  by (auto simp: fun_eq_iff key_addresses_def)

text \<open>Entries in front that are not needed.\<close>

lemma contents_superfluous:
  assumes "contents K (es @ fs) = contents K fs"
  shows "newest K (es @ fs) key = newest K fs key"
proof (cases "newest K fs key")
  case None
  then have "contents K (es @ fs) key = None" using assms by (simp add: contents_def)
  then show ?thesis using None by (simp add: contents_def)
qed simp

text \<open>Which of the entries with a key is the newest, told by its address.\<close>

lemma newest_address:
  assumes "distinct (map fst (es @ (a, d) # fs))" "key_of K d = Some key" "newest K (es @ (a, d) # fs) key = Some (a', d')"
  shows "a' = a \<Longrightarrow> d' = d \<and> newest K fs key = None" and "a' \<noteq> a \<Longrightarrow> newest K fs key \<noteq> None"
proof -
  have new: "newest K (es @ (a, d) # fs) key = (case newest K fs key of Some e \<Rightarrow> Some e | None \<Rightarrow> Some (a, d))"
    using assms(2) by (simp add: newest_Cons split: option.split)
  show "d' = d \<and> newest K fs key = None" if "a' = a"
  proof (cases "newest K fs key")
    case (Some e)
    then have "e = (a, d')" "e \<in> set fs" using new assms(3) that newest_in [OF Some] by simp_all
    then show ?thesis using assms(1) by force
  qed (use new assms(3) in simp)
  show "newest K fs key \<noteq> None" if "a' \<noteq> a"
  proof
    assume "newest K fs key = None"
    then show False using new assms(3) that by simp
  qed
qed

section \<open>Entries of changed pages\<close>

lemma entries_upto_cong:
  assumes "\<And>i. 1 \<le> i \<Longrightarrow> i \<le> j \<Longrightarrow> snd (ap' ((y + i) mod page_count F r)) = snd (ap ((y + i) mod page_count F r))"
  shows "entries_upto F r ap' y j = entries_upto F r ap y j"
proof -
  have "page_entries F r ap' ((y + i) mod page_count F r) = page_entries F r ap ((y + i) mod page_count F r)"
    if "i \<in> set [1..<Suc j]" for i
    using assms [of i] that by (simp add: page_entries_def less_Suc_eq_le del: upt_Suc)
  then show ?thesis unfolding entries_upto_def by (intro arg_cong [of _ _ concat] map_cong) auto
qed

text \<open>All entries but those of the page after \<open>y\<close>.\<close>

definition entries_behind :: "('s, 'e) nor_flash \<Rightarrow> flash_range \<Rightarrow> (nat \<Rightarrow> apage) \<Rightarrow> nat \<Rightarrow> map_entry list" where
  "entries_behind F r ap y = concat (map (\<lambda>i. page_entries F r ap ((y + i) mod page_count F r)) [2..<Suc (page_count F r)])"

text \<open>Those that are neither on that page nor on page \<open>y\<close>.\<close>

definition entries_between :: "('s, 'e) nor_flash \<Rightarrow> flash_range \<Rightarrow> (nat \<Rightarrow> apage) \<Rightarrow> nat \<Rightarrow> map_entry list" where
  "entries_between F r ap y = concat (map (\<lambda>i. page_entries F r ap ((y + i) mod page_count F r)) [2..<page_count F r])"

definition entry_keys :: "'k map_key \<Rightarrow> map_entry list \<Rightarrow> 'k option list" where
  "entry_keys K es = map (\<lambda>e. key_of K (snd e)) es"

lemma entry_keys_simps [simp]:
  "entry_keys K [] = []" "entry_keys K (e # es) = key_of K (snd e) # entry_keys K es"
  "entry_keys K (es @ fs) = entry_keys K es @ entry_keys K fs"
  by (simp_all add: entry_keys_def)

lemma newest_None_keys: "newest K es key = None \<longleftrightarrow> Some key \<notin> set (entry_keys K es)"
  unfolding newest_None entry_keys_def set_map image_iff by metis

definition entries_size :: "('s, 'e) nor_flash \<Rightarrow> map_entry list \<Rightarrow> nat" where
  "entries_size F es = (\<Sum>e \<leftarrow> es. slot_size F (length (snd e)))"

lemma entries_size_simps [simp]:
  "entries_size F [] = 0" "entries_size F (e # es) = slot_size F (length (snd e)) + entries_size F es"
  by (simp_all add: entries_size_def)

lemma entries_size_append [simp]: "entries_size F (es @ fs) = entries_size F es + entries_size F fs"
  by (simp add: entries_size_def)

text \<open>A page that holds nothing but the only entries of their keys behind the oldest page.\<close>

definition compact_page :: "('s, 'e) nor_flash \<Rightarrow> 'k map_key \<Rightarrow> flash_range \<Rightarrow> (nat \<Rightarrow> apage) \<Rightarrow> nat \<Rightarrow> bool" where
  "compact_page F K r ap y \<longleftrightarrow> slots_size F (snd (ap y)) = entries_size F (page_entries F r ap y)
     \<and> distinct (entry_keys K (page_entries F r ap y))
     \<and> set (entry_keys K (page_entries F r ap y)) \<inter> set (entry_keys K (entries_between F r ap y)) = {}"

lemma entries_size_live: "entries_size F (live_at F a ss) \<le> slots_size F ss"
  by (induction F a ss rule: live_at.induct) (auto simp: slots_size_def)

section \<open>Appending an entry\<close>

context map_store
begin

lemma entries_of_last: "y < page_count F r \<Longrightarrow> entries_of ap y = entries_upto F r ap y (page_count F r - 1) @ page_entries F r ap y"
  using two_pages entries_upto_simps(2) [of F r ap y "page_count F r - 1"] by (simp add: ring_entries_def)

lemma entries_of_youngest:
  assumes "y < page_count F r"
  shows "entries_of (ap(y := p)) y = entries_upto F r ap y (page_count F r - 1) @ page_entries F r (ap(y := p)) y"
proof -
  have "(y + i) mod page_count F r \<noteq> y" if "1 \<le> i" "i \<le> page_count F r - 1" for i
    using ring_inj_iff [of i 0 "page_count F r" y] that assms by simp
  then have "entries_upto F r (ap(y := p)) y (page_count F r - 1) = entries_upto F r ap y (page_count F r - 1)"
    by (intro entries_upto_cong) simp
  then show ?thesis using entries_of_last [OF assms] by simp
qed

definition free_address :: "(nat \<Rightarrow> apage) \<Rightarrow> nat \<Rightarrow> nat" where
  "free_address ap y = page_data_start F r y + slots_size F (snd (ap y))"

definition appended :: "(nat \<Rightarrow> apage) \<Rightarrow> nat \<Rightarrow> u8 list \<Rightarrow> nat \<Rightarrow> apage" where
  "appended ap y d = ap(y := (fst (ap y), snd (ap y) @ [(True, d)]))"

lemma entries_appended:
  assumes "y < page_count F r"
  shows "entries_of (appended ap y d) y = entries_of ap y @ [(free_address ap y, d)]"
  using entries_of_last [OF assms, of ap] entries_of_youngest [OF assms, of ap]
  by (simp add: appended_def page_entries_def live_at_append free_address_def)

lemma write_raw_new: "wp (item_write F \<lparr> item_header = slot_header (True, d), item_data_buffer = d \<rparr> a) (\<lambda>_. Q) E s
    = wp (write_new F a d) (\<lambda>_. Q) E s"
  by (simp add: item_write_def write_new_def slot_header_def Let_def)

text \<open>Noticing where the item will be, then writing it there.\<close>

lemma wp_note_and_write:
  fixes s :: "('s, 'k) storage"
  assumes "mapped ap y k s" "fst (ap y) = PartialOpen" "is_item d" "key_of K d = Some key" "length d \<le> u16_MAX"
    and "slots_size F (snd (ap y)) + slot_size F (length d) \<le> calculate_page_size F"
    and "round_up_to_alignment F (length d) \<le> length (data_buffer s)" "a = free_address ap y"
  shows "wp (note_key_location key a True)
    (\<lambda>_ t. data_buffer t = data_buffer s
      \<and> wp (write_new F a d) (\<lambda>_ u. mapped (appended ap y d) y k u \<and> data_buffer u = data_buffer s) no_err t) no_err s"
proof -
  note m = mappedE [OF assms(1)]
  have y: "y < page_count F r" using shape_less [OF m(2)] by simp
  have pos: "0 < a" using assms(8) word_pos by (simp add: free_address_def page_data_start_def)
  have shape: "queue_shape (page_count F r) (appended ap y d) y k"
    unfolding appended_def by (rule shape_youngest_update [OF m(2)]) (simp add: assms(2))
  have fit: "entries_fit F is_item (length (data_buffer s)) (entries_of (appended ap y d) y)"
    using m(4) assms(3,7) by (auto simp: entries_appended [OF y] entries_fit_def)
  have keys: "key_addresses K (entries_of (appended ap y d) y) = (key_addresses K (entries_of ap y))(key \<mapsto> a)"
    using assms(4,8) by (simp add: entries_appended [OF y] key_addresses_snoc)
  show ?thesis
  proof (rule wp_mono [OF wp_note_key_location [OF m(1,5) pos, of key True]], goal_cases)
    case (1 _ t)
    then have t: "holds r ap t" by simp
    have "wp (write_new F a d) (\<lambda>_ u. holds r (appended ap y d) u \<and> data_buffer u = data_buffer t) no_err t"
      unfolding appended_def using assms(2,5,6,8) by (intro wp_append_item [OF config(1) t y]) (simp_all add: free_address_def)
    from wp_leaves [OF leaves_write_new this] show ?case
      using 1 shape fit keys by (auto simp: map_at_def elim!: wp_mono)
  qed simp
qed

section \<open>Migrating\<close>

text \<open>
  In the loop: \<open>y\<close> is the target, the source is the page after it; the entries of the source are
  those already seen and those to come, and the ones seen are not needed any more.
\<close>

definition migrating ::
  "(nat \<Rightarrow> apage) \<Rightarrow> nat \<Rightarrow> ('k \<Rightarrow> u8 list option) \<Rightarrow> map_entry list \<Rightarrow> map_entry list \<Rightarrow> ('s, 'k) storage \<times> header_iter \<Rightarrow> bool"
where
  "migrating ap y c seen todo t \<longleftrightarrow> (let n = page_count F r; p = Suc y mod n in
     mapped ap y 0 (fst t) \<and> fst (ap y) = PartialOpen
     \<and> page_entries F r ap p = seen @ todo \<and> items_left F r ap p todo (snd t)
     \<and> contents K (entries_of ap y) = c
     \<and> contents K (todo @ entries_behind F r ap y) = c
     \<and> slots_size F (snd (ap y)) + entries_size F todo \<le> calculate_page_size F)"

lemma source_page:
  assumes "y < page_count F r"
  shows "Suc y mod page_count F r < page_count F r" "Suc y mod page_count F r \<noteq> y"
  using ring_inj_iff [of 1 0 "page_count F r" y] two_pages assms by simp_all

lemma entries_of_source: "entries_of ap y = page_entries F r ap (Suc y mod page_count F r) @ entries_behind F r ap y"
  using two_pages by (simp add: ring_entries_def entries_upto_def entries_behind_def upt_conv_Cons numeral_2_eq_2 del: upt_Suc)

lemma entries_behind_split: "y < page_count F r \<Longrightarrow> entries_behind F r ap y = entries_between F r ap y @ page_entries F r ap y"
  using two_pages by (simp add: entries_behind_def entries_between_def)

lemma between_cong:
  assumes "\<And>i. i < page_count F r \<Longrightarrow> i \<noteq> y \<Longrightarrow> i \<noteq> Suc y mod page_count F r \<Longrightarrow> snd (ap' i) = snd (ap i)" "y < page_count F r"
  shows "entries_between F r ap' y = entries_between F r ap y"
proof -
  let ?n = "page_count F r"
  have "page_entries F r ap' ((y + i) mod ?n) = page_entries F r ap ((y + i) mod ?n)" if "i \<in> set [2..<?n]" for i
  proof -
    have "(y + i) mod ?n < ?n" "(y + i) mod ?n \<noteq> y" "(y + i) mod ?n \<noteq> Suc y mod ?n"
      using ring_inj_iff [of i 0 ?n y] ring_inj_iff [of i 1 ?n y] that assms(2) by simp_all
    then show ?thesis using assms(1) by (simp add: page_entries_def)
  qed
  then show ?thesis unfolding entries_between_def by (intro arg_cong [of _ _ concat] map_cong) auto
qed

lemma compact_cong:
  assumes "\<And>i. i < page_count F r \<Longrightarrow> i \<noteq> Suc y mod page_count F r \<Longrightarrow> snd (ap' i) = snd (ap i)" "y < page_count F r"
  shows "compact_page F K r ap' y = compact_page F K r ap y"
  using between_cong [of y ap' ap] assms source_page [OF assms(2)] by (simp add: compact_page_def page_entries_def)

lemma compact_empty: "snd (ap y) = [] \<Longrightarrow> compact_page F K r ap y"
  by (simp add: compact_page_def slots_size_def)

lemma compact_appended:
  assumes "compact_page F K r ap y" "y < page_count F r" "key_of K d = Some key" "newest K (entries_behind F r ap y) key = None"
  shows "compact_page F K r (appended ap y d) y"
proof -
  have page: "page_entries F r (appended ap y d) y = page_entries F r ap y @ [(free_address ap y, d)]"
    by (simp add: appended_def page_entries_def live_at_append free_address_def)
  have between: "entries_between F r (appended ap y d) y = entries_between F r ap y"
    by (rule between_cong [OF _ assms(2)]) (simp add: appended_def)
  have "slots_size F (snd (appended ap y d y)) = slots_size F (snd (ap y)) + slot_size F (length d)"
    by (simp add: appended_def slots_size_def)
  then show ?thesis
    using assms(1,3,4) unfolding compact_page_def page between newest_None_keys entries_behind_split [OF assms(2)]
    by auto
qed

lemma distinct_entries_of: "mapped ap y k s \<Longrightarrow> distinct (map fst (entries_of ap y))"
  unfolding ring_entries_def
  by (rule distinct_entries [OF config(1)]) (auto dest: mappedE(1) holds_page(3) [OF config(1)])

text \<open>One item that is the newest of its key, and one that is not.\<close>

lemma migrating_copied:
  assumes "migrating ap y c seen ((a, d) # todo) (s, it)" "newest K (entries_of ap y) key = Some (a, d)"
    and "key_of K d = Some key" "mapped (appended ap y d) y 0 t" "items_left F r ap (Suc y mod page_count F r) todo it'"
  shows "migrating (appended ap y d) y c (seen @ [(a, d)]) todo (t, it')"
proof -
  let ?n = "page_count F r" and ?p = "Suc y mod page_count F r"
  let ?later = "entries_behind F r ap y"
  let ?later' = "entries_behind F r (appended ap y d) y"
  note mig = assms(1) [unfolded migrating_def Let_def fst_conv snd_conv]
  have m: "mapped ap y 0 s" using mig by simp
  have y: "y < ?n" using shape_less(1) [OF mappedE(2) [OF m]] .
  note p = source_page [OF y]
  have same: "page_entries F r (appended ap y d) ?p = page_entries F r ap ?p"
    "items_left F r (appended ap y d) ?p = items_left F r ap ?p"
    using p(2) by (simp_all add: appended_def page_entries_def items_left_def slots_left_def fun_eq_iff)
  have entries: "entries_of ap y = (seen @ (a, d) # todo) @ ?later" using entries_of_source [of ap y] mig by simp
  have "entries_of (appended ap y d) y = page_entries F r ap ?p @ ?later'"
    using entries_of_source [of "appended ap y d" y] same(1) by simp
  then have later: "?later' = ?later @ [(free_address ap y, d)]"
    using entries_appended [OF y, of ap d] entries_of_source [of ap y] by simp
  have none: "newest K (todo @ ?later) key = None"
    using newest_address(1) [of seen a d "todo @ ?later" K key a d] distinct_entries_of [OF m] assms(2,3) entries by simp
  have c: "contents K (entries_of ap y) = c" "contents K ((a, d) # todo @ ?later) = c" using mig by simp_all
  have ck: "c key = Some d" using c(1) assms(2) by (auto simp: contents_def)
  have "contents K (todo @ ?later') = c"
  proof
    fix k
    show "contents K (todo @ ?later') k = c k"
      using fun_cong [OF c(2), of k] ck assms(3) none unfolding later append_assoc [symmetric] contents_snoc [OF assms(3)]
      by (auto simp: contents_def newest_Cons split: option.splits)
  qed
  moreover have "contents K (entries_of (appended ap y d) y) = c"
    using c(1) ck by (simp add: entries_appended [OF y] contents_snoc [OF assms(3)] fun_upd_idem)
  moreover have "items_left F r (appended ap y d) ?p todo it'" using assms(5) same(2) by simp
  moreover have "page_entries F r (appended ap y d) ?p = (seen @ [(a, d)]) @ todo" "fst (appended ap y d y) = PartialOpen"
    "slots_size F (snd (appended ap y d y)) + entries_size F todo \<le> calculate_page_size F"
    using mig same(1) by (simp_all add: appended_def)
  ultimately show ?thesis using assms(4) by (simp add: migrating_def Let_def)
qed

lemma migrating_skipped:
  assumes "migrating ap y c seen ((a, d) # todo) (s, it)" "newest K (entries_of ap y) key = Some (a', d')" "a' \<noteq> a"
    and "key_of K d = Some key" "mapped ap y 0 t" "items_left F r ap (Suc y mod page_count F r) todo it'"
  shows "migrating ap y c (seen @ [(a, d)]) todo (t, it')"
proof -
  let ?n = "page_count F r"
  let ?later = "entries_behind F r ap y"
  note mig = assms(1) [unfolded migrating_def Let_def fst_conv snd_conv]
  have entries: "entries_of ap y = (seen @ (a, d) # todo) @ ?later" using entries_of_source [of ap y] mig by simp
  have "newest K (todo @ ?later) key \<noteq> None"
    using newest_address(2) [of seen a d "todo @ ?later" K key a' d'] distinct_entries_of [OF assms(5)] assms(2-4) entries by simp
  then have "newest K ((a, d) # todo @ ?later) k = newest K (todo @ ?later) k" for k
    using assms(4) by (auto simp: newest_Cons split: option.split)
  then have "contents K (todo @ ?later) = contents K ((a, d) # todo @ ?later)"
    unfolding contents_def by simp
  then show ?thesis using mig assms(5,6) by (simp add: migrating_def Let_def)
qed

lemma reborrow_entry:
  assumes "unat (ih_length (slot_header (True, d))) = length d" "take (length d) b = d"
  shows "reborrow (slot_header (True, d)) b = Some \<lparr> item_header = slot_header (True, d), item_data_buffer = d \<rparr>"
proof -
  have "length d \<le> length b" using assms(2) by (metis length_take min.cobounded1)
  then show ?thesis using assms by (simp add: reborrow_def)
qed

text \<open>The loop ends with a source page whose entries are not needed any more.\<close>

definition migrated :: "(nat \<Rightarrow> apage) \<Rightarrow> nat \<Rightarrow> ('k \<Rightarrow> u8 list option) \<Rightarrow> ('s, 'k) storage \<Rightarrow> bool" where
  "migrated ap y c t \<longleftrightarrow> mapped ap y 0 t \<and> fst (ap y) = PartialOpen
     \<and> contents K (entries_of ap y) = c \<and> contents K (entries_behind F r ap y) = c"

lemma wp_migrate_rounds:
  fixes s :: "('s, 'k) storage"
  assumes "migrating ap y c seen todo (s, it)" "length todo < fuel" "w = free_address ap y"
    and "compact_page F K r ap y" "\<forall>i. i \<noteq> y \<longrightarrow> ap i = ap0 i"
  shows "wp (migrate_rounds F K w fuel)
    (\<lambda>_ t. (\<exists>ap'. migrated ap' y c (fst t) \<and> compact_page F K r ap' y \<and> (\<forall>i. i \<noteq> y \<longrightarrow> ap' i = ap0 i))
      \<and> length (data_buffer (fst t)) = length (data_buffer s)) no_err (s, it)"
  using assms
proof (induction todo arbitrary: ap seen s it fuel w)
  case Nil
  obtain fuel' where fuel: "fuel = Suc fuel'" using Nil.prems(2) by (cases fuel) auto
  note mig = Nil.prems(1) [unfolded migrating_def Let_def fst_conv snd_conv]
  have m: "mapped ap y 0 s" and left: "items_left F r ap (Suc y mod page_count F r) [] it" using mig by simp_all
  have p: "Suc y mod page_count F r < page_count F r" using two_pages by simp
  have done_with: "\<exists>ap'. migrated ap' y c u \<and> compact_page F K r ap' y \<and> (\<forall>i. i \<noteq> y \<longrightarrow> ap' i = ap0 i)"
    if "mapped ap y 0 u" for u using mig that Nil.prems(4,5) by (auto simp: migrated_def)
  show ?case
    unfolding fuel migrate_rounds.simps wp_bnd [of "item_iter_next F"]
    by (rule wp_mono [OF wp_item_iter_next [OF config(1) mappedE(1) [OF m] p left]])
      (use done_with mapped_same [OF m] in \<open>auto simp: next_entry_def\<close>)
next
  case (Cons e todo)
  let ?n = "page_count F r" and ?p = "Suc y mod page_count F r"
  obtain a d where e: "e = (a, d)" by (cases e)
  obtain fuel' where fuel: "fuel = Suc fuel'" "length todo < fuel'" using Cons.prems(2) by (cases fuel) auto
  note mig1 = Cons.prems(1) [unfolded e]
  note mig = mig1 [unfolded migrating_def Let_def fst_conv snd_conv]
  have m: "mapped ap y 0 s" and left: "items_left F r ap ?p ((a, d) # todo) it" and young: "fst (ap y) = PartialOpen"
    and room: "slots_size F (snd (ap y)) + slot_size F (length d) \<le> calculate_page_size F"
    using mig by simp_all
  have y: "y < ?n" using shape_less(1) [OF mappedE(2) [OF m]] .
  note p = source_page [OF y]
  have in_page: "set ((a, d) # todo) \<subseteq> set (page_entries F r ap ?p)" using mig by auto
  then have sub: "set ((a, d) # todo) \<subseteq> set (entries_of ap y)" using entries_of_source [of ap y] by auto
  have fits: "\<forall>e \<in> set ((a, d) # todo). round_up_to_alignment F (length (snd e)) \<le> length (data_buffer s)"
    using mappedE(4) [OF m] sub unfolding entries_fit_def by blast
  have d: "is_item d" "round_up_to_alignment F (length d) \<le> length (data_buffer s)" "(a, d) \<in> set (entries_of ap y)"
    using mappedE(4) [OF m] sub unfolding entries_fit_def by auto
  have len: "length d \<le> u16_MAX" "unat (ih_length (slot_header (True, d))) = length d"
    using entry_length [OF mappedE(1) [OF m] p(1)] in_page by auto
  have next_w: "next_item_address F (slot_header (True, d)) w = free_address (appended ap y d) y"
    using next_item_address_slot [of "(True, d)" w] len(1) Cons.prems(3) by (simp add: free_address_def appended_def)
  show ?case
    unfolding fuel(1) migrate_rounds.simps wp_bnd [of "item_iter_next F"]
  proof (rule wp_mono [OF wp_item_iter_next [OF config(1) mappedE(1) [OF m] p(1) left fits]], goal_cases)
    case (1 res t)
    obtain u it' where t: "t = (u, it')" by (cases t)
    have u: "mapped ap y 0 u" "length (data_buffer u) = length (data_buffer s)" "take (length d) (data_buffer u) = d"
      and left': "items_left F r ap ?p todo it'"
      and res: "res = Some (\<lparr> item_header = slot_header (True, d), item_data_buffer = data_buffer u \<rparr>, a)"
      using 1 mapped_same [OF m, of u] unfolding t next_entry_def by simp_all
    obtain key where key: "key_of K d = Some key" "key_deserialize_from K (data_buffer u) = Ok (key, length (kenc key))"
      using decode_from_buffer [OF d(1) u(3)] by blast
    let ?u = "u\<lparr>cache := unmark_dirty (cache u)\<rparr>"
    have u': "mapped ap y 0 ?u" using u(1) by simp
    obtain a' d' where new: "newest K (entries_of ap y) key = Some (a', d')"
      using newest_exists [OF d(3)] key(1) by fastforce
    obtain i where i: "i < ?n" "(a', d') \<in> set (page_entries F r ap i)" "key_of K d' = Some key"
      using newest_entry [OF u(1) new] by blast
    note len' = entry_length(2) [OF mappedE(1) [OF u(1)] i(1,2)]
    have rest: "wp (migrate_rounds F K w fuel') (\<lambda>_ t. (\<exists>ap'. migrated ap' y c (fst t) \<and> compact_page F K r ap' y \<and> (\<forall>i. i \<noteq> y \<longrightarrow> ap' i = ap0 i))
        \<and> length (data_buffer (fst t)) = length (data_buffer s)) no_err (v, it')"
      if v: "mapped ap y 0 v" "length (data_buffer v) = length (data_buffer s)" "a' \<noteq> a" for v
    proof -
      note mig' = migrating_skipped [OF mig1 new v(3) key(1) v(1) left']
      show ?thesis using Cons.IH [OF mig' fuel(2) Cons.prems(3-5)] v(2) by simp
    qed
    have copy: "wp (sq (lift_local (note_key_location key w True))
        (sq (lift_local (item_write F \<lparr> item_header = slot_header (True, d), item_data_buffer = d \<rparr> w))
          (migrate_rounds F K (free_address (appended ap y d) y) fuel')))
      (\<lambda>_ t. (\<exists>ap'. migrated ap' y c (fst t) \<and> compact_page F K r ap' y \<and> (\<forall>i. i \<noteq> y \<longrightarrow> ap' i = ap0 i))
        \<and> length (data_buffer (fst t)) = length (data_buffer s)) no_err (v, it')"
      if v: "mapped ap y 0 v" "length (data_buffer v) = length (data_buffer s)" "a' = a" for v
    proof -
      have "newest K (entries_of ap y) key = Some (a, d)" and none: "newest K (todo @ entries_behind F r ap y) key = None"
        using newest_address(1) [of seen a d "todo @ entries_behind F r ap y" K key a' d'] distinct_entries_of [OF m]
          entries_of_source [of ap y] mig key(1) new v(3) by simp_all
      note copied = migrating_copied [OF mig1 this(1) key(1) _ left']
      have "newest K (entries_behind F r ap y) key = None" using none by (simp split: option.splits)
      note compact = compact_appended [OF Cons.prems(4) y key(1) this]
      have frame: "\<forall>i. i \<noteq> y \<longrightarrow> appended ap y d i = ap0 i" using Cons.prems(5) by (simp add: appended_def)
      have "round_up_to_alignment F (length d) \<le> length (data_buffer v)" using d(2) v(2) by simp
      from wp_note_and_write [OF v(1) young d(1) key(1) len(1) room this Cons.prems(3)]
      show ?thesis
        unfolding wp_sq wp_lift_local fst_conv snd_conv write_raw_new
      proof (rule wp_mono, goal_cases)
        case (1 _ v1)
        show ?case
        proof (rule wp_mono [OF conjunct2 [OF 1]], goal_cases)
          case (1 _ v2)
          then show ?case using Cons.IH [OF copied [OF conjunct1 [OF 1]] fuel(2) refl compact frame] v(2) by simp
        qed simp
      qed simp
    qed
    show ?case
      unfolding t res option.case prod.case item.select_convs key(2) deserialized_Ok wp_bnd [of "ret x" for x] wp_ret
        wp_sq [of "lift_local (on_cache unmark_dirty)"] wp_lift_local wp_on_cache fst_conv snd_conv
        wp_bnd [of "lift_local (fetch_item_with_location F K key)"]
    proof (rule wp_mono [OF wp_fetch_with_location [OF u', of key]], goal_cases)
      case (1 found v)
      then obtain kl where found: "found = Some (slot_header (True, d'), a', kl)" and buf: "take (length d') (data_buffer v) = d'"
        using new by (auto simp: found_item_def)
      have v: "mapped ap y 0 v" "length (data_buffer v) = length (data_buffer s)" using 1 u(2) by simp_all
      have same: "d' = d" if "a' = a"
        using newest_address(1) [of seen a d "todo @ entries_behind F r ap y" K key a' d'] distinct_entries_of [OF m]
          entries_of_source [of ap y] mig key(1) new that by simp
      show ?case
        unfolding found option.case prod.case wp_bnd [of "gets f" for f] wp_gets fst_conv reborrow_entry [OF len' buf]
        using rest [OF v] copy [OF v] same next_w by (cases "a' = a") simp_all
    qed simp
  qed simp
qed

text \<open>Then the source page is opened and is the buffer.\<close>

lemma page_entries_size: "entries_size F (page_entries F r ap i) \<le> slots_size F (snd (ap i))"
  by (simp add: page_entries_def entries_size_live)

lemma opened_source:
  assumes "migrated ap y c s" "holds r (ap(Suc y mod page_count F r := (Open, []))) t"
    and "length (data_buffer t) = length (data_buffer s)" "cached_keys t = cached_keys s"
  shows "mapped (ap(Suc y mod page_count F r := (Open, []))) y 1 t"
    "contents K (entries_of (ap(Suc y mod page_count F r := (Open, []))) y) = c"
proof -
  let ?n = "page_count F r" and ?p = "Suc y mod page_count F r"
  let ?ap = "ap(?p := (Open, []))"
  have m: "mapped ap y 0 s" and c: "contents K (entries_of ap y) = c" "contents K (entries_behind F r ap y) = c"
    using assms(1) by (simp_all add: migrated_def)
  note shape = mappedE(2) [OF m]
  have y: "y < ?n" using shape_less(1) [OF shape] .
  have other: "page_entries F r ?ap ((y + i) mod ?n) = page_entries F r ap ((y + i) mod ?n)" if "i \<in> set [2..<Suc ?n]" for i
  proof -
    have "(y + i) mod ?n \<noteq> ?p" using ring_inj_iff [of i 1 ?n y] that by (auto simp del: upt_Suc)
    then show ?thesis by (simp add: page_entries_def)
  qed
  have "entries_behind F r ?ap y = entries_behind F r ap y"
    unfolding entries_behind_def using other by (intro arg_cong [of _ _ concat] map_cong) auto
  then have entries: "entries_of ?ap y = entries_behind F r ap y"
    using entries_of_source [of ?ap y] by simp
  have "queue_shape ?n ?ap y (Suc 0)"
    by (rule shape_open_oldest [OF shape]) (use two_pages in simp_all)
  moreover have "entries_fit F is_item (length (data_buffer t)) (entries_of ?ap y)"
    using mappedE(4) [OF m] assms(3) entries_of_source [of ap y] unfolding entries entries_fit_def by auto
  moreover have "key_addresses K (entries_of ?ap y) = key_addresses K (entries_of ap y)"
    using contents_superfluous [of K "page_entries F r ap ?p" "entries_behind F r ap y"] c
    unfolding entries entries_of_source [of ap y] by (simp add: key_addresses_def fun_eq_iff)
  ultimately show "mapped ?ap y 1 t" using assms(2,4) mappedE(5) [OF m] by (simp add: map_at_def)
  show "contents K (entries_of ?ap y) = c" using c(2) entries by simp
qed

lemma wp_migrate_items:
  fixes s :: "('s, 'k) storage"
  assumes "mapped ap y 0 s" "ap y = (PartialOpen, [])"
  shows "wp (migrate_items F K (Suc y mod page_count F r) y)
    (\<lambda>_ t. (\<exists>ap'. mapped ap' y 1 t \<and> fst (ap' y) = PartialOpen
        \<and> contents K (entries_of ap' y) = contents K (entries_of ap y)
        \<and> compact_page F K r ap' y \<and> (\<forall>i. i \<noteq> y \<and> i \<noteq> Suc y mod page_count F r \<longrightarrow> ap' i = ap i))
      \<and> length (data_buffer t) = length (data_buffer s)) no_err s"
proof -
  let ?p = "Suc y mod page_count F r" and ?c = "contents K (entries_of ap y)"
  note m = mappedE [OF assms(1)]
  have y: "y < page_count F r" using shape_less(1) [OF m(2)] .
  note p = source_page [OF y]
  note left = page_items_iter_left(2) [of r ap ?p]
  note fuel = items_left_fuel [OF config(1) m(1) p(1) left]
  have start: "page_data_start F r y = free_address ap y" using assms(2) by (simp add: free_address_def)
  have "entries_size F (page_entries F r ap ?p) \<le> calculate_page_size F"
    using page_entries_size [of ap ?p] holds_page(6) [OF config(1) m(1) p(1)] by simp
  then have "migrating ap y ?c [] (page_entries F r ap ?p) (s, page_items_iter F r ?p)"
    using assms left entries_of_source [of ap y] by (simp add: migrating_def Let_def)
  note mig = this
  have compact: "compact_page F K r ap y" using assms(2) by (simp add: compact_empty)
  have frame: "\<forall>i. i \<noteq> y \<longrightarrow> ap i = ap i" by simp
  note loop = wp_migrate_rounds [OF mig fuel start compact frame]
  show ?thesis
    unfolding migrate_items_def wp_bnd [of "gets f" for f] wp_gets m(3) Let_def wp_sq wp_with_local
  proof (rule wp_mono [OF loop], goal_cases)
    case (1 _ t)
    then obtain ap' where t: "migrated ap' y ?c (fst t)" and compact: "compact_page F K r ap' y"
      and frame: "\<forall>i. i \<noteq> y \<longrightarrow> ap' i = ap i" by blast
    then have h: "holds r ap' (fst t)" by (auto simp: migrated_def dest: mappedE(1))
    have len: "length (data_buffer (fst t)) = length (data_buffer s)" using 1 by simp
    have compact': "compact_page F K r (ap'(?p := (Open, []))) y"
      using compact compact_cong [OF _ y, of "ap'(?p := (Open, []))" ap'] by simp
    show ?case
    proof (rule wp_mono [OF wp_leaves [OF leaves_open_page wp_open_page [OF config(1) h p(1)]]], goal_cases)
      case (1 _ u)
      moreover have "fst (ap' y) = PartialOpen" using t by (simp add: migrated_def)
      ultimately show ?case
        using opened_source [OF t, of u] len p(2) frame compact' by (intro conjI exI [of _ "ap'(?p := (Open, []))"]) simp_all
    qed simp
  qed simp
qed

end

end
