(* ===== verification/MapStore.thy ===== *)
theory MapStore
  imports MapMigrate
begin

text \<open>
  Storing: on a flash that holds a map, \<open>store_item\<close> gives the key its value or fails and leaves
  the map as it was. When a page is full the next one is started, and the page after that is
  emptied to be the buffer.
\<close>

context map_store
begin

section \<open>Serializing to the buffer\<close>

lemma wp_serialize_item:
  fixes s :: "('s, 'k) storage"
  assumes "kvalid key" "vvalid val" "d = kenc key @ venc val"
  shows "wp (serialize_item K V key val)
    (\<lambda>n t. n = length d \<and> take (length d) (data_buffer t) = d \<and> length d \<le> length (data_buffer s)
      \<and> t = s\<lparr>data_buffer := data_buffer t\<rparr> \<and> length (data_buffer t) = length (data_buffer s))
    (\<lambda>e t. (\<exists>e'. e = SerializationError e') \<and> length (data_buffer s) < length d
      \<and> t = s\<lparr>data_buffer := data_buffer t\<rparr> \<and> length (data_buffer t) = length (data_buffer s)) s"
proof (cases "length (kenc key) \<le> length (data_buffer s)")
  case False
  then obtain e where "key_serialize_into K key (data_buffer s) = (Err e, data_buffer s)"
    using serialize_key_short [OF assms(1), of "data_buffer s"] by auto
  then have "wp (key_serialize_into K key) Q E (data_buffer s) = E e (data_buffer s)" for Q E
    by (simp add: wp_def)
  then show ?thesis using False assms(3) by (simp add: serialize_item_def)
next
  case True
  let ?b = "overwrite 0 (kenc key) (data_buffer s)"
  have key: "wp (key_serialize_into K key) Q E (data_buffer s) = Q (length (kenc key)) ?b" for Q E
    using serialize_key [OF assms(1) True] by (simp add: wp_def)
  have b: "take (length (kenc key)) ?b = kenc key" "length ?b = length (data_buffer s)"
    using True by (simp_all add: overwrite_def)
  show ?thesis
  proof (cases "length d \<le> length (data_buffer s)")
    case fits: True
    let ?tail = "drop (length (kenc key)) ?b"
    have "length (venc val) \<le> length ?tail" using fits assms(3) b(2) by simp
    note val = serialize_value [OF assms(2) this]
    have val': "wp (value_serialize_into V val) Q E ?tail = Q (length (venc val)) (overwrite 0 (venc val) ?tail)" for Q E
      using val by (simp add: wp_def)
    show ?thesis
      using True fits b assms(3) by (simp add: serialize_item_def key on_tail_def val') (simp add: overwrite_def)
  next
    case short: False
    let ?tail = "drop (length (kenc key)) ?b"
    have "length ?tail < length (venc val)" using short assms(3) b(2) True by simp
    then obtain e b' where val: "value_serialize_into V val ?tail = (Err e, b')" "length b' = length ?tail"
      using serialize_value_short [OF assms(2)] by blast
    have val': "wp (value_serialize_into V val) Q E ?tail = E e b'" for Q E
      using val by (simp add: wp_def)
    show ?thesis
      using True short b val(2) assms(3) by (simp add: serialize_item_def key on_tail_def val')
  qed
qed

section \<open>Storing in the page that is written to\<close>

lemma map_not_too_big:
  assumes "\<not> item_too_big F n"
  shows "n \<le> u16_MAX" "slot_size F n \<le> calculate_page_size F"
proof -
  have n: "n \<le> calculate_page_size F - header_slice_len F" and "n \<le> u16_MAX"
    using assms by (auto simp: item_too_big_def data_address_def header_slice_len_def)
  then show "n \<le> u16_MAX" by simp
  have "round_up_to_alignment F n \<le> calculate_page_size F - header_slice_len F"
    using config_facts(7) [OF config(1)] header_slice_dvd n
    unfolding round_up_to_alignment_def by (intro next_multiple_of_least dvd_diff_nat)
  then show "slot_size F n \<le> calculate_page_size F" using header_fits by (simp add: slot_size_def)
qed

text \<open>The page is closed because the item did not fit, and the next one is not started yet.\<close>

definition page_left :: "(nat \<Rightarrow> apage) \<Rightarrow> nat \<Rightarrow> nat \<Rightarrow> ('s, 'k) storage \<Rightarrow> bool" where
  "page_left ap y k s \<longleftrightarrow> holds r (ap(y := (Closed, snd (ap y)))) s \<and> queue_shape (page_count F r) ap y k
     \<and> entries_fit F is_item (length (data_buffer s)) (entries_of ap y)
     \<and> keys_sound (cached_keys s) (key_addresses K (entries_of ap y))"

text \<open>The errors a store ends with, other than a full storage.\<close>

definition refused :: "u8 list \<Rightarrow> ('s, 'k) storage \<Rightarrow> 'e error \<Rightarrow> bool" where
  "refused d s e \<longleftrightarrow> e = ItemTooBig \<and> item_too_big F (length d)
     \<or> (\<exists>e'. e = SerializationError e') \<and> length (data_buffer s) < length d"

lemma wp_store_in_page:
  fixes s :: "('s, 'k) storage"
  assumes "mapped ap y k s" "0 < k" "fst (ap y) = PartialOpen" "kvalid key" "vvalid val" "d = kenc key @ venc val"
    and "length d \<le> length (data_buffer s) \<Longrightarrow> round_up_to_alignment F (length d) \<le> length (data_buffer s)"
  shows "wp (store_in_page F K V key val y)
    (\<lambda>res t. length (data_buffer t) = length (data_buffer s) \<and> \<not> item_too_big F (length d)
      \<and> (case res of None \<Rightarrow> mapped (appended ap y d) y k t
         | Some p \<Rightarrow> p = Suc y mod page_count F r \<and> page_left ap y k t
             \<and> \<not> slots_size F (snd (ap y)) + slot_size F (length d) \<le> calculate_page_size F))
    (\<lambda>e t. refused d s e \<and> mapped ap y k t \<and> length (data_buffer t) = length (data_buffer s)) s"
proof -
  let ?n = "page_count F r" and ?L = "length (data_buffer s)"
  let ?fits = "slots_size F (snd (ap y)) + slot_size F (length d) \<le> calculate_page_size F"
  note m = mappedE [OF assms(1)]
  have y: "y < ?n" using shape_less(1) [OF m(2)] .
  have nxt: "next_page F r y = Suc y mod ?n" by (simp add: next_page_def)
  have p: "Suc y mod ?n < ?n" and next_open: "ap (Suc y mod ?n) = (Open, [])"
    using source_page(1) [OF y] shape_open [OF m(2), of 1] assms(2) by simp_all
  have item: "is_item d" "key_of K d = Some key" using assms(4-6) item_decodes(1) by (auto simp: encodes_def)
  have go: "wp (bnd (find_next_free_item_spot F (page_data_start F r y) (page_data_end F r y) (length d))
      (\<lambda>free_spot_address. case free_spot_address of
         Some address \<Rightarrow>
           sq (note_key_location key address True)
           (bnd (gets data_buffer) (\<lambda>buffer.
            sq (assert_that (length d \<le> length buffer))
            (sq (write_new F address (take (length d) buffer))
            (sq (on_cache unmark_dirty) (ret None)))))
       | None \<Rightarrow> sq (close_page F y) (ret (Some (Suc y mod ?n)))))
    (\<lambda>res t. length (data_buffer t) = ?L \<and> \<not> item_too_big F (length d)
      \<and> (case res of None \<Rightarrow> mapped (appended ap y d) y k t
         | Some p \<Rightarrow> p = Suc y mod ?n \<and> page_left ap y k t \<and> \<not> ?fits)) E t"
    if t: "mapped ap y k t" "length (data_buffer t) = ?L" "take (length d) (data_buffer t) = d" and small: "\<not> item_too_big F (length d)"
      and room: "length d \<le> ?L" for E t
    unfolding wp_bnd [of "find_next_free_item_spot _ _ _ _"]
  proof (rule wp_mono [OF wp_leaves [OF leaves_find_next_free_item_spot
        wp_find_next_free_item_spot [OF config(1) mappedE(1) [OF t(1)] y, of "length d"]]], goal_cases)
    case (1 res u)
    then have u: "mapped ap y k u" "data_buffer u = data_buffer t" using mapped_same [OF t(1)] by simp_all
    note len = map_not_too_big [OF small]
    show ?case
    proof (cases ?fits)
      case True
      then have res: "res = Some (free_address ap y)" using 1 by (simp add: free_address_def)
      have "round_up_to_alignment F (length d) \<le> length (data_buffer u)" using assms(7) room t(2) u(2) by simp
      from wp_note_and_write [OF u(1) assms(3) item len(1) True this refl]
      show ?thesis
        unfolding res option.case wp_sq [of "note_key_location _ _ _"]
      proof (rule wp_mono, goal_cases)
        case (1 _ v)
        then have "take (length d) (data_buffer v) = d" "length d \<le> length (data_buffer v)"
          using t u room by simp_all
        then show ?case using 1 t u small by (auto elim!: wp_mono)
      qed simp
    next
      case False
      then have res: "res = None" using 1 by simp
      have "page_left ap y k v" if "holds r (ap(y := (Closed, snd (ap y)))) v" "data_buffer v = data_buffer u"
        "cached_keys v = cached_keys u" for v
        using that mappedE [OF u(1)] by (simp add: page_left_def)
      then show ?thesis
        unfolding res option.case wp_sq [of "close_page _ _"]
        by (intro wp_mono [OF wp_leaves [OF leaves_close_page wp_close_page [OF config(1) mappedE(1) [OF u(1)] y]]])
          (use t u small False in auto)
    qed
  qed simp
  show ?thesis
    unfolding store_in_page_def wp_bnd [of "gets f" for f] wp_gets m(3) nxt wp_bnd [of "get_page_state _ _"]
  proof (rule wp_mono [OF wp_leaves [OF leaves_get_page_state wp_get_page_state [OF config(1) m(1) p]]], goal_cases)
    case (1 st t)
    then have t: "mapped ap y k t" "data_buffer t = data_buffer s" and st: "is_open st"
      using mapped_same [OF assms(1)] next_open by (simp_all add: is_open_def)
    have same: "mapped ap y k u" if "u = t\<lparr>data_buffer := data_buffer u\<rparr>" "length (data_buffer u) = length (data_buffer t)"
      for u :: "('s, 'k) storage"
    proof -
      have "flash u = flash t \<and> flash_range u = flash_range t \<and> cache u = cache t" by (subst (1 2 3) that(1)) simp
      then show ?thesis using t(1) that(2) by (simp add: map_at_def flash_holds_def)
    qed
    have "wp (bnd (serialize_item K V key val) (\<lambda>n. if n > u16_MAX \<or> n > calculate_page_size F - data_address F 0
        then sq (on_cache unmark_dirty) (fail ItemTooBig)
        else bnd (find_next_free_item_spot F (page_data_start F r y) (page_data_end F r y) n)
          (\<lambda>free_spot_address. case free_spot_address of
             Some address \<Rightarrow>
               sq (note_key_location key address True)
               (bnd (gets data_buffer) (\<lambda>buffer.
                sq (assert_that (n \<le> length buffer))
                (sq (write_new F address (take n buffer))
                (sq (on_cache unmark_dirty) (ret None)))))
           | None \<Rightarrow> sq (close_page F y) (ret (Some (Suc y mod ?n))))))
      (\<lambda>res t. length (data_buffer t) = ?L \<and> \<not> item_too_big F (length d)
        \<and> (case res of None \<Rightarrow> mapped (appended ap y d) y k t
           | Some p \<Rightarrow> p = Suc y mod ?n \<and> page_left ap y k t \<and> \<not> ?fits))
      (\<lambda>e t. refused d s e \<and> mapped ap y k t \<and> length (data_buffer t) = ?L) t"
      unfolding wp_bnd [of "serialize_item _ _ _ _"]
    proof (rule wp_mono [OF wp_serialize_item [OF assms(4-6)]], goal_cases)
      case (1 n u)
      then have u: "mapped ap y k u" "length (data_buffer u) = ?L" "take (length d) (data_buffer u) = d" "length d \<le> ?L"
        and n: "n = length d" using same [of u] t(2) by simp_all
      show ?case
      proof (cases "item_too_big F (length d)")
        case True
        then show ?thesis using u unfolding n item_too_big_def by (simp add: refused_def item_too_big_def)
      next
        case False
        then show ?thesis using go [OF u(1-3) False u(4)] unfolding n item_too_big_def by simp
      qed
    next
      case (2 e u)
      then show ?case using same [of u] t(2) by (auto simp: refused_def)
    qed
    then show ?case using st by simp
  qed simp
qed

section \<open>Starting the next page\<close>

lemma entries_of_next:
  "entries_of ap (Suc y mod page_count F r) = entries_behind F r ap y @ page_entries F r ap (Suc y mod page_count F r)"
proof -
  let ?n = "page_count F r"
  have "[2..<Suc (Suc ?n)] = [2..<Suc ?n] @ [Suc ?n]" using two_pages by simp
  moreover have "(y + Suc ?n) mod ?n = Suc y mod ?n" by (simp flip: add_Suc)
  moreover have "map (\<lambda>i. page_entries F r ap ((Suc y mod ?n + i) mod ?n)) [1..<Suc ?n]
      = map (\<lambda>i. page_entries F r ap ((y + i) mod ?n)) (map Suc [1..<Suc ?n])"
    by (simp add: mod_add_left_eq comp_def del: upt_Suc map_Suc_upt)
  ultimately show ?thesis
    by (simp add: ring_entries_def entries_upto_def entries_behind_def map_Suc_upt numeral_2_eq_2 del: upt_Suc)
qed

lemma entries_moved:
  assumes "y < page_count F r" "\<And>i. i < page_count F r \<Longrightarrow> i \<noteq> Suc y mod page_count F r \<Longrightarrow> snd (ap' i) = snd (ap i)"
    and "snd (ap (Suc y mod page_count F r)) = []" "snd (ap' (Suc y mod page_count F r)) = []"
  shows "entries_of ap' (Suc y mod page_count F r) = entries_of ap y"
proof -
  let ?n = "page_count F r" and ?p = "Suc y mod page_count F r"
  have "page_entries F r ap' ((y + i) mod ?n) = page_entries F r ap ((y + i) mod ?n)" if "i \<in> set [2..<Suc ?n]" for i
  proof -
    have "(y + i) mod ?n \<noteq> ?p" using ring_inj_iff [of i 1 ?n y] that by (auto simp del: upt_Suc)
    moreover have "(y + i) mod ?n < ?n" using assms(1) by simp
    ultimately show ?thesis using assms(2) [of "(y + i) mod ?n"] by (simp add: page_entries_def)
  qed
  then have "entries_behind F r ap' y = entries_behind F r ap y"
    unfolding entries_behind_def by (intro arg_cong [of _ _ concat] map_cong) auto
  then show ?thesis
    using entries_of_next [of ap' y] entries_of_source [of ap y] assms(3,4) by simp
qed

text \<open>A map whose youngest page was just started.\<close>

definition fresh_page :: "('k \<Rightarrow> u8 list option) \<Rightarrow> nat \<Rightarrow> ('s, 'k) storage \<Rightarrow> bool" where
  "fresh_page c len t \<longleftrightarrow> (\<exists>ap y k. mapped ap y k t \<and> 0 < k \<and> fst (ap y) = PartialOpen
     \<and> contents K (entries_of ap y) = c \<and> length (data_buffer t) = len)"

lemma fresh_pageI:
  "mapped ap y k t \<Longrightarrow> 0 < k \<Longrightarrow> fst (ap y) = PartialOpen \<Longrightarrow> contents K (entries_of ap y) = c \<Longrightarrow>
   length (data_buffer t) = len \<Longrightarrow> fresh_page c len t"
  unfolding fresh_page_def by blast

text \<open>
  The page after \<open>y\<close> is written to: it holds what was moved to it, and besides the page behind it no
  other one changed.
\<close>

definition started :: "(nat \<Rightarrow> apage) \<Rightarrow> nat \<Rightarrow> nat \<Rightarrow> (nat \<Rightarrow> apage) \<Rightarrow> nat \<Rightarrow> ('s, 'k) storage \<Rightarrow> bool" where
  "started ap y len ap' k' t \<longleftrightarrow> (let n = page_count F r; p = Suc y mod n in
     mapped ap' p k' t \<and> 0 < k' \<and> fst (ap' p) = PartialOpen
     \<and> contents K (entries_of ap' p) = contents K (entries_of ap y) \<and> length (data_buffer t) = len
     \<and> compact_page F K r ap' p \<and> (\<forall>i < n. i \<noteq> p \<and> i \<noteq> Suc p mod n \<longrightarrow> snd (ap' i) = snd (ap i)))"

lemma started_fresh: "started ap y len ap' k' t \<Longrightarrow> fresh_page (contents K (entries_of ap y)) len t"
  unfolding started_def Let_def by (auto intro: fresh_pageI)

lemma wp_start_next_page:
  fixes s :: "('s, 'k) storage"
  assumes "page_left ap y k s" "0 < k"
  shows "wp (start_next_page F K (Suc y mod page_count F r))
    (\<lambda>_ t. \<exists>ap' k'. started ap y (length (data_buffer s)) ap' k' t) no_err s"
proof -
  let ?n = "page_count F r" and ?p = "Suc y mod page_count F r"
  let ?ap1 = "ap(y := (Closed, snd (ap y)))"
  let ?ap2 = "?ap1(?p := (PartialOpen, []))"
  have h: "holds r ?ap1 s" and shape: "queue_shape ?n ap y k"
    and fit: "entries_fit F is_item (length (data_buffer s)) (entries_of ap y)"
    and keys: "keys_sound (cached_keys s) (key_addresses K (entries_of ap y))"
    using assms(1) by (simp_all add: page_left_def)
  have y: "y < ?n" using shape_less(1) [OF shape] .
  note p = source_page [OF y]
  have op: "ap ?p = (Open, [])" using shape_open [OF shape, of 1] assms(2) by simp
  have shape': "queue_shape ?n ?ap2 ?p (k - 1)"
    by (rule shape_moved [OF shape]) (use two_pages p in auto)
  have entries: "entries_of ?ap2 ?p = entries_of ap y"
    by (rule entries_moved [OF y]) (use op p in auto)
  have mapped: "mapped ?ap2 ?p (k - 1) t"
    if "holds r ?ap2 t" "data_buffer t = data_buffer s" "cached_keys t = cached_keys s" for t
    using that shape' fit keys by (simp add: map_at_def entries)
  have young: "?ap2 ?p = (PartialOpen, [])" by simp
  have q: "Suc ?p mod ?n < ?n" and nxt: "next_page F r ?p = Suc ?p mod ?n"
    using p by (simp_all add: next_page_def)
  have buffer: "fst (?ap2 (Suc ?p mod ?n)) = Open \<longleftrightarrow> 0 < k - 1"
    using shape_open [OF shape', of 1] shape_closed [OF shape', of 1] two_pages by (cases "0 < k - 1") auto
  show ?thesis
    unfolding start_next_page_def wp_bnd [of "get_page_state F ?p"]
  proof (rule wp_mono [OF wp_leaves [OF leaves_get_page_state wp_get_page_state [OF config(1) h p(1)]]], goal_cases)
    case (1 st t)
    then have t: "holds r ?ap1 t" "data_buffer t = data_buffer s" "cached_keys t = cached_keys s" and st: "is_open st"
      using op p(2) by (simp_all add: is_open_def)
    have pc: "partially_closed (?ap1 ?p) = (PartialOpen, [])" using op p(2) by (simp add: partially_closed_def)
    have "wp (sq (partial_close_page F ?p)
       (bnd (gets (\<lambda>s. next_page F (flash_range s) ?p)) (\<lambda>next_buffer_page.
        bnd (get_page_state F next_buffer_page) (\<lambda>buffer_state.
        if \<not> is_open buffer_state then migrate_items F K next_buffer_page ?p else ret ()))))
      (\<lambda>_ t. \<exists>ap' k'. started ap y (length (data_buffer s)) ap' k' t) no_err t"
      unfolding wp_sq
    proof (rule wp_mono [OF wp_leaves [OF leaves_partial_close_page wp_partial_close_page [OF config(1) t(1) p(1)]]], goal_cases)
      case (1 _ u)
      then have u: "holds r ?ap2 u" "data_buffer u = data_buffer s" "cached_keys u = cached_keys s"
        using pc t by simp_all
      have range: "flash_range u = r" using u(1) by (simp add: flash_holds_def)
      show ?case
        unfolding wp_bnd [of "gets f" for f] wp_gets range nxt wp_bnd [of "get_page_state _ _"]
      proof (rule wp_mono [OF wp_leaves [OF leaves_get_page_state wp_get_page_state [OF config(1) u(1) q]]], goal_cases)
        case (1 st' v)
        then have v: "mapped ?ap2 ?p (k - 1) v" "data_buffer v = data_buffer s"
          using mapped [of v] u by simp_all
        have st': "is_open st' \<longleftrightarrow> 0 < k - 1" using 1 buffer by (simp add: is_open_def)
        show ?case
        proof (cases "0 < k - 1")
          case True
          have "started ap y (length (data_buffer s)) ?ap2 (k - 1) v"
            using v True young entries by (simp add: started_def Let_def compact_empty)
          then show ?thesis using True st' by auto
        next
          case False
          then have "mapped ?ap2 ?p 0 v" using v(1) by simp
          from wp_migrate_items [OF this young]
          have "wp (migrate_items F K (Suc ?p mod ?n) ?p)
              (\<lambda>_ t. \<exists>ap' k'. started ap y (length (data_buffer s)) ap' k' t) no_err v"
          proof (rule wp_mono, goal_cases)
            case (1 _ w)
            then obtain ap' where w: "mapped ap' ?p 1 w" "contents K (entries_of ap' ?p) = contents K (entries_of ap y)"
              "fst (ap' ?p) = PartialOpen" "compact_page F K r ap' ?p"
              and frame: "\<forall>i. i \<noteq> ?p \<and> i \<noteq> Suc ?p mod ?n \<longrightarrow> ap' i = ?ap2 i"
              unfolding entries by blast
            have "snd (ap' i) = snd (ap i)" if "i \<noteq> ?p" "i \<noteq> Suc ?p mod ?n" for i using frame that by simp
            then have "started ap y (length (data_buffer s)) ap' 1 w"
              using w 1 v(2) by (simp add: started_def Let_def)
            then show ?case by blast
          qed simp
          then show ?thesis using False st' by simp
        qed
      qed simp
    qed simp
    then show ?case using st by simp
  qed simp
qed

text \<open>On an erased flash the first page is started.\<close>

lemma wp_start_first_page:
  fixes s :: "('s, 'k) storage"
  assumes "mapped ap y k s" "0 < k" "fst (ap y) \<noteq> PartialOpen"
  shows "wp (start_first_page F) (\<lambda>_ t. \<exists>ap'. mapped ap' y k t \<and> ap' y = (PartialOpen, [])
    \<and> contents K (entries_of ap' y) = contents K (entries_of ap y) \<and> length (data_buffer t) = length (data_buffer s)) no_err s"
proof -
  let ?n = "page_count F r"
  note m = mappedE [OF assms(1)]
  have all: "ap i = (Open, [])" if "i < ?n" for i using all_open [OF m(2) assms(3) that] .
  have y: "y = 0" "0 < ?n" using shape_youngest [OF m(2)] shape_less [OF m(2)] assms(3) by auto
  let ?ap = "ap(0 := (PartialOpen, []))"
  have first: "find (\<lambda>i. Open = fst (ap i)) (get_pages F r 0) = Some 0"
    using all [of 0] y(2) by (simp add: get_pages_ring upt_conv_Cons)
  have pc: "partially_closed (ap 0) = (PartialOpen, [])" using all [OF y(2)] by (simp add: partially_closed_def)
  have shape: "queue_shape ?n ?ap 0 k" using shape_youngest_update [OF m(2), of "(PartialOpen, [])"] y(1) by simp
  have "entries_upto F r ?ap 0 j = entries_upto F r ap 0 j" for j
    by (rule entries_upto_cong) (use all [OF y(2)] in simp)
  then have entries: "entries_of ?ap 0 = entries_of ap y" using y(1) by (simp add: ring_entries_def)
  show ?thesis
    unfolding start_first_page_def wp_bnd [of "find_first_page _ _ _"]
  proof (rule wp_mono [OF wp_leaves [OF leaves_find_first_page
        wp_find_first_page [OF config(1) m(1), of 0 Open]]], goal_cases)
    case (1 found t)
    then have t: "holds r ap t" "data_buffer t = data_buffer s" "cached_keys t = cached_keys s" and found: "found = Some 0"
      using first by simp_all
    show ?case
      unfolding found option.case wp_sq
    proof (rule wp_mono [OF wp_leaves [OF leaves_partial_close_page wp_partial_close_page [OF config(1) t(1) y(2)]]], goal_cases)
      case (1 _ u)
      then have "mapped ?ap y k u" using shape m(4,5) t pc y(1) by (simp add: map_at_def entries)
      then show ?case using 1 t entries y(1) unfolding wp_ret by (intro exI [of _ ?ap]) simp
    qed simp
  qed simp
qed

section \<open>The loop\<close>

definition stored_map :: "('k \<Rightarrow> u8 list option) \<Rightarrow> nat \<Rightarrow> ('s, 'k) storage \<Rightarrow> bool" where
  "stored_map c len t \<longleftrightarrow> (\<exists>ap y k. mapped ap y k t \<and> 0 < k
     \<and> contents K (entries_of ap y) = c \<and> length (data_buffer t) = len)"

lemma stored_mapI:
  "mapped ap y k t \<Longrightarrow> 0 < k \<Longrightarrow> contents K (entries_of ap y) = c \<Longrightarrow> length (data_buffer t) = len \<Longrightarrow> stored_map c len t"
  unfolding stored_map_def by blast

lemma stored_map_unmark [simp]: "stored_map c len (s\<lparr>cache := unmark_dirty (cache s)\<rparr>) = stored_map c len s"
  by (simp add: stored_map_def)

lemma contents_appended:
  assumes "mapped ap y k s" "key_of K d = Some key"
  shows "contents K (entries_of (appended ap y d) y) = (contents K (entries_of ap y))(key \<mapsto> d)"
  using entries_appended [OF shape_less(1) [OF mappedE(2) [OF assms(1)]]] contents_snoc [OF assms(2)] by simp

lemma wp_store_levels:
  fixes s :: "('s, 'k) storage"
  assumes "stored_map c len s" "kvalid key" "vvalid val" "d = kenc key @ venc val"
    and "length d \<le> len \<Longrightarrow> round_up_to_alignment F (length d) \<le> len"
  shows "wp (store_levels F K V key val levels)
    (\<lambda>_ t. \<not> item_too_big F (length d) \<and> stored_map (c(key \<mapsto> d)) len t)
    (\<lambda>e t. (e = FullStorage \<or> e = ItemTooBig \<and> item_too_big F (length d)
        \<or> (\<exists>e'. e = SerializationError e') \<and> len < length d) \<and> stored_map c len t) s"
  using assms(1)
proof (induction levels arbitrary: s)
  case (Suc levels)
  let ?n = "page_count F r"
  obtain ap y k where m: "mapped ap y k s" "0 < k" and c: "contents K (entries_of ap y) = c"
    and len: "length (data_buffer s) = len" using Suc.prems unfolding stored_map_def by blast
  note mE = mappedE [OF m(1)]
  have key: "key_of K d = Some key" using item_decodes(1) [OF assms(2,3)] assms(4) by simp
  have again: "wp (store_levels F K V key val levels)
      (\<lambda>_ t. \<not> item_too_big F (length d) \<and> stored_map (c(key \<mapsto> d)) len t)
      (\<lambda>e t. (e = FullStorage \<or> e = ItemTooBig \<and> item_too_big F (length d)
        \<or> (\<exists>e'. e = SerializationError e') \<and> len < length d) \<and> stored_map c len t) t"
    if "fresh_page c len t" for t
    using that by (intro Suc.IH) (auto simp: fresh_page_def stored_map_def)
  have first: "wp (find_first_page F 0 PartialOpen) (\<lambda>found t. found = (if fst (ap y) = PartialOpen then Some y else None)
      \<and> mapped ap y k t \<and> length (data_buffer t) = len) no_err s"
    by (rule wp_mono [OF wp_leaves [OF leaves_find_first_page wp_find_first_page [OF config(1) mE(1), of 0 PartialOpen]]])
      (use find_youngest [OF mE(2)] mapped_same [OF m(1)] len in \<open>auto simp: get_pages_ring\<close>)
  show ?case
    unfolding store_levels.simps wp_bnd [of "find_first_page _ _ _"]
  proof (rule wp_mono [OF first], goal_cases)
    case (1 found t)
    then have t: "mapped ap y k t" "length (data_buffer t) = len" by simp_all
    show ?case
    proof (cases "fst (ap y) = PartialOpen")
      case True
      then have found: "found = Some y" using 1 by simp
      have room: "length d \<le> length (data_buffer t) \<Longrightarrow> round_up_to_alignment F (length d) \<le> length (data_buffer t)"
        using assms(5) t(2) by simp
      show ?thesis
        unfolding found option.case wp_bnd [of "store_in_page _ _ _ _ _ _"]
      proof (rule wp_mono [OF wp_store_in_page [OF t(1) m(2) True assms(2-4) room]], goal_cases)
        case (2 res u)
        show ?case
        proof (cases res)
          case None
          then have "stored_map (c(key \<mapsto> d)) len u"
            using 2 t(2) c contents_appended [OF t(1) key] by (intro stored_mapI [OF _ m(2)]) auto
          then show ?thesis using None 2 by simp
        next
          case (Some p)
          then have u: "page_left ap y k u" "p = Suc y mod ?n" "length (data_buffer u) = len" using 2 t(2) by simp_all
          show ?thesis
            unfolding Some option.case wp_sq u(2)
            by (rule wp_mono [OF wp_start_next_page [OF u(1) m(2)]]) (use again started_fresh c u(3) in blast)+
        qed
      next
        case (3 e u)
        then show ?case using t(2) c m(2) stored_mapI [of ap y k u c len] by (auto simp: refused_def)
      qed
    next
      case False
      then have found: "found = None" using 1 by simp
      show ?thesis
        unfolding found option.case wp_sq
        by (rule wp_mono [OF wp_start_first_page [OF t(1) m(2) False]])
          (use again fresh_pageI [OF _ m(2)] c t(2) in auto)
    qed
  qed simp
qed simp

lemma wp_store_inner:
  fixes s :: "('s, 'k) storage"
  assumes "stored_map c len s" "kvalid key" "vvalid val" "d = kenc key @ venc val"
    and "length d \<le> len \<Longrightarrow> round_up_to_alignment F (length d) \<le> len"
  shows "wp (store_item_inner F K V key val)
    (\<lambda>_ t. \<not> item_too_big F (length d) \<and> stored_map (c(key \<mapsto> d)) len t)
    (\<lambda>e t. (e = FullStorage \<or> e = ItemTooBig \<and> item_too_big F (length d)
        \<or> (\<exists>e'. e = SerializationError e') \<and> len < length d) \<and> stored_map c len t) s"
proof -
  obtain ap y k where m: "mapped ap y k s" "0 < k" and c: "contents K (entries_of ap y) = c"
    and len: "length (data_buffer s) = len" using assms(1) unfolding stored_map_def by blast
  show ?thesis
    unfolding store_item_inner_def wp_sq wp_bnd wp_gets
  proof (rule wp_mono [OF wp_drop_dirty [OF m(1)]], goal_cases)
    case (1 _ t)
    then have "stored_map c len t" using m(2) c len by (intro stored_mapI) auto
    then show ?case by (rule wp_store_levels [OF _ assms(2-5)])
  qed simp
qed

lemma wp_store_item:
  fixes s :: "('s, 'k) storage"
  assumes "stored_map c len s" "kvalid key" "vvalid val" "d = kenc key @ venc val"
    and "length d \<le> len \<Longrightarrow> round_up_to_alignment F (length d) \<le> len"
  shows "wp (store_item F K V key val)
    (\<lambda>_ t. \<not> item_too_big F (length d) \<and> stored_map (c(key \<mapsto> d)) len t)
    (\<lambda>e t. (e = FullStorage \<or> e = ItemTooBig \<and> item_too_big F (length d)
        \<or> (\<exists>e'. e = SerializationError e') \<and> len < length d) \<and> stored_map c len t) s"
  unfolding store_item_def by (rule wp_run_with_auto_repair [OF wp_store_inner [OF assms]]) auto

end

end
