(* ===== verification/MapRemove.thy ===== *)
theory MapRemove
  imports MapStore
begin

text \<open>
  Removing: every live item that matches is erased, page by page from the oldest one on, and the
  map loses the key, or all keys. An item erased in place keeps its slot.
\<close>

section \<open>Erasing the slots that match\<close>

definition killed :: "(u8 list \<Rightarrow> bool) \<Rightarrow> slot list \<Rightarrow> slot list" where
  "killed P ss = map (\<lambda>(l, d). (l \<and> \<not> P d, d)) ss"

lemma killed_simps [simp]:
  "killed P [] = []" "killed P ((l, d) # ss) = (l \<and> \<not> P d, d) # killed P ss"
  "killed P (ss @ ts) = killed P ss @ killed P ts" "killed P (killed P ss) = killed P ss"
  by (auto simp: killed_def)

lemma live_at_killed: "live_at F a (killed P ss) = filter (\<lambda>e. \<not> P (snd e)) (live_at F a ss)"
  by (induction F a ss rule: live_at.induct) auto

context nor_flash
begin

lemma slots_size_killed [simp]: "slots_size F (killed P ss) = slots_size F ss"
  by (induction ss) auto

end

text \<open>Which items match: those with the key, or all.\<close>

definition matches :: "'k map_key \<Rightarrow> 'k option \<Rightarrow> u8 list \<Rightarrow> bool" where
  "matches K search_key d = (case search_key of Some key \<Rightarrow> key_of K d = Some key | None \<Rightarrow> True)"

definition without :: "'k option \<Rightarrow> ('k \<Rightarrow> 'a option) \<Rightarrow> 'k \<Rightarrow> 'a option" where
  "without search_key m = (case search_key of Some key \<Rightarrow> m(key := None) | None \<Rightarrow> Map.empty)"

lemma newest_without: "newest K (filter (\<lambda>e. \<not> matches K search_key (snd e)) es) = without search_key (newest K es)"
proof (cases search_key)
  case (Some key)
  have "newest K (filter (\<lambda>e. key_of K (snd e) \<noteq> Some key) es) k = ((newest K es)(key := None)) k" for k
    by (induction es) (auto simp: newest_Cons split: option.split)
  then show ?thesis using Some by (simp add: matches_def without_def fun_eq_iff)
qed (simp add: matches_def without_def fun_eq_iff)

lemma contents_without:
  "contents K (filter (\<lambda>e. \<not> matches K search_key (snd e)) es) = without search_key (contents K es)"
  unfolding contents_def newest_without by (auto simp: without_def split: option.split)

lemma key_addresses_without:
  "key_addresses K (filter (\<lambda>e. \<not> matches K search_key (snd e)) es) = without search_key (key_addresses K es)"
  unfolding key_addresses_def newest_without by (auto simp: without_def split: option.split)

lemma kp_erased_slots: "kp_notice_key_erased key c = CachedKeyPointers [] \<Longrightarrow> c = CachedKeyPointers []"
  by (cases c) (auto simp: move_to_back_def split: option.splits if_splits dest: position_Some)

text \<open>Pages whose slots change but not their states.\<close>

lemma shape_same_states:
  assumes "queue_shape n ap y k" "\<And>i. i < n \<Longrightarrow> fst (ap' i) = fst (ap i)" "\<And>i. i < n \<Longrightarrow> ap i = (Open, []) \<Longrightarrow> ap' i = (Open, [])"
  shows "queue_shape n ap' y k"
proof -
  note less = shape_less [OF assms(1)]
  have "ap' ((y + i) mod n) = (Open, [])" if "0 < i" "i \<le> k" for i
    using shape_open [OF assms(1) that] assms(3) less by simp
  moreover have "fst (ap' ((y + i) mod n)) = Closed" if "k < i" "i < n" for i
    using shape_closed [OF assms(1) that] assms(2) less by simp
  moreover have "fst (ap' y) = PartialOpen \<or> ap' y = (Open, []) \<and> y = 0 \<and> Suc k = n"
    using shape_youngest [OF assms(1)] assms(2,3) less by auto
  ultimately show ?thesis using less unfolding queue_shape_def by blast
qed

section \<open>One page\<close>

context multiwrite_map_store
begin

definition all_fit :: "(nat \<Rightarrow> apage) \<Rightarrow> nat \<Rightarrow> bool" where
  "all_fit ap len \<longleftrightarrow> (\<forall>i < page_count F r. entries_fit F is_item len (page_entries F r ap i))"

lemma live_slot_fits:
  assumes "all_fit ap len" "i < page_count F r" "snd (ap i) = pre @ (True, d) # post"
  shows "is_item d" "round_up_to_alignment F (length d) \<le> len"
proof -
  have "(page_data_start F r i + slots_size F pre, d) \<in> set (page_entries F r ap i)"
    by (simp add: page_entries_def assms(3) live_at_append)
  then show "is_item d" "round_up_to_alignment F (length d) \<le> len"
    using assms(1,2) unfolding all_fit_def entries_fit_def by fastforce+
qed

lemma wp_item_match:
  assumes "is_item d" "take (length d) (data_buffer u) = d" "Q (matches K search_key d) t"
  shows "wp (case search_key of
       Some key \<Rightarrow> bnd (deserialized (key_deserialize_from K (data_buffer u))) (\<lambda>(found_key, _). ret (found_key = key))
     | None \<Rightarrow> ret True) Q E t"
proof -
  obtain key where "key_of K d = Some key" "key_deserialize_from K (data_buffer u) = Ok (key, length (kenc key))"
    using decode_from_buffer [OF assms(1,2)] by blast
  then show ?thesis using assms(3) by (auto simp: matches_def split: option.split)
qed

lemma wp_remove_rounds:
  fixes s :: "('s, 'k) storage" and search_key :: "'k option"
  defines "P \<equiv> matches K search_key"
  assumes "holds r ap s" "i < page_count F r" "snd (ap i) = killed P pre @ post" "slots_left F r ap i post it"
    and "length post < fuel"
    and "\<forall>d. (True, d) \<in> set post \<longrightarrow> is_item d \<and> round_up_to_alignment F (length d) \<le> length (data_buffer s)"
  shows "wp (remove_rounds F K search_key fuel)
    (\<lambda>_ t. holds r (ap(i := (fst (ap i), killed P (pre @ post)))) (fst t)
      \<and> length (data_buffer (fst t)) = length (data_buffer s) \<and> cached_keys_fst t = cached_keys s) no_err (s, it)"
  using assms(2,4-)
proof (induction post arbitrary: ap pre s it fuel)
  case Nil
  obtain fuel' where fuel: "fuel = Suc fuel'" using Nil.prems(4) by (cases fuel) auto
  have same: "ap(i := (fst (ap i), killed P pre)) = ap" using Nil.prems(2) by (simp add: fun_upd_idem_iff prod_eq_iff)
  show ?case
    unfolding fuel remove_rounds.simps wp_bnd [of "header_iter_next F"]
    by (rule wp_mono [OF wp_header_iter_next [OF config(1) Nil.prems(1) assms(3) Nil.prems(3)]]) (auto simp: same)
next
  case (Cons sl post)
  obtain l d where sl: "sl = (l, d)" by (cases sl)
  obtain fuel' where fuel: "fuel = Suc fuel'" "length post < fuel'" using Cons.prems(4) by (cases fuel) auto
  let ?last = "ap(i := (fst (ap i), killed P (pre @ sl # post)))"
  have rest: "wp (remove_rounds F K search_key fuel') (\<lambda>_ t. holds r ?last (fst t)
      \<and> length (data_buffer (fst t)) = length (data_buffer s) \<and> cached_keys_fst t = cached_keys s) no_err (u, it')"
    if u: "holds r ap' u" "length (data_buffer u) = length (data_buffer s)" "cached_keys u = cached_keys s"
      "ap' = ap(i := (fst (ap i), killed P (pre @ [sl]) @ post))" "slots_left F r ap' i post it'" for ap' u it'
  proof -
    have slots: "snd (ap' i) = killed P (pre @ [sl]) @ post" using u(4) by simp
    have fit: "\<forall>d. (True, d) \<in> set post \<longrightarrow> is_item d \<and> round_up_to_alignment F (length d) \<le> length (data_buffer u)"
      using Cons.prems(5) u(2) by simp
    have same: "ap'(i := (fst (ap' i), killed P ((pre @ [sl]) @ post))) = ?last" using u(4) by simp
    show ?thesis using Cons.IH [OF u(1) slots u(5) fuel(2) fit] unfolding same u(2,3) .
  qed
  show ?case
    unfolding fuel(1) remove_rounds.simps wp_bnd [of "header_iter_next F"]
  proof (rule wp_mono [OF wp_header_iter_next [OF config(1) Cons.prems(1) assms(3) Cons.prems(3)]], goal_cases)
    case (1 res t)
    obtain u it' where t: "t = (u, it')" by (cases t)
    have u: "holds r ap u" "data_buffer u = data_buffer s" "cached_keys u = cached_keys s" "slots_left F r ap i post it'"
      and res: "res = (Some (slot_header (l, d)), current_address it)"
      using 1 unfolding t sl by simp_all
    note e = slots_left_end [OF u(4)]
    have kept: "ap = ap(i := (fst (ap i), killed P (pre @ [sl]) @ post))" if "\<not> (l \<and> P d)"
      using that Cons.prems(2) sl by (cases "ap i") (auto simp: fun_eq_iff)
    show ?case
    proof (cases l)
      case False
      then have dead: "read_item F (slot_header (l, d)) a e = bnd (gets data_buffer) (\<lambda>b. ret (ErasedItem (slot_header (l, d)) b))" for a e
        using read_item_dead by simp
      have "wp (remove_rounds F K search_key fuel') (\<lambda>_ t. holds r ?last (fst t)
          \<and> length (data_buffer (fst t)) = length (data_buffer s) \<and> cached_keys_fst t = cached_keys s) no_err (u, it')"
        using rest [OF u(1) _ u(3) kept u(4)] u(2) False by simp
      then show ?thesis unfolding t res by (simp add: dead)
    next
      case True
      have l: "l = True" using True by simp
      have left: "slots_left F r ap i ((True, d) # post) it" using Cons.prems(3) sl True by simp
      obtain pre' where pre': "snd (ap i) = pre' @ (True, d) # post" "current_address it = page_data_start F r i + slots_size F pre'"
        using slots_left_live [OF left] by blast
      have "killed P pre = pre'" using pre'(1) Cons.prems(2) sl by simp
      have d: "is_item d" "round_up_to_alignment F (length d) \<le> length (data_buffer u)"
        using Cons.prems(5) sl True u(2) by simp_all
      show ?thesis
        unfolding t res prod.case option.case wp_bnd [of "gets f" for f] wp_gets snd_conv e wp_bnd [of "lift_local _"]
          wp_lift_local fst_conv sl l
      proof (rule wp_mono [OF wp_leaves [OF leaves_read_item wp_read_item_at [OF config(1) u(1) assms(3) pre']]], goal_cases)
        case (1 mi v)
        then have v: "holds r ap v" "length (data_buffer v) = length (data_buffer s)" "cached_keys v = cached_keys s"
          "take (length d) (data_buffer v) = d"
          and mi: "mi = Present \<lparr> item_header = slot_header (True, d), item_data_buffer = data_buffer v \<rparr>"
          using u by simp_all
        show ?case
          unfolding mi maybe_item.case item.select_convs
        proof (simp only: wp_bnd, rule wp_item_match [OF d(1) v(4)])
          show "wp (if matches K search_key d then sq (lift_local (erase_data F (slot_header (True, d)) (current_address it)))
                (remove_rounds F K search_key fuel') else remove_rounds F K search_key fuel')
              (\<lambda>_ t. holds r (ap(i := (fst (ap i), killed P (pre @ (True, d) # post)))) (fst t)
                \<and> length (data_buffer (fst t)) = length (data_buffer s) \<and> cached_keys_fst t = cached_keys s) no_err (v, it')"
          proof (cases "P d")
            case False
            then show ?thesis using rest [OF v(1-3) kept u(4)] sl True unfolding P_def by simp
          next
            case match: True
            let ?ap = "ap(i := (fst (ap i), pre' @ (False, d) # post))"
            have ap: "?ap = ap(i := (fst (ap i), killed P (pre @ [sl]) @ post))"
              using match sl \<open>killed P pre = pre'\<close> by simp
            have left': "slots_left F r ?ap i post it'"
            proof -
              obtain pre'' where "snd (ap i) = pre'' @ post"
                "it' = \<lparr> current_address = page_data_start F r i + slots_size F pre'', end_address = page_data_end F r i \<rparr>"
                using u(4) unfolding slots_left_def by blast
              moreover from this have "pre'' = pre' @ [(True, d)]" using pre'(1) by simp
              ultimately show ?thesis unfolding slots_left_def by (intro exI [of _ "pre' @ [(False, d)]"]) simp
            qed
            have "wp (erase_data F (slot_header (True, d)) (current_address it))
                (\<lambda>_ w. wp (remove_rounds F K search_key fuel') (\<lambda>_ t. holds r ?last (fst t)
                  \<and> length (data_buffer (fst t)) = length (data_buffer s) \<and> cached_keys_fst t = cached_keys s) no_err (w, it'))
                no_err v"
              by (rule wp_mono [OF wp_leaves [OF leaves_erase_data wp_erase_item [OF config(1) v(1) assms(3) pre']]])
                (use rest [OF _ _ _ ap left'] v in auto)
            then show ?thesis using match sl True unfolding P_def by simp
          qed
        qed
      next
        case (2 e v)
        then show ?case using d(2) by simp
      qed
    qed
  qed simp
qed

end

section \<open>All pages\<close>

context multiwrite_map_store
begin

definition killed_on :: "(u8 list \<Rightarrow> bool) \<Rightarrow> nat set \<Rightarrow> (nat \<Rightarrow> apage) \<Rightarrow> nat \<Rightarrow> apage" where
  "killed_on P pages ap i = (if i \<in> pages then (fst (ap i), killed P (snd (ap i))) else ap i)"

lemma page_entries_killed:
  "page_entries F r (ap(i := (st, killed P (snd (ap i))))) i = filter (\<lambda>e. \<not> P (snd e)) (page_entries F r ap i)"
  by (simp add: page_entries_def live_at_killed)

lemma all_fit_killed:
  assumes "all_fit ap len"
  shows "all_fit (ap(i := (fst (ap i), killed P (snd (ap i))))) len"
  unfolding all_fit_def
proof (intro allI impI)
  fix j assume j: "j < page_count F r"
  let ?ap = "ap(i := (fst (ap i), killed P (snd (ap i))))"
  have "set (page_entries F r ?ap j) \<subseteq> set (page_entries F r ap j)"
    by (cases "j = i") (auto simp: live_at_killed page_entries_def)
  then show "entries_fit F is_item len (page_entries F r ?ap j)"
    using assms j unfolding all_fit_def entries_fit_def by blast
qed

lemma wp_remove_on_page:
  fixes s :: "('s, 'k) storage" and search_key :: "'k option"
  assumes "holds r ap s" "i < page_count F r" "all_fit ap (length (data_buffer s))"
  shows "wp (remove_on_page F K search_key i)
    (\<lambda>_ t. holds r (ap(i := (fst (ap i), killed (matches K search_key) (snd (ap i))))) t
      \<and> length (data_buffer t) = length (data_buffer s) \<and> cached_keys t = cached_keys s) no_err s"
  unfolding remove_on_page_def wp_bnd [of "get_page_state F i"]
proof (rule wp_mono [OF wp_leaves [OF leaves_get_page_state wp_get_page_state [OF config(1) assms(1,2)]]], goal_cases)
  case (1 st t)
  then have t: "holds r ap t" "data_buffer t = data_buffer s" "cached_keys t = cached_keys s" and st: "st = fst (ap i)"
    by simp_all
  show ?case
  proof (cases "is_open st")
    case True
    then have "snd (ap i) = []" using holds_page(3) [OF config(1) t(1) assms(2)] st by (simp add: page_wf_def is_open_def)
    then have "ap(i := (fst (ap i), killed (matches K search_key) (snd (ap i)))) = ap"
      by (simp add: fun_upd_idem_iff prod_eq_iff)
    then show ?thesis using True t by simp
  next
    case False
    have range: "flash_range t = r" using t(1) by (simp add: flash_holds_def)
    have slots: "snd (ap i) = killed (matches K search_key) [] @ snd (ap i)" by simp
    note left = page_items_iter_left(1) [of r ap i]
    have "\<forall>d. (True, d) \<in> set (snd (ap i)) \<longrightarrow> is_item d \<and> round_up_to_alignment F (length d) \<le> length (data_buffer t)"
      using live_slot_fits [OF assms(3,2)] t(2) by (metis split_list)
    from wp_remove_rounds [OF t(1) assms(2) slots left slots_left_fuel [OF config(1) t(1) assms(2) left] this]
    show ?thesis
      using False t(2,3) unfolding if_not_P [OF False] wp_bnd [of "gets f" for f] wp_gets range wp_with_local
      by (simp add: wp_def)
  qed
qed simp

lemma wp_remove_on_pages:
  fixes s :: "('s, 'k) storage" and search_key :: "'k option"
  assumes "holds r ap s" "\<forall>i \<in> set pages. i < page_count F r" "all_fit ap (length (data_buffer s))"
  shows "wp (for_each pages (remove_on_page F K search_key))
    (\<lambda>_ t. holds r (killed_on (matches K search_key) (set pages) ap) t
      \<and> length (data_buffer t) = length (data_buffer s) \<and> cached_keys t = cached_keys s) no_err s"
  using assms
proof (induction pages arbitrary: ap s)
  case Nil
  have "killed_on (matches K search_key) {} ap = ap" by (simp add: killed_on_def fun_eq_iff)
  then show ?case using Nil by simp
next
  case (Cons i pages)
  let ?P = "matches K search_key"
  let ?ap = "ap(i := (fst (ap i), killed ?P (snd (ap i))))"
  have i: "i < page_count F r" using Cons.prems(2) by simp
  have all: "killed_on ?P (set pages) ?ap = killed_on ?P (set (i # pages)) ap"
    by (auto simp: killed_on_def fun_eq_iff)
  show ?case
    unfolding for_each.simps wp_sq
  proof (rule wp_mono [OF wp_remove_on_page [OF Cons.prems(1) i Cons.prems(3)]], goal_cases)
    case (1 _ t)
    then have "holds r ?ap t" "all_fit ?ap (length (data_buffer t))"
      using all_fit_killed [OF Cons.prems(3)] by simp_all
    from Cons.IH [OF this(1) _ this(2)] show ?case using Cons.prems(2) 1 unfolding all by simp
  qed simp
qed

section \<open>Removing\<close>

lemma killed_ring:
  fixes search_key :: "'k option"
  assumes "mapped ap y k s" "pages = {..<page_count F r}"
  defines "ap' \<equiv> killed_on (matches K search_key) pages ap"
  shows "queue_shape (page_count F r) ap' y k"
    "entries_of ap' y = filter (\<lambda>e. \<not> matches K search_key (snd e)) (entries_of ap y)"
proof -
  let ?n = "page_count F r"
  note m = mappedE [OF assms(1)]
  have all: "ap' i = (fst (ap i), killed (matches K search_key) (snd (ap i)))" if "i < ?n" for i
    using that assms(2) by (simp add: ap'_def killed_on_def)
  show "queue_shape ?n ap' y k" by (rule shape_same_states [OF m(2)]) (simp_all add: all)
  have "page_entries F r ap' ((y + i) mod ?n) = filter (\<lambda>e. \<not> matches K search_key (snd e)) (page_entries F r ap ((y + i) mod ?n))"
    for i using all [of "(y + i) mod ?n"] shape_less(3) [OF m(2)] by (simp add: page_entries_def live_at_killed)
  then show "entries_of ap' y = filter (\<lambda>e. \<not> matches K search_key (snd e)) (entries_of ap y)"
    by (simp add: ring_entries_def entries_upto_def filter_concat comp_def del: upt_Suc)
qed

lemma wp_remove_inner:
  fixes s :: "('s, 'k) storage" and search_key :: "'k option"
  assumes "stored_map c len s"
  shows "wp (remove_item_inner F K search_key) (\<lambda>_. stored_map (without search_key c) len) no_err s"
proof -
  let ?n = "page_count F r"
  obtain ap y k where m: "mapped ap y k s" "0 < k" and c: "contents K (entries_of ap y) = c"
    and len: "length (data_buffer s) = len" using assms unfolding stored_map_def by blast
  note mE = mappedE [OF m(1)]
  have y: "y < ?n" using shape_less(1) [OF mE(2)] .
  have fit: "all_fit ap len"
    unfolding all_fit_def
  proof (intro allI impI)
    fix i assume "i < ?n"
    obtain j where j: "1 \<le> j" "j \<le> ?n" "i = (y + j) mod ?n"
    proof (cases "i = y")
      case True
      then show thesis using that [of ?n] y by simp
    next
      case False
      obtain m where "0 < m" "m < ?n" "i = (y + m) mod ?n" using ring_offset [OF \<open>i < ?n\<close> y False] .
      then show thesis using that [of m] by simp
    qed
    then show "entries_fit F is_item len (page_entries F r ap i)"
      using page_entries_of [of j ap y] mE(4) len unfolding entries_fit_def by auto
  qed
  define notice where "notice = (case search_key of Some key \<Rightarrow> notice_key_erased key | None \<Rightarrow> invalidate_cache_state)"
  let ?locs = "without search_key (key_addresses K (entries_of ap y))"
  let ?s = "s\<lparr>cache := notice (cache s)\<rparr>"
  have first: "(case search_key of Some key \<Rightarrow> on_cache (notice_key_erased key) | None \<Rightarrow> on_cache invalidate_cache_state)
      = on_cache notice" by (simp add: notice_def split: option.split)
  have "holds r ap ?s \<and> keys_sound (cached_keys ?s) ?locs"
  proof (cases search_key)
    case None
    then show ?thesis
      using mE(1,5) keys_sound_invalidate [of "cached_keys s"] by (simp_all add: notice_def flash_holds_def keys_sound_def)
  next
    case (Some key)
    then show ?thesis
      using mE(1,5) kpc.sound_erase [of "cached_keys s" _ key] kp_erased_slots [of key "cached_keys s"]
      by (auto simp: notice_def notice_key_erased_def keeps_keys flash_holds_def keys_sound_def without_def)
  qed
  then have s1: "holds r ap ?s" "keys_sound (cached_keys ?s) ?locs" by simp_all
  have pages: "set (get_pages F r j) = {..<?n}" for j
  proof -
    have "i \<in> (\<lambda>x. (x + j) mod ?n) ` {..<?n}" if i: "i < ?n" for i
    proof -
      obtain m where "m \<le> ?n" "i = (j mod ?n + m) mod ?n"
      proof (cases "i = j mod ?n")
        case True
        then show thesis using that [of 0] i by simp
      next
        case False
        have "j mod ?n < ?n" using i by simp
        from ring_offset [OF i this False] show thesis using that less_imp_le by metis
      qed
      then have "i = (m mod ?n + j) mod ?n" "m mod ?n < ?n" using i by (simp_all add: mod_add_left_eq mod_add_right_eq add.commute)
      then show ?thesis by blast
    qed
    then show ?thesis using y by (auto simp: get_pages_ring atLeast0LessThan)
  qed
  note killed = killed_ring [OF m(1) refl, of search_key]
  have "stored_map (without search_key c) len (u\<lparr>cache := unmark_dirty (cache u)\<rparr>)"
    if u: "holds r (killed_on (matches K search_key) {..<?n} ap) u" "length (data_buffer u) = len"
      "keys_sound (cached_keys u) ?locs" for u
  proof -
    let ?ap = "killed_on (matches K search_key) {..<?n} ap"
    have "entries_fit F is_item len (entries_of ?ap y)"
      using mE(4) len unfolding killed entries_fit_def by simp
    then have "mapped ?ap y k u"
      using u killed(1) by (simp add: map_at_def killed(2) key_addresses_without)
    moreover have "contents K (entries_of ?ap y) = without search_key c"
      unfolding killed(2) contents_without c ..
    ultimately have "stored_map (without search_key c) len u"
      using m(2) u(2) stored_mapI by blast
    then show ?thesis by simp
  qed
  note fin = this
  have go: "wp (bnd (gets (\<lambda>s. get_pages F (flash_range s) (next_page F (flash_range s) j))) (\<lambda>pages.
      sq (for_each pages (remove_on_page F K search_key)) (on_cache unmark_dirty)))
      (\<lambda>_. stored_map (without search_key c) len) no_err t"
    if t: "holds r ap t" "data_buffer t = data_buffer s" "cached_keys t = cached_keys ?s" for j t
  proof -
    have range: "flash_range t = r" using t(1) by (simp add: flash_holds_def)
    have "\<forall>i \<in> set (get_pages F r (next_page F r j)). i < ?n" "all_fit ap (length (data_buffer t))"
      using pages fit t(2) len by simp_all
    from wp_remove_on_pages [OF t(1) this, of search_key] show ?thesis
      unfolding wp_bnd [of "gets f" for f] wp_gets range wp_sq wp_on_cache pages
      by (rule wp_mono) (use fin t len s1(2) in simp_all)
  qed
  show ?thesis
    unfolding remove_item_inner_def first wp_sq [of "on_cache notice"] wp_on_cache Let_def wp_bnd [of "find_first_page _ _ _"]
    by (rule wp_mono [OF wp_leaves [OF leaves_find_first_page
          wp_find_first_page [OF config(1) s1(1), of 0 PartialOpen]]]) (rule go, simp_all)
qed

lemma wp_remove_item:
  fixes s :: "('s, 'k) storage"
  assumes "stored_map c len s"
  shows "wp (remove_item F K key) (\<lambda>_. stored_map (c(key := None)) len) no_err s"
    and "wp (remove_all_items F K) (\<lambda>_. stored_map Map.empty len) no_err s"
  using wp_remove_inner [OF assms, of "Some key"] wp_remove_inner [OF assms, of None]
  unfolding remove_item_def remove_all_items_def without_def
  by (auto intro!: wp_run_with_auto_repair)

end

end
