(* ===== verification/MapProperties.thy ===== *)
theory MapProperties
  imports MapRemove Example
begin

text \<open>
  What the users of the map rely on, as theorems on the public operations: fetching, storing and
  removing act as on a map from keys to values, for any key and value codec, any driver and any
  cache, and so does every sequence of them.
\<close>

section \<open>The relation\<close>

context map_store
begin

lemma map_repr_stored:
  "map_repr F inv mem K V is_item r s m \<longleftrightarrow>
     (\<exists>c. stored_map c (length (data_buffer s)) s \<and> m = (\<lambda>key. Option.bind (c key) (value_of K V)))"
proof -
  have "map_of_entries K V es = (\<lambda>key. Option.bind (contents K es key) (value_of K V))" for es
    by (simp add: fun_eq_iff map_of_entries_contents)
  then show ?thesis unfolding map_repr_def stored_map_def by auto
qed

lemma stored_repr:
  "stored_map c len t \<Longrightarrow> m = (\<lambda>key. Option.bind (c key) (value_of K V)) \<Longrightarrow> map_repr F inv mem K V is_item r t m"
  unfolding map_repr_stored by (auto simp: stored_map_def)

lemma stored_length: "stored_map c len t \<Longrightarrow> length (data_buffer t) = len"
  by (auto simp: stored_map_def)

lemma wp_fetch_repr:
  fixes s :: "('s, 'k) storage"
  assumes "map_repr F inv mem K V is_item r s m"
  shows "wp (fetch_item F K V key) (\<lambda>res t. res = m key \<and> map_repr F inv mem K V is_item r t m
    \<and> length (data_buffer t) = length (data_buffer s)) no_err s"
proof -
  obtain ap y k where "mapped ap y k s" "0 < k" "m = map_of_entries K V (entries_of ap y)"
    using assms unfolding map_repr_def by blast
  then show ?thesis
    by (intro wp_mono [OF wp_fetch_item [of ap y k s key]]) (auto simp: map_repr_def)
qed

lemma wp_store_repr:
  fixes s :: "('s, 'k) storage"
  assumes "map_repr F inv mem K V is_item r s m" "kvalid key" "vvalid val" "d = kenc key @ venc val"
    and "round_up_to_alignment F (length d) \<le> length (data_buffer s) \<or> length (data_buffer s) < length d"
  shows "wp (store_item F K V key val)
    (\<lambda>_ t. \<not> item_too_big F (length d) \<and> map_repr F inv mem K V is_item r t (m(key \<mapsto> val))
      \<and> length (data_buffer t) = length (data_buffer s))
    (\<lambda>e t. (e = FullStorage \<or> e = ItemTooBig \<and> item_too_big F (length d)
        \<or> (\<exists>e'. e = SerializationError e') \<and> length (data_buffer s) < length d)
      \<and> map_repr F inv mem K V is_item r t m \<and> length (data_buffer t) = length (data_buffer s)) s"
proof -
  obtain c where c: "stored_map c (length (data_buffer s)) s" and m: "m = (\<lambda>key. Option.bind (c key) (value_of K V))"
    using assms(1) unfolding map_repr_stored by blast
  have "value_of K V d = Some val" using item_decodes(2) [OF assms(2,3)] assms(4) by simp
  then have upd: "m(key \<mapsto> val) = (\<lambda>k. Option.bind ((c(key \<mapsto> d)) k) (value_of K V))" unfolding m by auto
  have "length d \<le> length (data_buffer s) \<Longrightarrow> round_up_to_alignment F (length d) \<le> length (data_buffer s)"
    using assms(5) by simp
  from wp_store_item [OF c assms(2-4) this] show ?thesis
    by (rule wp_mono) (use stored_repr [OF _ upd] stored_repr [OF _ m] stored_length in blast)+
qed

end

context multiwrite_map_store
begin

lemma wp_remove_repr:
  fixes s :: "('s, 'k) storage"
  assumes "map_repr F inv mem K V is_item r s m"
  shows "wp (remove_item F K key) (\<lambda>_ t. map_repr F inv mem K V is_item r t (m(key := None))
      \<and> length (data_buffer t) = length (data_buffer s)) no_err s"
    and "wp (remove_all_items F K) (\<lambda>_ t. map_repr F inv mem K V is_item r t Map.empty
      \<and> length (data_buffer t) = length (data_buffer s)) no_err s"
proof -
  obtain c where c: "stored_map c (length (data_buffer s)) s" and m: "m = (\<lambda>key. Option.bind (c key) (value_of K V))"
    using assms unfolding map_repr_stored by blast
  have "m(key := None) = (\<lambda>k. Option.bind ((c(key := None)) k) (value_of K V))" unfolding m by auto
  note upd = stored_repr [OF _ this]
  show "wp (remove_item F K key) (\<lambda>_ t. map_repr F inv mem K V is_item r t (m(key := None))
      \<and> length (data_buffer t) = length (data_buffer s)) no_err s"
    by (rule wp_mono [OF wp_remove_item(1) [OF c]]) (use upd stored_length in blast)+
  have "Map.empty = (\<lambda>k. Option.bind (Map.empty k) (value_of K V))" by auto
  note empty = stored_repr [OF _ this]
  show "wp (remove_all_items F K) (\<lambda>_ t. map_repr F inv mem K V is_item r t Map.empty
      \<and> length (data_buffer t) = length (data_buffer s)) no_err s"
    by (rule wp_mono [OF wp_remove_item(2) [OF c]]) (use empty stored_length in blast)+
qed

end

context map_store
begin

text \<open>An erased flash holds the empty map.\<close>

lemma map_repr_new:
  assumes "inv (flash s)" "bytes_at (mem (flash s)) (fst r) (erased (snd r - fst r))"
    and "flash_range s = r" "\<And>i. cached_page_state (cache s) i = None \<and> first_item_after_written (cache s) i = None
       \<and> first_item_after_erased (cache s) i = None"
    and "keys_sound (cached_keys s) Map.empty"
  shows "map_repr F inv mem K V is_item r s Map.empty"
proof -
  let ?ap = "\<lambda>_ :: nat. (Open, []) :: apage" and ?n = "page_count F r"
  have "holds r ?ap s" by (rule holds_erased [OF config(1) assms(1-4)])
  moreover have "queue_shape ?n ?ap 0 (?n - 1)" unfolding queue_shape_def using two_pages by auto
  moreover have "entries_of ?ap 0 = []" by (simp add: ring_entries_def entries_upto_def)
  moreover have "key_addresses K [] = Map.empty" by (simp add: key_addresses_def fun_eq_iff)
  ultimately have "mapped ?ap 0 (?n - 1) s" using assms(5) by (simp add: map_at_def entries_fit_def)
  then show ?thesis
    unfolding map_repr_def using two_pages \<open>entries_of ?ap 0 = []\<close>
    by (intro exI [of _ ?ap] exI [of _ 0] exI [of _ "?n - 1"]) (auto simp: fun_eq_iff)
qed

end

section \<open>The example\<close>

text \<open>A page with two values of the key 1, one of the key 2 and a removed item, and an open page.\<close>

definition map_pages :: "nat \<Rightarrow> apage" where
  "map_pages i = (if i = 0 then (PartialOpen, [(True, [1, 10]), (False, [3, 30]), (True, [2, 20]), (True, [1, 11])])
     else (Open, []))"

abbreviation byte_key :: "u8 map_key" where "byte_key \<equiv> num_key"
abbreviation byte_value :: "u8 map_value" where "byte_value \<equiv> num_value"
abbreviation byte_item :: "u8 list \<Rightarrow> bool" where
  "byte_item \<equiv> encodes (\<lambda>_. True) (num_enc :: u8 \<Rightarrow> u8 list) (\<lambda>_. True) (num_enc :: u8 \<Rightarrow> u8 list)"

abbreviation map_storage :: "(mock_flash, u8) storage" where
  "map_storage \<equiv> example_with map_pages (KeyPointerCache_new 2 2) (replicate 8 0)"

interpretation example_map: map_store example_flash "mock_ok 4" mdata byte_key "\<lambda>_. True" num_enc byte_value "\<lambda>_. True" num_enc
    example_range
  by (intro map_store.intro map_store_axioms.intro example_nor_flash num_key_codec num_value_codec)
    (simp_all add: map_config_try_new_def config_try_new_def example_sizes)

lemma example_store: "map_store example_flash (mock_ok 4) mdata byte_key (\<lambda>_. True) num_enc byte_value (\<lambda>_. True) num_enc example_range"
  by (rule example_map.map_store_axioms)

lemma example_multiwrite_store:
  "multiwrite_map_store example_flash (mock_ok 4) mdata byte_key (\<lambda>_. True) num_enc byte_value (\<lambda>_. True) num_enc example_range"
  by (intro multiwrite_map_store.intro example_store example_driver)

interpretation example_multiwrite_map: multiwrite_map_store example_flash "mock_ok 4" mdata byte_key "\<lambda>_. True" num_enc
    byte_value "\<lambda>_. True" num_enc example_range
  by (rule example_multiwrite_store)

lemma map_pages_wf: "page_wf example_flash (map_pages i)"
  by (simp add: page_wf_def map_pages_def slots_size_def slot_size_def example_sizes)

lemma map_pages_entries:
  "ring_entries example_flash example_range map_pages 0 = [(4, [1, 10]), (28, [2, 20]), (40, [1, 11])]"
  unfolding ring_entries_def entries_upto_def example_count
  by (simp add: page_entries_def map_pages_def slot_size_def page_data_start_def calculate_page_address_def
      example_sizes upt_conv_Cons)

lemma byte_decodes [simp]:
  "key_of byte_key [a, b] = Some a" "value_of byte_key byte_value [a, b] = Some b"
  by (simp_all add: key_of_def value_of_def num_key_def num_value_def num_deserialize_from_def size_of_def)

lemma byte_item_pair: "byte_item [a, b]"
  unfolding encodes_def by (intro exI [of _ a] exI [of _ b]) (simp add: size_of_def to_le_bytes_def)

abbreviation example_map_repr :: "(mock_flash, u8) storage \<Rightarrow> (u8 \<Rightarrow> u8 option) \<Rightarrow> bool" where
  "example_map_repr \<equiv> map_repr example_flash (mock_ok 4) mdata byte_key byte_value byte_item example_range"

lemma keys_sound_new: "keys_sound (CachedKeyPointers [None, None]) locs"
  by (simp add: keys_sound_def kpc.sound_def key_location_map_of del: kp_key_location.simps)

lemma used_map: "example_map_repr map_storage [1 \<mapsto> 11, 2 \<mapsto> 20]"
proof -
  have shape: "queue_shape 2 map_pages 0 1"
    unfolding queue_shape_def by (auto simp: map_pages_def less_Suc_eq numeral_2_eq_2 le_Suc_eq)
  have cache: "cache_ok example_flash example_range map_pages (KeyPointerCache_new 2 2)" by (rule cache_ok_unknown) simp
  have keys: "keys_sound (cached_keys map_storage) locs" for locs
    using keys_sound_new by (simp add: KeyPointerCache_new_def numeral_2_eq_2)
  have fits: "entries_fit example_flash byte_item 8 (ring_entries example_flash example_range map_pages 0)"
    unfolding map_pages_entries by (simp add: entries_fit_def byte_item_pair example_sizes)
  have "map_at example_flash (mock_ok 4) mdata byte_key byte_item example_range map_pages 0 1 map_storage"
    unfolding map_at_def example_count
    using example_with_holds [OF map_pages_wf map_pages_wf cache] shape fits keys by simp
  moreover have "[1 \<mapsto> 11, 2 \<mapsto> 20] = map_of_entries byte_key byte_value (ring_entries example_flash example_range map_pages 0)"
    by (auto simp: map_pages_entries map_of_entries_def newest_Cons fun_eq_iff)
  ultimately show ?thesis unfolding map_repr_def by blast
qed

section \<open>Fetching, storing, removing\<close>

text \<open>
  C12: \<open>fetch_item\<close> returns the value of the key in the map the flash holds, whether the key is in
  the cache or has to be searched for, and changes nothing of the map.
\<close>

theorem fetch_finds_newest:
  assumes "map_store F ok chip K kvalid kenc V vvalid venc r"
    and "map_repr F ok chip K V (encodes kvalid kenc vvalid venc) r s m"
  shows "wp (fetch_item F K V key)
    (\<lambda>res t. res = m key \<and> map_repr F ok chip K V (encodes kvalid kenc vvalid venc) r t m) no_err s"
  by (rule wp_mono [OF map_store.wp_fetch_repr [OF assms]]) simp_all

lemma fetch_finds_newest_witness:
  "wp (fetch_item example_flash byte_key byte_value 1)
    (\<lambda>res t. res = Some 11 \<and> example_map_repr t [1 \<mapsto> 11, 2 \<mapsto> 20]) no_err map_storage"
  using fetch_finds_newest [OF example_store used_map, of 1] by (rule wp_mono) auto

text \<open>
  C10: \<open>store_item\<close>, which writes only where the flash is erased, gives the key its value and leaves
  every other key alone. When it fails, it is
  with \<open>ItemTooBig\<close> for an item that is, with an error of the codec for a buffer that is too short, or
  with \<open>FullStorage\<close>, and the map is what it was. The buffer has to have room for the item rounded up
  to words.
\<close>

theorem store_updates_map:
  assumes "map_store F ok chip K kvalid kenc V vvalid venc r"
    and "map_repr F ok chip K V (encodes kvalid kenc vvalid venc) r s m" "kvalid key" "vvalid val"
    and "round_up_to_alignment F (length (kenc key @ venc val)) \<le> length (data_buffer s)
       \<or> length (data_buffer s) < length (kenc key @ venc val)"
  shows "wp (store_item F K V key val)
    (\<lambda>_ t. \<not> item_too_big F (length (kenc key @ venc val))
      \<and> map_repr F ok chip K V (encodes kvalid kenc vvalid venc) r t (m(key \<mapsto> val)))
    (\<lambda>e t. (e = FullStorage \<or> e = ItemTooBig \<and> item_too_big F (length (kenc key @ venc val))
        \<or> (\<exists>e'. e = SerializationError e') \<and> length (data_buffer s) < length (kenc key @ venc val))
      \<and> map_repr F ok chip K V (encodes kvalid kenc vvalid venc) r t m) s"
  by (rule wp_mono [OF map_store.wp_store_repr [OF assms(1-4) refl assms(5)]]) simp_all

lemma store_updates_map_witness:
  "wp (store_item example_flash byte_key byte_value 7 70)
    (\<lambda>_ t. example_map_repr t [1 \<mapsto> 11, 2 \<mapsto> 20, 7 \<mapsto> 70])
    (\<lambda>e t. e = FullStorage \<and> example_map_repr t [1 \<mapsto> 11, 2 \<mapsto> 20]) map_storage"
proof -
  have "length (num_enc (7 :: u8) @ num_enc (70 :: u8)) = 2" by (simp add: size_of_def)
  moreover have "round_up_to_alignment example_flash 2 \<le> length (data_buffer map_storage)"
    "\<not> item_too_big example_flash 2" "\<not> length (data_buffer map_storage) < 2"
    by (simp_all add: example_sizes item_too_big_def data_address_def)
  ultimately show ?thesis
    by (intro wp_mono [OF store_updates_map [OF example_store used_map, of 7 70]]) simp_all
qed

text \<open>
  C13: \<open>remove_item\<close> takes the key out of the map and leaves every other key alone, and
  \<open>remove_all_items\<close> leaves the empty map.
\<close>

theorem remove_deletes_key:
  assumes "multiwrite_map_store F ok chip K kvalid kenc V vvalid venc r"
    and "map_repr F ok chip K V (encodes kvalid kenc vvalid venc) r s m"
  shows "wp (remove_item F K key)
      (\<lambda>_ t. map_repr F ok chip K V (encodes kvalid kenc vvalid venc) r t (m(key := None))) no_err s
    \<and> wp (remove_all_items F K)
      (\<lambda>_ t. map_repr F ok chip K V (encodes kvalid kenc vvalid venc) r t Map.empty) no_err s"
  by (intro conjI; rule wp_mono [OF multiwrite_map_store.wp_remove_repr(1) [OF assms]] wp_mono [OF multiwrite_map_store.wp_remove_repr(2) [OF assms]])
    simp_all

lemma remove_deletes_key_witness:
  "wp (remove_item example_flash byte_key 1) (\<lambda>_ t. example_map_repr t [2 \<mapsto> 20]) no_err map_storage"
proof -
  have "[1 \<mapsto> 11, 2 \<mapsto> 20](1 := None) = [2 :: u8 \<mapsto> 20 :: u8]" by (simp add: fun_eq_iff)
  then show ?thesis
    using remove_deletes_key [OF example_multiwrite_store used_map, of 1] by simp
qed

section \<open>Sequences of operations\<close>

text \<open>What a user does, restarts with a lost cache included, and what he gets to see.\<close>

datatype ('k, 'v) map_op = Store 'k 'v | Remove 'k | RemoveAll | Fetch 'k | Restart
datatype 'v map_reply = Stored bool | Removed | Fetched "'v option" | Restarted

primrec run_op :: "('s, 'e) nor_flash \<Rightarrow> 'k map_key \<Rightarrow> 'v map_value \<Rightarrow> ('k, 'v) map_op \<Rightarrow> ('s, 'k, 'e, 'v map_reply) map_m" where
  "run_op F K V (Store key val) =
     bnd (attempt (store_item F K V key val)) (\<lambda>res. ret (Stored (case res of Inl _ \<Rightarrow> False | Inr _ \<Rightarrow> True)))"
| "run_op F K V (Remove key) = sq (remove_item F K key) (ret Removed)"
| "run_op F K V RemoveAll = sq (remove_all_items F K) (ret Removed)"
| "run_op F K V (Fetch key) = bnd (fetch_item F K V key) (\<lambda>val. ret (Fetched val))"
| "run_op F K V Restart = sq (on_cache invalidate_cache_state) (ret Restarted)"

primrec run_ops :: "('s, 'e) nor_flash \<Rightarrow> 'k map_key \<Rightarrow> 'v map_value \<Rightarrow> ('k, 'v) map_op list \<Rightarrow> ('s, 'k, 'e, 'v map_reply list) map_m" where
  "run_ops F K V [] = ret []"
| "run_ops F K V (oper # opers) = bnd (run_op F K V oper) (\<lambda>rep. bnd (run_ops F K V opers) (\<lambda>reps. ret (rep # reps)))"

text \<open>The same on a map: a store that was refused changes nothing.\<close>

inductive map_step :: "('k \<Rightarrow> 'v option) \<Rightarrow> ('k, 'v) map_op \<Rightarrow> 'v map_reply \<Rightarrow> ('k \<Rightarrow> 'v option) \<Rightarrow> bool" where
  stored: "map_step m (Store key val) (Stored True) (m(key \<mapsto> val))"
| refused: "map_step m (Store key val) (Stored False) m"
| removed: "map_step m (Remove key) Removed (m(key := None))"
| removed_all: "map_step m RemoveAll Removed Map.empty"
| fetched: "map_step m (Fetch key) (Fetched (m key)) m"
| restarted: "map_step m Restart Restarted m"

inductive map_steps :: "('k \<Rightarrow> 'v option) \<Rightarrow> ('k, 'v) map_op list \<Rightarrow> 'v map_reply list \<Rightarrow> ('k \<Rightarrow> 'v option) \<Rightarrow> bool" where
  no_step: "map_steps m [] [] m"
| next_step: "map_step m oper rep m1 \<Longrightarrow> map_steps m1 opers reps m2 \<Longrightarrow> map_steps m (oper # opers) (rep # reps) m2"

inductive_simps map_step_simps:
  "map_step m (Store key val) rep m'" "map_step m (Remove key) rep m'" "map_step m RemoveAll rep m'"
  "map_step m (Fetch key) rep m'" "map_step m Restart rep m'"
inductive_simps map_steps_simps: "map_steps m [] reps m'" "map_steps m (oper # opers) reps m'"

text \<open>The items to be stored have codes and fit the buffer.\<close>

definition ops_fit :: "('s, 'e) nor_flash \<Rightarrow> ('k \<Rightarrow> bool) \<Rightarrow> ('k \<Rightarrow> u8 list) \<Rightarrow> ('v \<Rightarrow> bool) \<Rightarrow> ('v \<Rightarrow> u8 list) \<Rightarrow> nat
    \<Rightarrow> ('k, 'v) map_op list \<Rightarrow> bool" where
  "ops_fit F kvalid kenc vvalid venc len opers \<longleftrightarrow> list_all (\<lambda>oper. case oper of
     Store key val \<Rightarrow> kvalid key \<and> vvalid val \<and> round_up_to_alignment F (length (kenc key @ venc val)) \<le> len
   | _ \<Rightarrow> True) opers"

context map_store
begin

lemma map_repr_restart:
  assumes "map_repr F inv mem K V is_item r s m"
  shows "map_repr F inv mem K V is_item r (s\<lparr>cache := invalidate_cache_state (cache s)\<rparr>) m"
proof -
  obtain ap y k where "mapped ap y k s" "0 < k" "m = map_of_entries K V (entries_of ap y)"
    using assms unfolding map_repr_def by blast
  then show ?thesis unfolding map_repr_def using mapped_invalidate by blast
qed

end

context multiwrite_map_store
begin

lemma wp_run_op:
  fixes s :: "('s, 'k) storage"
  assumes "map_repr F inv mem K V is_item r s m" "ops_fit F kvalid kenc vvalid venc (length (data_buffer s)) [oper]"
  shows "wp (run_op F K V oper)
    (\<lambda>rep t. \<exists>m'. map_step m oper rep m' \<and> map_repr F inv mem K V is_item r t m'
      \<and> length (data_buffer t) = length (data_buffer s)) no_err s"
proof (cases oper)
  case (Store key val)
  then have fit: "kvalid key" "vvalid val" "round_up_to_alignment F (length (kenc key @ venc val)) \<le> length (data_buffer s)"
    using assms(2) by (simp_all add: ops_fit_def)
  from wp_store_repr [OF assms(1) fit(1,2) refl disjI1 [OF fit(3)]] show ?thesis
    unfolding Store run_op.simps wp_bnd wp_attempt wp_ret sum.case
  proof (rule wp_mono, goal_cases)
    case (1 _ t)
    then show ?case by (intro exI [of _ "m(key \<mapsto> val)"]) (simp add: map_step_simps)
  next
    case (2 e t)
    then show ?case by (intro exI [of _ m]) (simp add: map_step_simps)
  qed
next
  case (Remove key)
  show ?thesis
    unfolding Remove run_op.simps wp_sq wp_ret
    by (rule wp_mono [OF wp_remove_repr(1) [OF assms(1)]]) (simp_all add: map_step_simps)
next
  case RemoveAll
  show ?thesis
    unfolding RemoveAll run_op.simps wp_sq wp_ret
    by (rule wp_mono [OF wp_remove_repr(2) [OF assms(1)]]) (simp_all add: map_step_simps)
next
  case (Fetch key)
  show ?thesis
    unfolding Fetch run_op.simps wp_bnd wp_ret
    by (rule wp_mono [OF wp_fetch_repr [OF assms(1)]]) (simp_all add: map_step_simps)
next
  case Restart
  show ?thesis
    unfolding Restart run_op.simps wp_sq wp_ret wp_on_cache
    using map_repr_restart [OF assms(1)] by (simp add: map_step_simps)
qed

lemma wp_run_ops:
  fixes s :: "('s, 'k) storage"
  assumes "map_repr F inv mem K V is_item r s m" "ops_fit F kvalid kenc vvalid venc (length (data_buffer s)) opers"
  shows "wp (run_ops F K V opers)
    (\<lambda>reps t. \<exists>m'. map_steps m opers reps m' \<and> map_repr F inv mem K V is_item r t m') no_err s"
  using assms
proof (induction opers arbitrary: s m)
  case Nil
  then show ?case by (auto simp: map_steps_simps)
next
  case (Cons oper opers)
  have one: "ops_fit F kvalid kenc vvalid venc (length (data_buffer s)) [oper]"
    and rest: "ops_fit F kvalid kenc vvalid venc (length (data_buffer s)) opers"
    using Cons.prems(2) by (simp_all add: ops_fit_def)
  show ?case
    unfolding run_ops.simps wp_bnd [of "run_op _ _ _ _"]
  proof (rule wp_mono [OF wp_run_op [OF Cons.prems(1) one]], goal_cases)
    case (1 rep t)
    then obtain m1 where m1: "map_step m oper rep m1" "map_repr F inv mem K V is_item r t m1"
      "length (data_buffer t) = length (data_buffer s)" by blast
    have "ops_fit F kvalid kenc vvalid venc (length (data_buffer t)) opers" using rest m1(3) by simp
    from Cons.IH [OF m1(2) this] show ?case
      unfolding wp_bnd wp_ret by (rule wp_mono) (use map_steps.next_step [OF m1(1)] in auto)
  qed simp
qed

end

text \<open>
  C9: whatever a user stores, removes and fetches, in any order and with restarts that lose the
  cache in between, the replies are those of a map, in which a refused store changes nothing; no
  operation panics or hangs, and no other error is ever reported.
\<close>

theorem map_refines_operations:
  assumes "multiwrite_map_store F ok chip K kvalid kenc V vvalid venc r"
    and "map_repr F ok chip K V (encodes kvalid kenc vvalid venc) r s m"
    and "ops_fit F kvalid kenc vvalid venc (length (data_buffer s)) opers"
  shows "wp (run_ops F K V opers)
    (\<lambda>reps t. \<exists>m'. map_steps m opers reps m' \<and> map_repr F ok chip K V (encodes kvalid kenc vvalid venc) r t m') no_err s"
  by (rule multiwrite_map_store.wp_run_ops [OF assms])

lemma map_refines_operations_witness:
  "wp (run_ops example_flash byte_key byte_value [Store 7 70, Fetch 7, Restart, Fetch 7])
    (\<lambda>reps t. reps = [Stored True, Fetched (Some 70), Restarted, Fetched (Some 70)]
      \<or> reps = [Stored False, Fetched None, Restarted, Fetched None]) no_err map_storage"
proof -
  have "length (num_enc (7 :: u8) @ num_enc (70 :: u8)) = 2" "round_up_to_alignment example_flash 2 \<le> 8"
    by (simp_all add: size_of_def example_sizes)
  then have "ops_fit example_flash (\<lambda>_. True) num_enc (\<lambda>_. True) num_enc (length (data_buffer map_storage))
      [Store (7 :: u8) (70 :: u8), Fetch 7, Restart, Fetch 7]" by (simp add: ops_fit_def)
  from map_refines_operations [OF example_multiwrite_store used_map this] show ?thesis
    by (rule wp_mono) (auto simp: map_step_simps map_steps_simps)
qed

end
