(* ===== verification/MapRoom.thy ===== *)
theory MapRoom
  imports MapProperties
begin

text \<open>
  When there is room for an item, storing it succeeds. Every page that is started holds only entries
  that are the newest of their keys, so that after one round over the ring the pages hold no byte of
  an entry that is not needed; \<open>store_item\<close> gives up only after such a round.
\<close>

section \<open>The bytes that are needed\<close>

definition contents_bytes :: "('s, 'e) nor_flash \<Rightarrow> ('k \<Rightarrow> u8 list option) \<Rightarrow> nat" where
  "contents_bytes F c = (\<Sum>key \<in> dom c. slot_size F (length (the (c key))))"

lemma newest_distinct:
  assumes "distinct (entry_keys K es)" "e \<in> set es" "key_of K (snd e) = Some key"
  shows "newest K es key = Some e"
proof -
  have "map fst (rev (map (\<lambda>e. (key_of K (snd e), e)) es)) = rev (entry_keys K es)"
    by (simp add: rev_map entry_keys_def comp_def)
  then show ?thesis
    unfolding newest_def using assms by (intro map_of_is_SomeI) (simp_all, force)
qed

lemma finite_contents: "finite (dom (contents K es))"
proof -
  have "dom (contents K es) \<subseteq> (\<lambda>e. the (key_of K (snd e))) ` set es"
    using newest_in by (force simp: contents_def dom_def image_iff)
  then show ?thesis by (rule finite_subset) simp
qed

text \<open>Entries with different keys that nothing newer follows take no more bytes than are needed.\<close>

lemma distinct_entries_size:
  assumes "distinct (entry_keys K es)" "None \<notin> set (entry_keys K es)" "c = contents K (pre @ es)"
  shows "entries_size F es \<le> contents_bytes F c"
proof -
  let ?size = "\<lambda>key. slot_size F (length (the (c key)))"
  have c: "c (the (key_of K (snd e))) = Some (snd e)" if "e \<in> set es" for e
  proof -
    have "key_of K (snd e) \<in> set (entry_keys K es)" using that by (simp add: entry_keys_def)
    then have "key_of K (snd e) \<noteq> None" using assms(2) by metis
    then obtain key where key: "key_of K (snd e) = Some key" by blast
    then show ?thesis using newest_distinct [OF assms(1) that] by (simp add: assms(3) contents_def)
  qed
  let ?keys = "map (\<lambda>e. the (key_of K (snd e))) es"
  have "?keys = map the (entry_keys K es)" by (simp add: entry_keys_def)
  moreover have "inj_on the (set (entry_keys K es))"
    using assms(2) by (intro inj_onI) (metis option.collapse)
  ultimately have keys: "distinct ?keys" using assms(1) by (simp add: distinct_map)
  have "entries_size F es = sum_list (map ?size ?keys)"
    unfolding entries_size_def map_map comp_def using c by (intro arg_cong [of _ _ sum_list] map_cong) simp_all
  also have "\<dots> = (\<Sum>key \<in> set ?keys. ?size key)" using keys by (rule sum_list_distinct_conv_sum_set)
  also have "\<dots> \<le> contents_bytes F c"
    unfolding contents_bytes_def using c finite_contents [of K "pre @ es"] assms(3)
    by (intro sum_mono2) auto
  finally show ?thesis .
qed

section \<open>The pages that are full of them\<close>

text \<open>The entries of the \<open>j\<close> pages before page \<open>y\<close>.\<close>

definition entries_before :: "('s, 'e) nor_flash \<Rightarrow> flash_range \<Rightarrow> (nat \<Rightarrow> apage) \<Rightarrow> nat \<Rightarrow> nat \<Rightarrow> map_entry list" where
  "entries_before F r ap y j =
     concat (map (\<lambda>i. page_entries F r ap ((y + i) mod page_count F r)) [page_count F r - j..<page_count F r])"

text \<open>What an item of \<open>len\<close> bytes leaves of a page.\<close>

definition spare_bytes :: "('s, 'e) nor_flash \<Rightarrow> nat \<Rightarrow> nat" where
  "spare_bytes F len = calculate_page_size F - slot_size F len"

definition tight_pages :: "('s, 'e) nor_flash \<Rightarrow> 'k map_key \<Rightarrow> flash_range \<Rightarrow> nat \<Rightarrow> (nat \<Rightarrow> apage) \<Rightarrow> nat \<Rightarrow> nat \<Rightarrow> bool" where
  "tight_pages F K r len ap y j \<longleftrightarrow> j + 2 \<le> page_count F r
     \<and> distinct (entry_keys K (entries_before F r ap y j @ page_entries F r ap y))
     \<and> slots_size F (snd (ap y)) = entries_size F (page_entries F r ap y)
     \<and> j * Suc (spare_bytes F len) \<le> entries_size F (entries_before F r ap y j)"

context map_store
begin

lemma entries_of_before:
  assumes "y < page_count F r" "j < page_count F r"
  obtains pre where "entries_of ap y = pre @ entries_before F r ap y j @ page_entries F r ap y"
proof -
  let ?n = "page_count F r"
  let ?page = "\<lambda>i. page_entries F r ap ((y + i) mod ?n)"
  have "[1..<Suc ?n] = [1..<?n - j] @ [?n - j..<?n] @ [?n]"
    using assms(2) two_pages upt_add_eq_append [of 1 "?n - j" j] by simp
  then show thesis
    using assms(1) that unfolding ring_entries_def entries_upto_def entries_before_def by (simp del: upt_Suc)
qed

lemma before_subset_between:
  assumes "j + 2 \<le> page_count F r"
  shows "set (entry_keys K (entries_before F r ap y j)) \<subseteq> set (entry_keys K (entries_between F r ap y))"
proof -
  have "set [page_count F r - j..<page_count F r] \<subseteq> set [2..<page_count F r]" using assms by auto
  then have "set (entries_before F r ap y j) \<subseteq> set (entries_between F r ap y)"
    unfolding entries_before_def entries_between_def set_concat set_map by (intro Union_mono image_mono)
  then show ?thesis unfolding entry_keys_def by auto
qed

text \<open>Once the next page is started, the one that was full is one more page before it.\<close>

lemma entries_before_started:
  assumes "started ap y len ap' k' t" "y < page_count F r" "j + 3 \<le> page_count F r"
  shows "entries_before F r ap' (Suc y mod page_count F r) (Suc j) = entries_before F r ap y j @ page_entries F r ap y"
proof -
  let ?n = "page_count F r" and ?p = "Suc y mod page_count F r"
  let ?page = "\<lambda>i. page_entries F r ap ((y + i) mod ?n)"
  have same: "page_entries F r ap' ((?p + i) mod ?n) = ?page (Suc i)" if "i \<in> set [?n - Suc j..<?n]" for i
  proof -
    have i: "2 \<le> i" "i < ?n" using that assms(3) by auto
    have "(?p + i) mod ?n \<noteq> ?p" using ring_inj_iff [of i 0 ?n ?p] i source_page(1) [OF assms(2)] by simp
    moreover have "(?p + i) mod ?n \<noteq> Suc ?p mod ?n" using ring_inj_iff [of i 1 ?n ?p] i by simp
    moreover have "(?p + i) mod ?n < ?n" using i by simp
    ultimately have "snd (ap' ((?p + i) mod ?n)) = snd (ap ((?p + i) mod ?n))"
      using assms(1) unfolding started_def Let_def by blast
    moreover have "(?p + i) mod ?n = (y + Suc i) mod ?n" by (simp add: mod_add_left_eq)
    ultimately show ?thesis by (simp add: page_entries_def)
  qed
  have "entries_before F r ap' ?p (Suc j) = concat (map (\<lambda>i. ?page (Suc i)) [?n - Suc j..<?n])"
    unfolding entries_before_def using same by (intro arg_cong [of _ _ concat] map_cong) simp_all
  also have "map (\<lambda>i. ?page (Suc i)) [?n - Suc j..<?n] = map ?page (map Suc [?n - Suc j..<?n])" by simp
  also have "map Suc [?n - Suc j..<?n] = [?n - j..<?n] @ [?n]"
  proof -
    have "Suc (?n - Suc j) = ?n - j" using assms(3) by simp
    then show ?thesis using assms(3) by (simp only: map_Suc_upt upt_Suc_append diff_le_self)
  qed
  finally show ?thesis using assms(2) by (simp add: entries_before_def)
qed

lemma tight_started:
  assumes "tight_pages F K r len ap y j" "started ap y n' ap' k' t" "y < page_count F r" "j + 3 \<le> page_count F r"
    and "spare_bytes F len < slots_size F (snd (ap y))"
  shows "tight_pages F K r len ap' (Suc y mod page_count F r) (Suc j)"
proof -
  let ?p = "Suc y mod page_count F r"
  note before = entries_before_started [OF assms(2-4)]
  have compact: "compact_page F K r ap' ?p" using assms(2) by (simp add: started_def Let_def)
  have "set (entry_keys K (entries_before F r ap' ?p (Suc j))) \<subseteq> set (entry_keys K (entries_between F r ap' ?p))"
    using assms(4) by (intro before_subset_between) simp
  then have "set (entry_keys K (entries_before F r ap y j @ page_entries F r ap y)) \<inter> set (entry_keys K (page_entries F r ap' ?p)) = {}"
    using compact unfolding before compact_page_def by blast
  then show ?thesis
    using assms(1,4,5) compact unfolding tight_pages_def before compact_page_def by auto
qed

lemma tight_first:
  assumes "compact_page F K r ap y"
  shows "tight_pages F K r len ap y 0"
  using assms two_pages by (simp add: tight_pages_def compact_page_def entries_before_def)

text \<open>When all pages but one are full of needed bytes, more bytes are needed than there is room for.\<close>

lemma tight_not_full:
  assumes "tight_pages F K r len ap y j" "mapped ap y k s" "j + 2 = page_count F r"
    and "contents_bytes F (contents K (entries_of ap y)) \<le> (page_count F r - 1) * spare_bytes F len"
  shows "slots_size F (snd (ap y)) \<le> spare_bytes F len"
proof (rule ccontr)
  let ?es = "entries_before F r ap y j @ page_entries F r ap y"
  assume full: "\<not> slots_size F (snd (ap y)) \<le> spare_bytes F len"
  note m = mappedE [OF assms(2)]
  have y: "y < page_count F r" using shape_less(1) [OF m(2)] .
  obtain pre where pre: "entries_of ap y = pre @ ?es" using entries_of_before [OF y, of j ap] assms(3) by auto
  have "key_of K (snd e) \<noteq> None" if "e \<in> set (entries_of ap y)" for e
    using m(4) that is_itemE unfolding entries_fit_def by (metis option.discI)
  then have "None \<notin> set (entry_keys K (entries_of ap y))" unfolding entry_keys_def set_map by (metis imageE)
  then have "None \<notin> set (entry_keys K ?es)" unfolding pre by simp
  then have "entries_size F ?es \<le> contents_bytes F (contents K (entries_of ap y))"
    using assms(1) pre by (intro distinct_entries_size) (simp_all add: tight_pages_def)
  moreover have "Suc j * Suc (spare_bytes F len) \<le> entries_size F ?es"
    using assms(1) full by (simp add: tight_pages_def)
  moreover have "contents_bytes F (contents K (entries_of ap y)) \<le> Suc j * spare_bytes F len"
    using assms(4) unfolding assms(3) [symmetric] by simp
  ultimately have "Suc j * Suc (spare_bytes F len) \<le> Suc j * spare_bytes F len" by (meson order_trans)
  then show False by simp
qed

section \<open>Storing\<close>

lemma wp_store_levels_tight:
  fixes s :: "('s, 'k) storage"
  assumes "tight_pages F K r (length d) ap y j" "mapped ap y k s" "0 < k" "fst (ap y) = PartialOpen"
    and "contents K (entries_of ap y) = c" "length (data_buffer s) = len"
    and "page_count F r - 1 - j \<le> levels"
    and item: "kvalid key" "vvalid val" "d = kenc key @ venc val" "\<not> item_too_big F (length d)"
    and buffer: "round_up_to_alignment F (length d) \<le> len"
    and room: "contents_bytes F c \<le> (page_count F r - 1) * spare_bytes F (length d)"
  shows "wp (store_levels F K V key val levels) (\<lambda>_ t. stored_map (c(key \<mapsto> d)) len t) no_err s"
  using assms(1-7)
proof (induction levels arbitrary: ap y j k s)
  case 0
  then show ?case by (simp add: tight_pages_def)
next
  case (Suc levels)
  let ?n = "page_count F r"
  have fits: "length d \<le> len" using buffer round_up_ge [of "length d" F] by linarith
  have slot: "slot_size F (length d) \<le> calculate_page_size F" using map_not_too_big(2) [OF item(4)] .
  have y: "y < ?n" using shape_less(1) [OF mappedE(2) [OF Suc.prems(2)]] .
  have key: "key_of K d = Some key" using item_decodes(1) [OF item(1,2)] item(3) by simp
  show ?case
    unfolding store_levels.simps wp_bnd [of "find_first_page _ _ _"]
  proof (rule wp_mono [OF wp_find_partial_open [OF Suc.prems(2)]], goal_cases)
    case (1 found t)
    then have t: "mapped ap y k t" "length (data_buffer t) = len" and found: "found = Some y"
      using Suc.prems(4,6) by simp_all
    have buf: "length d \<le> length (data_buffer t) \<Longrightarrow> round_up_to_alignment F (length d) \<le> length (data_buffer t)"
      using buffer t(2) by simp
    show ?case
      unfolding found option.case wp_bnd [of "store_in_page _ _ _ _ _ _"]
    proof (rule wp_mono [OF wp_store_in_page [OF t(1) Suc.prems(3,4) item(1-3) buf]], goal_cases)
      case (2 res u)
      show ?case
      proof (cases res)
        case None
        then have "stored_map (c(key \<mapsto> d)) len u"
          using 2 t(2) Suc.prems(5) contents_appended [OF t(1) key] by (intro stored_mapI [OF _ Suc.prems(3)]) auto
        then show ?thesis using None by simp
      next
        case (Some p)
        then have u: "page_left ap y k u" "p = Suc y mod ?n" "length (data_buffer u) = len"
          and full: "spare_bytes F (length d) < slots_size F (snd (ap y))"
          using 2 t(2) slot by (auto simp: spare_bytes_def)
        have "j + 2 \<noteq> ?n" using tight_not_full [OF Suc.prems(1,2)] full room Suc.prems(5) by fastforce
        then have j: "j + 3 \<le> ?n" using Suc.prems(1) by (simp add: tight_pages_def)
        have again: "wp (store_levels F K V key val levels) (\<lambda>_ t. stored_map (c(key \<mapsto> d)) len t) no_err v"
          if v: "started ap y len ap' k' v" for ap' k' v
          using Suc.IH [OF tight_started [OF Suc.prems(1) v y j full], of k' v] v Suc.prems(5,7)
          by (simp add: started_def Let_def del: fun_upd_apply)
        show ?thesis
          unfolding Some option.case wp_sq u(2)
          by (rule wp_mono [OF wp_start_next_page [OF u(1) Suc.prems(3)]]) (use again u(3) in auto)
      qed
    next
      case (3 e u)
      then show ?case using item(4) fits t(2) by (simp add: refused_def)
    qed
  qed simp
qed

lemma wp_store_levels_room:
  fixes s :: "('s, 'k) storage"
  assumes "stored_map c len s" and item: "kvalid key" "vvalid val" "d = kenc key @ venc val" "\<not> item_too_big F (length d)"
    and buffer: "round_up_to_alignment F (length d) \<le> len"
    and room: "contents_bytes F c \<le> (page_count F r - 1) * spare_bytes F (length d)"
  shows "wp (store_levels F K V key val (page_count F r)) (\<lambda>_ t. stored_map (c(key \<mapsto> d)) len t) no_err s"
proof -
  let ?n = "page_count F r"
  obtain levels where levels: "?n = Suc levels" using two_pages by (cases ?n) simp_all
  obtain ap y k where m: "mapped ap y k s" "0 < k" and c: "contents K (entries_of ap y) = c"
    and len: "length (data_buffer s) = len" using assms(1) unfolding stored_map_def by blast
  have fits: "length d \<le> len" using buffer round_up_ge [of "length d" F] by linarith
  have key: "key_of K d = Some key" using item_decodes(1) [OF item(1,2)] item(3) by simp
  have again: "wp (store_levels F K V key val levels) (\<lambda>_ t. stored_map (c(key \<mapsto> d)) len t) no_err t"
    if "mapped ap' y' k' t" "0 < k'" "fst (ap' y') = PartialOpen" "contents K (entries_of ap' y') = c"
      "length (data_buffer t) = len" "compact_page F K r ap' y'" for ap' y' k' t
    using levels that
    by (intro wp_store_levels_tight [OF tight_first _ _ _ _ _ _ item buffer room]) simp_all
  show ?thesis
    unfolding levels store_levels.simps wp_bnd [of "find_first_page _ _ _"]
  proof (rule wp_mono [OF wp_find_partial_open [OF m(1)]], goal_cases)
    case (1 found t)
    then have t: "mapped ap y k t" "length (data_buffer t) = len" using len by simp_all
    show ?case
    proof (cases "fst (ap y) = PartialOpen")
      case True
      then have found: "found = Some y" using 1 by simp
      have buf: "length d \<le> length (data_buffer t) \<Longrightarrow> round_up_to_alignment F (length d) \<le> length (data_buffer t)"
        using buffer t(2) by simp
      show ?thesis
        unfolding found option.case wp_bnd [of "store_in_page _ _ _ _ _ _"]
      proof (rule wp_mono [OF wp_store_in_page [OF t(1) m(2) True item(1-3) buf]], goal_cases)
        case (2 res u)
        show ?case
        proof (cases res)
          case None
          then have "stored_map (c(key \<mapsto> d)) len u"
            using 2 t(2) c contents_appended [OF t(1) key] by (intro stored_mapI [OF _ m(2)]) auto
          then show ?thesis using None by simp
        next
          case (Some p)
          then have u: "page_left ap y k u" "p = Suc y mod ?n" "length (data_buffer u) = len" using 2 t(2) by auto
          have next_level: "wp (store_levels F K V key val levels) (\<lambda>_ t. stored_map (c(key \<mapsto> d)) len t) no_err v"
            if "started ap y len ap' k' v" for ap' k' v
            using that c unfolding started_def Let_def by (intro again [of ap' "Suc y mod ?n" k']) auto
          show ?thesis
            unfolding Some option.case wp_sq u(2)
            by (rule wp_mono [OF wp_start_next_page [OF u(1) m(2)]]) (use next_level u(3) in auto)
        qed
      next
        case (3 e u)
        then show ?case using item(4) fits t(2) by (simp add: refused_def)
      qed
    next
      case False
      then have found: "found = None" using 1 by simp
      show ?thesis
        unfolding found option.case wp_sq
        by (rule wp_mono [OF wp_start_first_page [OF t(1) m(2) False]])
          (use again [OF _ m(2)] c t(2) compact_empty in auto)
    qed
  qed simp
qed

end

section \<open>The property\<close>

text \<open>What the keys and values of a map take on flash.\<close>

definition map_bytes ::
  "('s, 'e) nor_flash \<Rightarrow> ('k \<Rightarrow> u8 list) \<Rightarrow> ('v \<Rightarrow> u8 list) \<Rightarrow> ('k \<Rightarrow> 'v option) \<Rightarrow> nat"
where
  "map_bytes F kenc venc m = (\<Sum>key \<in> dom m. slot_size F (length (kenc key @ venc (the (m key)))))"

context map_store
begin

lemma contents_bytes_map:
  assumes "mapped ap y k s"
  shows "contents_bytes F (contents K (entries_of ap y)) = map_bytes F kenc venc (map_of_entries K V (entries_of ap y))"
proof -
  let ?c = "contents K (entries_of ap y)" and ?m = "map_of_entries K V (entries_of ap y)"
  have item: "\<exists>val. d = kenc key @ venc val \<and> ?m key = Some val" if c: "?c key = Some d" for key d
  proof -
    obtain a where e: "newest K (entries_of ap y) key = Some (a, d)" using c by (auto simp: contents_def)
    then obtain i where "is_item d" "key_of K d = Some key" using newest_entry [OF assms] by blast
    then obtain val where "d = kenc key @ venc val" "value_of K V d = Some val" using is_itemE by (metis option.inject)
    then show ?thesis using e by (simp add: map_of_entries_def)
  qed
  have none: "?m key = None" if "?c key = None" for key
    using that by (simp add: contents_def map_of_entries_def)
  have "?c key = None \<longleftrightarrow> ?m key = None" for key using item [of key] none [of key] by (cases "?c key") auto
  then have dom: "dom ?c = dom ?m" by (simp add: dom_def)
  show ?thesis
    unfolding contents_bytes_def map_bytes_def dom
  proof (rule sum.cong [OF refl])
    fix key assume "key \<in> dom ?m"
    then obtain d where d: "?c key = Some d" using none by (cases "?c key") auto
    show "slot_size F (length (the (?c key))) = slot_size F (length (kenc key @ venc (the (?m key))))"
      using item [OF d] d by auto
  qed
qed

lemma wp_store_room:
  fixes s :: "('s, 'k) storage"
  assumes "map_repr F inv mem K V is_item r s m"
    and item: "kvalid key" "vvalid val" "d = kenc key @ venc val" "\<not> item_too_big F (length d)"
    and "round_up_to_alignment F (length d) \<le> length (data_buffer s)"
    and "map_bytes F kenc venc m \<le> (page_count F r - 1) * spare_bytes F (length d)"
  shows "wp (store_item F K V key val) (\<lambda>_ t. map_repr F inv mem K V is_item r t (m(key \<mapsto> val))) no_err s"
proof -
  obtain ap y k where m: "mapped ap y k s" "0 < k" "m = map_of_entries K V (entries_of ap y)"
    using assms(1) unfolding map_repr_def by blast
  let ?c = "contents K (entries_of ap y)" and ?len = "length (data_buffer s)"
  have room: "contents_bytes F ?c \<le> (page_count F r - 1) * spare_bytes F (length d)"
    using assms(7) contents_bytes_map [OF m(1)] m(3) by simp
  have "value_of K V d = Some val" using item_decodes(2) [OF item(1,2)] item(3) by simp
  then have upd: "m(key \<mapsto> val) = (\<lambda>k. Option.bind ((?c(key \<mapsto> d)) k) (value_of K V))"
    unfolding m(3) by (auto simp: map_of_entries_contents)
  have levels: "wp (store_levels F K V key val (page_count F r)) (\<lambda>_ t. stored_map (?c(key \<mapsto> d)) ?len t) no_err t"
    if "mapped ap y k t" "data_buffer t = data_buffer s" for t
    by (rule wp_store_levels_room [OF stored_mapI [OF that(1) m(2) refl] item assms(6) room]) (simp add: that(2))
  have "wp (store_item_inner F K V key val) (\<lambda>_ t. stored_map (?c(key \<mapsto> d)) ?len t) no_err s"
    unfolding store_item_inner_def wp_sq [of drop_dirty_cache]
  proof (rule wp_mono [OF wp_drop_dirty [OF m(1)]], goal_cases)
    case (1 _ t)
    have pages: "length (get_pages F (flash_range t) 0) = page_count F r"
      using mappedE(3) [OF conjunct1 [OF 1]] by (simp add: get_pages_def)
    show ?case
      unfolding wp_bnd [of "gets f" for f] wp_gets pages using levels 1 by blast
  qed simp
  from wp_run_with_auto_repair [OF this, of "map_try_repair F K"] show ?thesis
    unfolding store_item_def by (rule wp_mono) (simp, rule stored_repr [OF _ upd], assumption, simp)
qed

end

text \<open>
  C11: when the keys and values of the map take no more bytes than all pages but one have beside the
  new item, \<open>store_item\<close> succeeds: it reports \<open>FullStorage\<close> only when the storage is that full,
  however many old values, erased items and half used pages there are.
\<close>

theorem store_succeeds_with_room:
  assumes "map_store F ok chip K kvalid kenc V vvalid venc r"
    and "map_repr F ok chip K V (encodes kvalid kenc vvalid venc) r s m" "kvalid key" "vvalid val"
    and "\<not> item_too_big F (length (kenc key @ venc val))"
    and "round_up_to_alignment F (length (kenc key @ venc val)) \<le> length (data_buffer s)"
    and "map_bytes F kenc venc m \<le> (page_count F r - 1) * spare_bytes F (length (kenc key @ venc val))"
  shows "wp (store_item F K V key val)
    (\<lambda>_ t. map_repr F ok chip K V (encodes kvalid kenc vvalid venc) r t (m(key \<mapsto> val))) no_err s"
  by (rule map_store.wp_store_room [OF assms(1-4) refl assms(5-7)])

lemma store_succeeds_with_room_witness:
  "wp (store_item example_flash byte_key byte_value 7 70)
    (\<lambda>_ t. example_map_repr t [1 \<mapsto> 11, 2 \<mapsto> 20, 7 \<mapsto> 70]) no_err map_storage"
proof -
  have len: "length (num_enc (a :: u8) @ num_enc (b :: u8)) = 2" for a b by (simp add: size_of_def)
  have dom: "dom [1 :: u8 \<mapsto> 11 :: u8, 2 \<mapsto> 20] = {1, 2}" by auto
  have "map_bytes example_flash num_enc num_enc [1 :: u8 \<mapsto> 11 :: u8, 2 \<mapsto> 20] = 24"
    unfolding map_bytes_def dom len by (simp add: slot_size_def example_sizes)
  moreover have "spare_bytes example_flash 2 = 44" by (simp add: spare_bytes_def slot_size_def example_sizes)
  moreover have "round_up_to_alignment example_flash 2 \<le> length (data_buffer map_storage)" "\<not> item_too_big example_flash 2"
    by (simp_all add: example_sizes item_too_big_def data_address_def)
  ultimately have "wp (store_item example_flash byte_key byte_value 7 70)
    (\<lambda>_ t. example_map_repr t ([1 \<mapsto> 11, 2 \<mapsto> 20](7 \<mapsto> 70))) no_err map_storage"
    by (intro store_succeeds_with_room [OF example_store used_map]) (simp_all only: len example_count, simp_all)
  then show ?thesis by simp
qed

end
