(* ===== verification/CacheImpls.thy ===== *)
theory CacheImpls
  imports Cache
begin

text \<open>
  The types of \<open>src/src/cache/array_impl.rs\<close> and \<open>heap_impl.rs\<close> and \<open>NoCache\<close>, field by field, and
  the traits they implement. A method that returns a borrow, such as \<open>page_states(&mut self)\<close>, is a
  pair of functions that read and write through the borrow; the provided methods of the traits
  are functions on these pairs. Every type implements the record \<open>cache\<close> the storage is modelled
  with: after any sequence of calls it answers as the record does.
\<close>

section \<open>The dirt tracker and the traits\<close>

type_synonym DirtTracker = bool

definition DirtTracker_new :: DirtTracker where
  "DirtTracker_new = False"

definition tracker_is_dirty :: "DirtTracker \<Rightarrow> bool" where
  "tracker_is_dirty dirty = dirty"

definition tracker_mark_dirty :: "DirtTracker \<Rightarrow> DirtTracker" where
  "tracker_mark_dirty dirty = True"

definition tracker_unmark_dirty :: "DirtTracker \<Rightarrow> DirtTracker" where
  "tracker_unmark_dirty dirty = False"

record 'c private_cache =
  dirt_of :: "'c \<Rightarrow> DirtTracker option"
  put_dirt :: "DirtTracker \<Rightarrow> 'c \<Rightarrow> 'c"
  states_of :: "'c \<Rightarrow> page_states_cache"
  put_states :: "page_states_cache \<Rightarrow> 'c \<Rightarrow> 'c"
  pointers_of :: "'c \<Rightarrow> page_pointers_cache"
  put_pointers :: "page_pointers_cache \<Rightarrow> 'c \<Rightarrow> 'c"

record ('c, 'k) private_key_cache =
  keys_of :: "'c \<Rightarrow> 'k key_pointers_cache"
  put_keys :: "'k key_pointers_cache \<Rightarrow> 'c \<Rightarrow> 'c"

text \<open>The provided methods of \<open>PrivateCacheImpl\<close> and \<open>PrivateKeyCacheImpl\<close>.\<close>

definition impl_is_dirty :: "'c private_cache \<Rightarrow> 'c \<Rightarrow> bool" where
  "impl_is_dirty P c = (case dirt_of P c of Some d \<Rightarrow> tracker_is_dirty d | None \<Rightarrow> False)"

definition impl_mark_dirty :: "'c private_cache \<Rightarrow> 'c \<Rightarrow> 'c" where
  "impl_mark_dirty P c = (case dirt_of P c of Some d \<Rightarrow> put_dirt P (tracker_mark_dirty d) c | None \<Rightarrow> c)"

definition impl_unmark_dirty :: "'c private_cache \<Rightarrow> 'c \<Rightarrow> 'c" where
  "impl_unmark_dirty P c = (case dirt_of P c of Some d \<Rightarrow> put_dirt P (tracker_unmark_dirty d) c | None \<Rightarrow> c)"

definition impl_get_page_state :: "'c private_cache \<Rightarrow> nat \<Rightarrow> 'c \<Rightarrow> page_state option" where
  "impl_get_page_state P page_index c = ps_get_page_state (states_of P c) page_index"

definition impl_notice_page_state :: "'c private_cache \<Rightarrow> nat \<Rightarrow> page_state \<Rightarrow> bool \<Rightarrow> 'c \<Rightarrow> 'c" where
  "impl_notice_page_state P page_index new_state dirty c =
     (let c = (if dirty then impl_mark_dirty P c else c);
          c = put_states P (ps_notice_page_state (states_of P c) page_index new_state) c
      in put_pointers P (pp_notice_page_state page_index new_state (pointers_of P c)) c)"

definition impl_first_item_after_erased :: "'c private_cache \<Rightarrow> nat \<Rightarrow> 'c \<Rightarrow> nat option" where
  "impl_first_item_after_erased P page_index c = pp_first_item_after_erased (pointers_of P c) page_index"

definition impl_first_item_after_written :: "'c private_cache \<Rightarrow> nat \<Rightarrow> 'c \<Rightarrow> nat option" where
  "impl_first_item_after_written P page_index c = pp_first_item_after_written (pointers_of P c) page_index"

definition impl_notice_item_written ::
  "('s, 'e) nor_flash \<Rightarrow> 'c private_cache \<Rightarrow> flash_range \<Rightarrow> nat \<Rightarrow> item_header \<Rightarrow> 'c \<Rightarrow> 'c"
where
  "impl_notice_item_written F P rng item_address h c =
     (let c = impl_mark_dirty P c
      in put_pointers P (pp_notice_item_written F rng item_address h (pointers_of P c)) c)"

definition impl_notice_item_erased ::
  "('s, 'e) nor_flash \<Rightarrow> 'c private_cache \<Rightarrow> flash_range \<Rightarrow> nat \<Rightarrow> item_header \<Rightarrow> 'c \<Rightarrow> 'c"
where
  "impl_notice_item_erased F P rng item_address h c =
     (let c = impl_mark_dirty P c
      in put_pointers P (pp_notice_item_erased F rng item_address h (pointers_of P c)) c)"

definition impl_key_location :: "('c, 'k) private_key_cache \<Rightarrow> 'k \<Rightarrow> 'c \<Rightarrow> nat option" where
  "impl_key_location K key c = kp_key_location (keys_of K c) key"

definition impl_notice_key_location ::
  "'c private_cache \<Rightarrow> ('c, 'k) private_key_cache \<Rightarrow> 'k \<Rightarrow> nat \<Rightarrow> bool \<Rightarrow> 'c \<Rightarrow> 'c option"
where
  "impl_notice_key_location P K key item_address dirty c =
     (let c = (if dirty then impl_mark_dirty P c else c)
      in map_option (\<lambda>kps. put_keys K kps c)
           (kp_notice_key_location key item_address (keys_of K c)))"

definition impl_notice_key_erased ::
  "'c private_cache \<Rightarrow> ('c, 'k) private_key_cache \<Rightarrow> 'k \<Rightarrow> 'c \<Rightarrow> 'c"
where
  "impl_notice_key_erased P K key c =
     (let c = impl_mark_dirty P c in put_keys K (kp_notice_key_erased key (keys_of K c)) c)"

section \<open>The types\<close>

datatype NoCache = NoCache

definition NoCache_private :: "NoCache private_cache" where
  "NoCache_private = \<lparr> dirt_of = (\<lambda>_. None), put_dirt = (\<lambda>_ c. c),
     states_of = (\<lambda>_. UncachedPageStates), put_states = (\<lambda>_ c. c),
     pointers_of = (\<lambda>_. UncachedPagePointers), put_pointers = (\<lambda>_ c. c) \<rparr>"

definition NoCache_keys :: "(NoCache, 'k) private_key_cache" where
  "NoCache_keys = \<lparr> keys_of = (\<lambda>_. UncachedKeyPointers), put_keys = (\<lambda>_ c. c) \<rparr>"

definition NoCache_invalidate :: "NoCache \<Rightarrow> NoCache" where
  "NoCache_invalidate c = c"

record page_state_cache =
  aps_dirt_tracker :: "DirtTracker"
  aps_page_states :: "page_state option list"

definition PageStateCache_array :: "nat \<Rightarrow> page_state_cache" where
  "PageStateCache_array pages = \<lparr> aps_dirt_tracker = DirtTracker_new,
     aps_page_states = replicate pages None \<rparr>"

definition PageStateCache_private :: "page_state_cache private_cache" where
  "PageStateCache_private = \<lparr>
     dirt_of = (\<lambda>c. Some (aps_dirt_tracker c)),
     put_dirt = (\<lambda>d c. c\<lparr> aps_dirt_tracker := d \<rparr>),
     states_of = (\<lambda>c. CachedPageStates (aps_page_states c)),
     put_states = (\<lambda>x c. case x of CachedPageStates ps \<Rightarrow> c\<lparr> aps_page_states := ps \<rparr> | UncachedPageStates \<Rightarrow> c),
     pointers_of = (\<lambda>_. UncachedPagePointers),
     put_pointers = (\<lambda>_ c. c) \<rparr>"

definition PageStateCache_keys :: "(page_state_cache, 'k) private_key_cache" where
  "PageStateCache_keys = \<lparr>
     keys_of = (\<lambda>_. UncachedKeyPointers),
     put_keys = (\<lambda>_ c. c) \<rparr>"

definition PageStateCache_invalidate :: "page_state_cache \<Rightarrow> page_state_cache" where
  "PageStateCache_invalidate c =
    (let c = c\<lparr> aps_dirt_tracker := tracker_unmark_dirty (aps_dirt_tracker c) \<rparr>;
         c = put_states PageStateCache_private (ps_invalidate (states_of PageStateCache_private c)) c
     in put_pointers PageStateCache_private (pp_invalidate (pointers_of PageStateCache_private c)) c)"

record page_pointer_cache =
  app_dirt_tracker :: "DirtTracker"
  app_page_states :: "page_state option list"
  app_after_erased_pointers :: "nat option list"
  app_after_written_pointers :: "nat option list"

definition PagePointerCache_array :: "nat \<Rightarrow> page_pointer_cache" where
  "PagePointerCache_array pages = \<lparr> app_dirt_tracker = DirtTracker_new,
     app_page_states = replicate pages None,
     app_after_erased_pointers = replicate pages None,
     app_after_written_pointers = replicate pages None \<rparr>"

definition PagePointerCache_private :: "page_pointer_cache private_cache" where
  "PagePointerCache_private = \<lparr>
     dirt_of = (\<lambda>c. Some (app_dirt_tracker c)),
     put_dirt = (\<lambda>d c. c\<lparr> app_dirt_tracker := d \<rparr>),
     states_of = (\<lambda>c. CachedPageStates (app_page_states c)),
     put_states = (\<lambda>x c. case x of CachedPageStates ps \<Rightarrow> c\<lparr> app_page_states := ps \<rparr> | UncachedPageStates \<Rightarrow> c),
     pointers_of = (\<lambda>c. CachedPagePointers (app_after_erased_pointers c) (app_after_written_pointers c)),
     put_pointers = (\<lambda>x c. case x of
         CachedPagePointers es ws \<Rightarrow> c\<lparr> app_after_erased_pointers := es, app_after_written_pointers := ws \<rparr>
       | UncachedPagePointers \<Rightarrow> c) \<rparr>"

definition PagePointerCache_keys :: "(page_pointer_cache, 'k) private_key_cache" where
  "PagePointerCache_keys = \<lparr>
     keys_of = (\<lambda>_. UncachedKeyPointers),
     put_keys = (\<lambda>_ c. c) \<rparr>"

definition PagePointerCache_invalidate :: "page_pointer_cache \<Rightarrow> page_pointer_cache" where
  "PagePointerCache_invalidate c =
    (let c = c\<lparr> app_dirt_tracker := tracker_unmark_dirty (app_dirt_tracker c) \<rparr>;
         c = put_states PagePointerCache_private (ps_invalidate (states_of PagePointerCache_private c)) c
     in put_pointers PagePointerCache_private (pp_invalidate (pointers_of PagePointerCache_private c)) c)"

record 'k key_pointer_cache =
  akp_dirt_tracker :: "DirtTracker"
  akp_page_states :: "page_state option list"
  akp_after_erased_pointers :: "nat option list"
  akp_after_written_pointers :: "nat option list"
  akp_key_pointers :: "('k \<times> nat) option list"

definition KeyPointerCache_array :: "nat \<Rightarrow> nat \<Rightarrow> 'k key_pointer_cache" where
  "KeyPointerCache_array pages keys = \<lparr> akp_dirt_tracker = DirtTracker_new,
     akp_page_states = replicate pages None,
     akp_after_erased_pointers = replicate pages None,
     akp_after_written_pointers = replicate pages None,
     akp_key_pointers = replicate keys None \<rparr>"

definition KeyPointerCache_private :: "'k key_pointer_cache private_cache" where
  "KeyPointerCache_private = \<lparr>
     dirt_of = (\<lambda>c. Some (akp_dirt_tracker c)),
     put_dirt = (\<lambda>d c. c\<lparr> akp_dirt_tracker := d \<rparr>),
     states_of = (\<lambda>c. CachedPageStates (akp_page_states c)),
     put_states = (\<lambda>x c. case x of CachedPageStates ps \<Rightarrow> c\<lparr> akp_page_states := ps \<rparr> | UncachedPageStates \<Rightarrow> c),
     pointers_of = (\<lambda>c. CachedPagePointers (akp_after_erased_pointers c) (akp_after_written_pointers c)),
     put_pointers = (\<lambda>x c. case x of
         CachedPagePointers es ws \<Rightarrow> c\<lparr> akp_after_erased_pointers := es, akp_after_written_pointers := ws \<rparr>
       | UncachedPagePointers \<Rightarrow> c) \<rparr>"

definition KeyPointerCache_keys :: "('k key_pointer_cache, 'k) private_key_cache" where
  "KeyPointerCache_keys = \<lparr>
     keys_of = (\<lambda>c. CachedKeyPointers (akp_key_pointers c)),
     put_keys = (\<lambda>x c. case x of CachedKeyPointers ks \<Rightarrow> c\<lparr> akp_key_pointers := ks \<rparr> | UncachedKeyPointers \<Rightarrow> c) \<rparr>"

definition KeyPointerCache_invalidate :: "'k key_pointer_cache \<Rightarrow> 'k key_pointer_cache" where
  "KeyPointerCache_invalidate c =
    (let c = c\<lparr> akp_dirt_tracker := tracker_unmark_dirty (akp_dirt_tracker c) \<rparr>;
         c = put_states KeyPointerCache_private (ps_invalidate (states_of KeyPointerCache_private c)) c;
         c = put_pointers KeyPointerCache_private (pp_invalidate (pointers_of KeyPointerCache_private c)) c
     in put_keys KeyPointerCache_keys (kp_invalidate (keys_of KeyPointerCache_keys c)) c)"

record heap_page_state_cache =
  hps_dirt_tracker :: "DirtTracker"
  hps_page_states :: "page_state option list"

definition HeapPageStateCache_new :: "nat \<Rightarrow> heap_page_state_cache" where
  "HeapPageStateCache_new pages = \<lparr> hps_dirt_tracker = DirtTracker_new,
     hps_page_states = replicate pages None \<rparr>"

definition HeapPageStateCache_private :: "heap_page_state_cache private_cache" where
  "HeapPageStateCache_private = \<lparr>
     dirt_of = (\<lambda>c. Some (hps_dirt_tracker c)),
     put_dirt = (\<lambda>d c. c\<lparr> hps_dirt_tracker := d \<rparr>),
     states_of = (\<lambda>c. CachedPageStates (hps_page_states c)),
     put_states = (\<lambda>x c. case x of CachedPageStates ps \<Rightarrow> c\<lparr> hps_page_states := ps \<rparr> | UncachedPageStates \<Rightarrow> c),
     pointers_of = (\<lambda>_. UncachedPagePointers),
     put_pointers = (\<lambda>_ c. c) \<rparr>"

definition HeapPageStateCache_keys :: "(heap_page_state_cache, 'k) private_key_cache" where
  "HeapPageStateCache_keys = \<lparr>
     keys_of = (\<lambda>_. UncachedKeyPointers),
     put_keys = (\<lambda>_ c. c) \<rparr>"

definition HeapPageStateCache_invalidate :: "heap_page_state_cache \<Rightarrow> heap_page_state_cache" where
  "HeapPageStateCache_invalidate c =
    (let c = c\<lparr> hps_dirt_tracker := tracker_unmark_dirty (hps_dirt_tracker c) \<rparr>;
         c = put_states HeapPageStateCache_private (ps_invalidate (states_of HeapPageStateCache_private c)) c
     in put_pointers HeapPageStateCache_private (pp_invalidate (pointers_of HeapPageStateCache_private c)) c)"

record heap_page_pointer_cache =
  hpp_dirt_tracker :: "DirtTracker"
  hpp_page_states :: "page_state option list"
  hpp_after_erased_pointers :: "nat option list"
  hpp_after_written_pointers :: "nat option list"

definition HeapPagePointerCache_new :: "nat \<Rightarrow> heap_page_pointer_cache" where
  "HeapPagePointerCache_new pages = \<lparr> hpp_dirt_tracker = DirtTracker_new,
     hpp_page_states = replicate pages None,
     hpp_after_erased_pointers = replicate pages None,
     hpp_after_written_pointers = replicate pages None \<rparr>"

definition HeapPagePointerCache_private :: "heap_page_pointer_cache private_cache" where
  "HeapPagePointerCache_private = \<lparr>
     dirt_of = (\<lambda>c. Some (hpp_dirt_tracker c)),
     put_dirt = (\<lambda>d c. c\<lparr> hpp_dirt_tracker := d \<rparr>),
     states_of = (\<lambda>c. CachedPageStates (hpp_page_states c)),
     put_states = (\<lambda>x c. case x of CachedPageStates ps \<Rightarrow> c\<lparr> hpp_page_states := ps \<rparr> | UncachedPageStates \<Rightarrow> c),
     pointers_of = (\<lambda>c. CachedPagePointers (hpp_after_erased_pointers c) (hpp_after_written_pointers c)),
     put_pointers = (\<lambda>x c. case x of
         CachedPagePointers es ws \<Rightarrow> c\<lparr> hpp_after_erased_pointers := es, hpp_after_written_pointers := ws \<rparr>
       | UncachedPagePointers \<Rightarrow> c) \<rparr>"

definition HeapPagePointerCache_keys :: "(heap_page_pointer_cache, 'k) private_key_cache" where
  "HeapPagePointerCache_keys = \<lparr>
     keys_of = (\<lambda>_. UncachedKeyPointers),
     put_keys = (\<lambda>_ c. c) \<rparr>"

definition HeapPagePointerCache_invalidate :: "heap_page_pointer_cache \<Rightarrow> heap_page_pointer_cache" where
  "HeapPagePointerCache_invalidate c =
    (let c = c\<lparr> hpp_dirt_tracker := tracker_unmark_dirty (hpp_dirt_tracker c) \<rparr>;
         c = put_states HeapPagePointerCache_private (ps_invalidate (states_of HeapPagePointerCache_private c)) c
     in put_pointers HeapPagePointerCache_private (pp_invalidate (pointers_of HeapPagePointerCache_private c)) c)"

record 'k heap_key_pointer_cache =
  hkp_dirt_tracker :: "DirtTracker"
  hkp_page_states :: "page_state option list"
  hkp_after_erased_pointers :: "nat option list"
  hkp_after_written_pointers :: "nat option list"
  hkp_key_pointers :: "('k \<times> nat) option list"

definition HeapKeyPointerCache_new :: "nat \<Rightarrow> nat \<Rightarrow> 'k heap_key_pointer_cache" where
  "HeapKeyPointerCache_new pages keys = \<lparr> hkp_dirt_tracker = DirtTracker_new,
     hkp_page_states = replicate pages None,
     hkp_after_erased_pointers = replicate pages None,
     hkp_after_written_pointers = replicate pages None,
     hkp_key_pointers = replicate keys None \<rparr>"

definition HeapKeyPointerCache_private :: "'k heap_key_pointer_cache private_cache" where
  "HeapKeyPointerCache_private = \<lparr>
     dirt_of = (\<lambda>c. Some (hkp_dirt_tracker c)),
     put_dirt = (\<lambda>d c. c\<lparr> hkp_dirt_tracker := d \<rparr>),
     states_of = (\<lambda>c. CachedPageStates (hkp_page_states c)),
     put_states = (\<lambda>x c. case x of CachedPageStates ps \<Rightarrow> c\<lparr> hkp_page_states := ps \<rparr> | UncachedPageStates \<Rightarrow> c),
     pointers_of = (\<lambda>c. CachedPagePointers (hkp_after_erased_pointers c) (hkp_after_written_pointers c)),
     put_pointers = (\<lambda>x c. case x of
         CachedPagePointers es ws \<Rightarrow> c\<lparr> hkp_after_erased_pointers := es, hkp_after_written_pointers := ws \<rparr>
       | UncachedPagePointers \<Rightarrow> c) \<rparr>"

definition HeapKeyPointerCache_keys :: "('k heap_key_pointer_cache, 'k) private_key_cache" where
  "HeapKeyPointerCache_keys = \<lparr>
     keys_of = (\<lambda>c. CachedKeyPointers (hkp_key_pointers c)),
     put_keys = (\<lambda>x c. case x of CachedKeyPointers ks \<Rightarrow> c\<lparr> hkp_key_pointers := ks \<rparr> | UncachedKeyPointers \<Rightarrow> c) \<rparr>"

definition HeapKeyPointerCache_invalidate :: "'k heap_key_pointer_cache \<Rightarrow> 'k heap_key_pointer_cache" where
  "HeapKeyPointerCache_invalidate c =
    (let c = c\<lparr> hkp_dirt_tracker := tracker_unmark_dirty (hkp_dirt_tracker c) \<rparr>;
         c = put_states HeapKeyPointerCache_private (ps_invalidate (states_of HeapKeyPointerCache_private c)) c;
         c = put_pointers HeapKeyPointerCache_private (pp_invalidate (pointers_of HeapKeyPointerCache_private c)) c
     in put_keys HeapKeyPointerCache_keys (kp_invalidate (keys_of HeapKeyPointerCache_keys c)) c)"

section \<open>The record the storage is modelled with\<close>

text \<open>What the storage can see of a cache.\<close>

definition cache_view :: "'c private_cache \<Rightarrow> ('c, 'k) private_key_cache \<Rightarrow> 'c \<Rightarrow> 'k cache" where
  "cache_view P K c = \<lparr> dirt_tracker = dirt_of P c, page_states = states_of P c,
     page_pointers = pointers_of P c, key_pointers = keys_of K c \<rparr>"

definition same_states :: "page_states_cache \<Rightarrow> page_states_cache \<Rightarrow> bool" where
  "same_states x y \<longleftrightarrow> (x = UncachedPageStates \<longleftrightarrow> y = UncachedPageStates)"

definition same_pointers :: "page_pointers_cache \<Rightarrow> page_pointers_cache \<Rightarrow> bool" where
  "same_pointers x y \<longleftrightarrow> (x = UncachedPagePointers \<longleftrightarrow> y = UncachedPagePointers)"

definition same_keys :: "'k key_pointers_cache \<Rightarrow> 'k key_pointers_cache \<Rightarrow> bool" where
  "same_keys x y \<longleftrightarrow> (x = UncachedKeyPointers \<longleftrightarrow> y = UncachedKeyPointers)"

lemma notices_keep_kind [simp]:
  "same_states (ps_notice_page_state x i st) x" "same_states (ps_invalidate x) x"
  "same_pointers (pp_notice_page_state i st y) y" "same_pointers (pp_notice_item_written F r a h y) y"
  "same_pointers (pp_notice_item_erased F r a h y) y" "same_pointers (pp_invalidate y) y"
  "same_keys (kp_notice_key_erased key z) z" "same_keys (kp_invalidate z) z"
  "kp_notice_key_location key a z = Some z' \<Longrightarrow> same_keys z' z"
  by (cases x; simp add: same_states_def; fail
    | cases y; simp add: same_pointers_def Let_def split: option.splits; fail
    | cases z; auto simp: same_keys_def split: option.splits if_splits; fail)+

lemma mark_dirty_fields [simp]:
  "page_states (mark_dirty c) = page_states c" "page_pointers (mark_dirty c) = page_pointers c"
  "key_pointers (mark_dirty c) = key_pointers c"
  by (simp_all add: mark_dirty_def)

section \<open>Sequences of calls\<close>

datatype 'k cache_call =
    Is_dirty | Mark_dirty | Unmark_dirty | Invalidate
  | Get_page_state nat
  | Notice_page_state nat page_state bool
  | First_item_after_erased nat
  | First_item_after_written nat
  | Notice_item_written nat item_header
  | Notice_item_erased nat item_header
  | Key_location 'k
  | Notice_key_location 'k nat bool
  | Notice_key_erased 'k

datatype cache_answer =
    Done | Panicked | Dirty bool | State "page_state option" | Location "nat option"

text \<open>A call answers and changes the cache, or panics, which is \<open>None\<close>.\<close>

fun impl_call ::
  "('s, 'e) nor_flash \<Rightarrow> flash_range \<Rightarrow> 'c private_cache \<Rightarrow> ('c, 'k) private_key_cache \<Rightarrow> ('c \<Rightarrow> 'c)
   \<Rightarrow> 'k cache_call \<Rightarrow> 'c \<Rightarrow> (cache_answer \<times> 'c) option"
where
  "impl_call F r P K inval Is_dirty c = Some (Dirty (impl_is_dirty P c), c)"
| "impl_call F r P K inval Mark_dirty c = Some (Done, impl_mark_dirty P c)"
| "impl_call F r P K inval Unmark_dirty c = Some (Done, impl_unmark_dirty P c)"
| "impl_call F r P K inval Invalidate c = Some (Done, inval c)"
| "impl_call F r P K inval (Get_page_state i) c = Some (State (impl_get_page_state P i c), c)"
| "impl_call F r P K inval (Notice_page_state i st d) c = Some (Done, impl_notice_page_state P i st d c)"
| "impl_call F r P K inval (First_item_after_erased i) c = Some (Location (impl_first_item_after_erased P i c), c)"
| "impl_call F r P K inval (First_item_after_written i) c = Some (Location (impl_first_item_after_written P i c), c)"
| "impl_call F r P K inval (Notice_item_written a h) c = Some (Done, impl_notice_item_written F P r a h c)"
| "impl_call F r P K inval (Notice_item_erased a h) c = Some (Done, impl_notice_item_erased F P r a h c)"
| "impl_call F r P K inval (Key_location key) c = Some (Location (impl_key_location K key c), c)"
| "impl_call F r P K inval (Notice_key_location key a d) c =
     map_option (Pair Done) (impl_notice_key_location P K key a d c)"
| "impl_call F r P K inval (Notice_key_erased key) c = Some (Done, impl_notice_key_erased P K key c)"

fun model_call ::
  "('s, 'e) nor_flash \<Rightarrow> flash_range \<Rightarrow> 'k cache_call \<Rightarrow> 'k cache \<Rightarrow> (cache_answer \<times> 'k cache) option"
where
  "model_call F r Is_dirty c = Some (Dirty (is_dirty c), c)"
| "model_call F r Mark_dirty c = Some (Done, mark_dirty c)"
| "model_call F r Unmark_dirty c = Some (Done, unmark_dirty c)"
| "model_call F r Invalidate c = Some (Done, invalidate_cache_state c)"
| "model_call F r (Get_page_state i) c = Some (State (cached_page_state c i), c)"
| "model_call F r (Notice_page_state i st d) c = Some (Done, notice_page_state i st d c)"
| "model_call F r (First_item_after_erased i) c = Some (Location (first_item_after_erased c i), c)"
| "model_call F r (First_item_after_written i) c = Some (Location (first_item_after_written c i), c)"
| "model_call F r (Notice_item_written a h) c = Some (Done, notice_item_written F r a h c)"
| "model_call F r (Notice_item_erased a h) c = Some (Done, notice_item_erased F r a h c)"
| "model_call F r (Key_location key) c = Some (Location (key_location c key), c)"
| "model_call F r (Notice_key_location key a d) c = map_option (Pair Done) (notice_key_location key a d c)"
| "model_call F r (Notice_key_erased key) c = Some (Done, notice_key_erased key c)"

fun answers :: "('call \<Rightarrow> 'c \<Rightarrow> (cache_answer \<times> 'c) option) \<Rightarrow> 'call list \<Rightarrow> 'c \<Rightarrow> cache_answer list" where
  "answers f [] c = []"
| "answers f (call # calls) c = (case f call c of
     Some (a, c') \<Rightarrow> a # answers f calls c'
   | None \<Rightarrow> [Panicked])"

lemma answers_simulate:
  assumes "\<And>call c. map_option (map_prod id view) (f call c) = g call (view c)"
  shows "answers f calls c = answers g calls (view c)"
proof (induction calls arbitrary: c)
  case (Cons call calls)
  show ?case using assms [of call c] Cons by (cases "f call c"; cases "g call (view c)") auto
qed simp

locale cache_type =
  fixes P :: "'c private_cache" and K :: "('c, 'k) private_key_cache" and invalidate :: "'c \<Rightarrow> 'c"
  assumes view_put_dirt: "dirt_of P c \<noteq> None \<Longrightarrow>
      cache_view P K (put_dirt P d c) = (cache_view P K c)\<lparr> dirt_tracker := Some d \<rparr>"
    and view_put_states: "same_states x (states_of P c) \<Longrightarrow>
      cache_view P K (put_states P x c) = (cache_view P K c)\<lparr> page_states := x \<rparr>"
    and view_put_pointers: "same_pointers y (pointers_of P c) \<Longrightarrow>
      cache_view P K (put_pointers P y c) = (cache_view P K c)\<lparr> page_pointers := y \<rparr>"
    and view_put_keys: "same_keys z (keys_of K c) \<Longrightarrow>
      cache_view P K (put_keys K z c) = (cache_view P K c)\<lparr> key_pointers := z \<rparr>"
    and view_invalidate: "cache_view P K (invalidate c) = invalidate_cache_state (cache_view P K c)"
begin

lemma view_fields:
  "dirt_of P c = dirt_tracker (cache_view P K c)" "states_of P c = page_states (cache_view P K c)"
  "pointers_of P c = page_pointers (cache_view P K c)" "keys_of K c = key_pointers (cache_view P K c)"
  by (simp_all add: cache_view_def)

lemma view_marks:
  "cache_view P K (impl_mark_dirty P c) = mark_dirty (cache_view P K c)"
  "cache_view P K (impl_unmark_dirty P c) = unmark_dirty (cache_view P K c)"
  by (cases "dirt_of P c"; simp add: impl_mark_dirty_def impl_unmark_dirty_def mark_dirty_def unmark_dirty_def
      tracker_mark_dirty_def tracker_unmark_dirty_def view_put_dirt; simp add: cache_view_def)+

lemma view_questions:
  "impl_is_dirty P c = is_dirty (cache_view P K c)"
  "impl_get_page_state P i c = cached_page_state (cache_view P K c) i"
  "impl_first_item_after_erased P i c = first_item_after_erased (cache_view P K c) i"
  "impl_first_item_after_written P i c = first_item_after_written (cache_view P K c) i"
  "impl_key_location K key c = key_location (cache_view P K c) key"
  by (simp_all add: impl_is_dirty_def tracker_is_dirty_def is_dirty_def impl_get_page_state_def
      cached_page_state_def impl_first_item_after_erased_def first_item_after_erased_def
      impl_first_item_after_written_def first_item_after_written_def impl_key_location_def key_location_def
      cache_view_def cong: option.case_cong)

lemma view_notices:
  "cache_view P K (impl_notice_page_state P i st d c) = notice_page_state i st d (cache_view P K c)"
  "cache_view P K (impl_notice_item_written F P r a h c) = notice_item_written F r a h (cache_view P K c)"
  "cache_view P K (impl_notice_item_erased F P r a h c) = notice_item_erased F r a h (cache_view P K c)"
  "cache_view P K (impl_notice_key_erased P K key c) = notice_key_erased key (cache_view P K c)"
  by (simp_all add: impl_notice_page_state_def notice_page_state_def Let_def impl_notice_item_written_def
      notice_item_written_def impl_notice_item_erased_def notice_item_erased_def
      impl_notice_key_erased_def notice_key_erased_def view_put_states view_put_pointers view_put_keys
      view_marks view_fields)

lemma view_notice_key_location:
  "map_option (cache_view P K) (impl_notice_key_location P K key a d c)
     = notice_key_location key a d (cache_view P K c)"
  by (cases "kp_notice_key_location key a (keys_of K c)")
    (auto simp: impl_notice_key_location_def notice_key_location_def Let_def view_put_keys view_marks view_fields
      mark_dirty_def)

lemma view_call: "map_option (map_prod id (cache_view P K)) (impl_call F r P K invalidate call c)
    = model_call F r call (cache_view P K c)"
proof (cases call)
  case (Notice_key_location key a d)
  then show ?thesis using view_notice_key_location [of key a d c]
    by (auto simp: option.map_comp comp_def simp flip: view_notice_key_location)
qed (simp_all add: view_questions view_marks view_notices view_invalidate)

lemma view_answers:
  "answers (impl_call F r P K invalidate) calls c = answers (model_call F r) calls (cache_view P K c)"
  by (rule answers_simulate) (rule view_call)

end

lemmas view_defs = cache_view_def same_states_def same_pointers_def same_keys_def Let_def
  invalidate_cache_state_def unmark_dirty_def tracker_unmark_dirty_def

lemmas NoCache_defs = NoCache_private_def NoCache_keys_def NoCache_invalidate_def
lemmas PageStateCache_defs = PageStateCache_private_def PageStateCache_keys_def PageStateCache_invalidate_def
lemmas PagePointerCache_defs = PagePointerCache_private_def PagePointerCache_keys_def PagePointerCache_invalidate_def
lemmas KeyPointerCache_defs = KeyPointerCache_private_def KeyPointerCache_keys_def KeyPointerCache_invalidate_def
lemmas HeapPageStateCache_defs = HeapPageStateCache_private_def HeapPageStateCache_keys_def HeapPageStateCache_invalidate_def
lemmas HeapPagePointerCache_defs = HeapPagePointerCache_private_def HeapPagePointerCache_keys_def HeapPagePointerCache_invalidate_def
lemmas HeapKeyPointerCache_defs = HeapKeyPointerCache_private_def HeapKeyPointerCache_keys_def HeapKeyPointerCache_invalidate_def

interpretation no_cache: cache_type NoCache_private NoCache_keys NoCache_invalidate
  by unfold_locales (auto simp: NoCache_defs view_defs split: page_states_cache.splits page_pointers_cache.splits
      key_pointers_cache.splits)

interpretation array_states: cache_type PageStateCache_private PageStateCache_keys PageStateCache_invalidate
  by unfold_locales (auto simp: PageStateCache_defs view_defs split: page_states_cache.splits page_pointers_cache.splits
      key_pointers_cache.splits)

interpretation array_pointers: cache_type PagePointerCache_private PagePointerCache_keys PagePointerCache_invalidate
  by unfold_locales (auto simp: PagePointerCache_defs view_defs split: page_states_cache.splits page_pointers_cache.splits
      key_pointers_cache.splits)

interpretation array_keys: cache_type KeyPointerCache_private KeyPointerCache_keys KeyPointerCache_invalidate
  by unfold_locales (auto simp: KeyPointerCache_defs view_defs split: page_states_cache.splits page_pointers_cache.splits
      key_pointers_cache.splits)

interpretation heap_states: cache_type HeapPageStateCache_private HeapPageStateCache_keys HeapPageStateCache_invalidate
  by unfold_locales (auto simp: HeapPageStateCache_defs view_defs split: page_states_cache.splits page_pointers_cache.splits
      key_pointers_cache.splits)

interpretation heap_pointers: cache_type HeapPagePointerCache_private HeapPagePointerCache_keys HeapPagePointerCache_invalidate
  by unfold_locales (auto simp: HeapPagePointerCache_defs view_defs split: page_states_cache.splits page_pointers_cache.splits
      key_pointers_cache.splits)

interpretation heap_keys: cache_type HeapKeyPointerCache_private HeapKeyPointerCache_keys HeapKeyPointerCache_invalidate
  by unfold_locales (auto simp: HeapKeyPointerCache_defs view_defs split: page_states_cache.splits page_pointers_cache.splits
      key_pointers_cache.splits)

lemma view_new [simp]:
  "cache_view NoCache_private NoCache_keys NoCache = NoCache_new"
  "cache_view PageStateCache_private PageStateCache_keys (PageStateCache_array n) = (PageStateCache_new n)"
  "cache_view PagePointerCache_private PagePointerCache_keys (PagePointerCache_array n) = (PagePointerCache_new n)"
  "cache_view KeyPointerCache_private KeyPointerCache_keys (KeyPointerCache_array n m) = (KeyPointerCache_new n m)"
  "cache_view HeapPageStateCache_private HeapPageStateCache_keys (HeapPageStateCache_new n) = (PageStateCache_new n)"
  "cache_view HeapPagePointerCache_private HeapPagePointerCache_keys (HeapPagePointerCache_new n) = (PagePointerCache_new n)"
  "cache_view HeapKeyPointerCache_private HeapKeyPointerCache_keys (HeapKeyPointerCache_new n m) = (KeyPointerCache_new n m)"
  by (simp_all add: view_defs DirtTracker_new_def NoCache_defs PageStateCache_defs PagePointerCache_defs KeyPointerCache_defs HeapPageStateCache_defs HeapPagePointerCache_defs HeapKeyPointerCache_defs NoCache_new_def PageStateCache_new_def
      PagePointerCache_new_def KeyPointerCache_new_def
      PageStateCache_array_def PagePointerCache_array_def KeyPointerCache_array_def HeapPageStateCache_new_def HeapPagePointerCache_new_def HeapKeyPointerCache_new_def)

text \<open>
  C36: every cache type of the crate, array or heap, answers any sequence of calls as the cache record
  does that the storage is modelled with, panics included; so what is proved of the storage for
  all cache records holds for each type.
\<close>

theorem cache_types_answer_alike:
  "answers (impl_call F r NoCache_private NoCache_keys NoCache_invalidate) calls NoCache
     = answers (model_call F r) calls NoCache_new
   \<and> answers (impl_call F r PageStateCache_private PageStateCache_keys PageStateCache_invalidate) calls (PageStateCache_array n)
     = answers (model_call F r) calls (PageStateCache_new n)
   \<and> answers (impl_call F r PagePointerCache_private PagePointerCache_keys PagePointerCache_invalidate) calls (PagePointerCache_array n)
     = answers (model_call F r) calls (PagePointerCache_new n)
   \<and> answers (impl_call F r KeyPointerCache_private KeyPointerCache_keys KeyPointerCache_invalidate) calls (KeyPointerCache_array n m)
     = answers (model_call F r) calls (KeyPointerCache_new n m)
   \<and> answers (impl_call F r HeapPageStateCache_private HeapPageStateCache_keys HeapPageStateCache_invalidate) calls (HeapPageStateCache_new n)
     = answers (model_call F r) calls (PageStateCache_new n)
   \<and> answers (impl_call F r HeapPagePointerCache_private HeapPagePointerCache_keys HeapPagePointerCache_invalidate) calls (HeapPagePointerCache_new n)
     = answers (model_call F r) calls (PagePointerCache_new n)
   \<and> answers (impl_call F r HeapKeyPointerCache_private HeapKeyPointerCache_keys HeapKeyPointerCache_invalidate) calls (HeapKeyPointerCache_new n m)
     = answers (model_call F r) calls (KeyPointerCache_new n m)"
  by (simp add: no_cache.view_answers
      array_states.view_answers
      array_pointers.view_answers
      array_keys.view_answers
      heap_states.view_answers
      heap_pointers.view_answers
      heap_keys.view_answers)

end
