(* ===== verification/Fuzz.thy ===== *)
theory Fuzz
  imports Item MockFlash
begin

text \<open>
  What the fuzz targets of \<open>src/fuzz/fuzz_targets\<close> share: the caches they run with, the bytes they
  draw, and \<open>get_item_presence\<close> of \<open>src/src/mock_flash.rs\<close>, by which they find out after a power
  loss whether an item was written. The random generator of the crate \<open>rand_pcg\<close> is a parameter: its
  state and a function that draws a byte.
\<close>

abbreviation fuzz_flash :: "(mock_flash, mock_flash_error) nor_flash" where
  "fuzz_flash \<equiv> mock_ops 4 256"

abbreviation fuzz_range :: flash_range where
  "fuzz_range \<equiv> (0, 0x1000)"

datatype fuzz_cache_type =
    Fuzz_NoCache | Fuzz_PageStateCache | Fuzz_PagePointerCache | Fuzz_KeyPointerCache
  | Fuzz_HeapPageStateCache | Fuzz_HeapPagePointerCache | Fuzz_HeapKeyPointerCache

definition fuzz_cache :: "fuzz_cache_type \<Rightarrow> 'k cache" where
  "fuzz_cache cache_type = (case cache_type of
     Fuzz_NoCache \<Rightarrow> NoCache_new
   | Fuzz_PageStateCache \<Rightarrow> PageStateCache_new 4
   | Fuzz_PagePointerCache \<Rightarrow> PagePointerCache_new 4
   | Fuzz_KeyPointerCache \<Rightarrow> KeyPointerCache_new 4 64
   | Fuzz_HeapPageStateCache \<Rightarrow> PageStateCache_new 4
   | Fuzz_HeapPagePointerCache \<Rightarrow> PagePointerCache_new 4
   | Fuzz_HeapKeyPointerCache \<Rightarrow> KeyPointerCache_new 4 64)"

primrec random_bytes :: "('g \<Rightarrow> u8 \<times> 'g) \<Rightarrow> nat \<Rightarrow> 'g \<Rightarrow> u8 list \<times> 'g" where
  "random_bytes rand 0 g = ([], g)"
| "random_bytes rand (Suc n) g = (case rand g of (b, g1) \<Rightarrow>
     case random_bytes rand n g1 of (bs, g2) \<Rightarrow> (b # bs, g2))"

lemma length_random_bytes [simp]: "length (fst (random_bytes rand n g)) = n"
  by (induction n arbitrary: g) (auto split: prod.splits, metis fst_conv)

section \<open>Is an item there?\<close>

text \<open>The loop over the headers of a page, as many rounds as the page has bytes.\<close>

primrec presence_rounds ::
  "(mock_flash, mock_flash_error) nor_flash \<Rightarrow> nat \<Rightarrow> nat \<Rightarrow> nat
    \<Rightarrow> ((mock_flash, unit) storage \<times> header_iter, mock_flash_error error, bool option) m"
where
  "presence_rounds F target_item_address page_end 0 = diverge"
| "presence_rounds F target_item_address page_end (Suc fuel) =
     bnd (traverse F (\<lambda>_ _. False)) (\<lambda>(found, item_address). case found of
       None \<Rightarrow> ret None
     | Some h \<Rightarrow>
         if item_address \<le> target_item_address \<and> target_item_address < next_item_address F h item_address
         then bnd (lift_local (read_item F h item_address page_end)) (\<lambda>maybe_item. case maybe_item of
             CorruptedItem _ _ \<Rightarrow> ret (Some False)
           | ErasedItem _ _ \<Rightarrow> ret (Some False)
           | Present _ \<Rightarrow> ret (Some True))
         else presence_rounds F target_item_address page_end fuel)"

text \<open>The mock flash reads itself with a buffer of 16 KiB; \<open>unwrap\<close> panics on every error.\<close>

definition get_item_presence ::
  "(mock_flash, mock_flash_error) nor_flash \<Rightarrow> nat \<Rightarrow> (mock_flash, 'e, bool option) m"
where
  "get_item_presence F target_item_address = (\<lambda>s.
     let full = (0, length (mdata s));
         page = calculate_page_index F full target_item_address;
         page_start = calculate_page_address F full page + WORD_SIZE F;
         page_end = calculate_page_end_address F full page - WORD_SIZE F
     in if \<not> target_item_address < length (mdata s) then (Ok None, s)
        else case with_local (header_iter_new page_start page_end)
               (presence_rounds F target_item_address page_end (ERASE_SIZE F + 1))
               \<lparr> flash = s, flash_range = full, cache = NoCache_new, data_buffer = replicate (1024 * 16) 0 \<rparr> of
            (Ok present, t) \<Rightarrow> (Ok present, flash t)
          | (Err _, t) \<Rightarrow> (Panic, flash t)
          | (Panic, t) \<Rightarrow> (Panic, flash t)
          | (Diverge, t) \<Rightarrow> (Diverge, flash t))"

section \<open>The flash the targets run on\<close>

lemma fuzz_driver: "multiwrite_nor_flash fuzz_flash (mock_ok 4) mdata"
  by (rule mock_multiwrite) simp_all

lemmas fuzz_sizes = mock_ops_def WORD_SIZE_def MAX_WORD_SIZE_def header_slice_len_def calculate_page_size_def
  round_up_to_alignment_def next_multiple_of_def ItemHeader_LENGTH_def

lemma fuzz_count: "page_count fuzz_flash fuzz_range = 4"
  by (simp add: page_count_def mock_ops_def)

lemma fuzz_cache_knows_nothing:
  "cached_page_state (fuzz_cache t) i = None \<and> first_item_after_written (fuzz_cache t) i = None
    \<and> first_item_after_erased (fuzz_cache t) i = None"
  by (cases t) (simp_all add: fuzz_cache_def)

end
