(* ===== verification/FuzzQueue.thy ===== *)
theory FuzzQueue
  imports QueueSpace Fuzz
begin

text \<open>
  \<open>src/fuzz/fuzz_targets/queue.rs\<close>: random operations on a queue, whose replies are compared with
  those of a \<open>VecDeque\<close>. A failed comparison is a panic, and so is every error but a loss of power.
  The theorem is that on a mock flash that neither counts writes nor loses power no comparison fails:
  whatever the operations, the target does not panic.
\<close>

section \<open>The target\<close>

datatype queue_fuzz_op = Op_Push u8 | Op_Iterate "bool list" | Op_Peek | Op_Pop

record queue_fuzz_input =
  qf_seed :: "64 word"
  qf_fuel :: u16
  qf_ops :: "queue_fuzz_op list"
  qf_cache_type :: fuzz_cache_type

text \<open>The storage with the buffer, the \<open>VecDeque\<close> and the random generator.\<close>

record 'g queue_fuzz =
  fq_storage :: "(mock_flash, unit) storage"
  fq_order :: "u8 list list"
  fq_rng :: 'g

type_synonym ('g, 'a) queue_fuzz_m = "('g queue_fuzz, unit, 'a) m"

definition on_fq :: "((mock_flash, unit) storage, unit, 'a) m \<Rightarrow> ('g, 'a) queue_fuzz_m" where
  "on_fq x = zoom fq_storage (\<lambda>s t. t\<lparr> fq_storage := s \<rparr>) x"

definition on_order :: "(u8 list list \<Rightarrow> u8 list list) \<Rightarrow> ('g, unit) queue_fuzz_m" where
  "on_order f = modify (\<lambda>t. t\<lparr> fq_order := f (fq_order t) \<rparr>)"

definition fq_presence :: "nat \<Rightarrow> ('g, bool option) queue_fuzz_m" where
  "fq_presence address = on_fq (zoom flash (\<lambda>f s. s\<lparr> flash := f \<rparr>) (get_item_presence fuzz_flash address))"

definition front :: "'a list \<Rightarrow> 'a option" where
  "front order = (case order of [] \<Rightarrow> None | d # _ \<Rightarrow> Some d)"

definition remove_at :: "nat \<Rightarrow> 'a list \<Rightarrow> 'a list" where
  "remove_at i order = take i order @ drop (Suc i) order"

definition fuzz_push :: "('g \<Rightarrow> u8 \<times> 'g) \<Rightarrow> u8 \<Rightarrow> ('g, unit) queue_fuzz_m" where
  "fuzz_push rand value_len =
     bnd (gets (\<lambda>t. random_bytes rand (unat value_len mod 16) (fq_rng t))) (\<lambda>(val, g).
     sq (modify (\<lambda>t. t\<lparr> fq_rng := g \<rparr>))
     (bnd (on_fq (attempt (find_max_fit fuzz_flash))) (\<lambda>fit. case fit of
        Inl _ \<Rightarrow> panic
      | Inr max_fit \<Rightarrow>
          bnd (gets (\<lambda>t. length (data_buffer (fq_storage t)))) (\<lambda>buf_len.
          sq (assert_that (length val \<le> buf_len))
          (sq (on_fq (modify (\<lambda>s. s\<lparr> data_buffer := overwrite 0 val (data_buffer s) \<rparr>)))
          (bnd (on_fq (attempt (push fuzz_flash val False))) (\<lambda>pushed. case pushed of
             Inr _ \<Rightarrow>
               sq (case max_fit of
                     Some n \<Rightarrow> if length val > n then panic else ret ()
                   | None \<Rightarrow> panic)
                  (on_order (\<lambda>order. order @ [val]))
           | Inl FullStorage \<Rightarrow>
               (case max_fit of
                  Some n \<Rightarrow> if length val \<le> n then panic else ret ()
                | None \<Rightarrow> ret ())
           | Inl (Storage (EarlyShutoff address _)) \<Rightarrow>
               bnd (fq_presence address) (\<lambda>present.
                 if present = Some True then on_order (\<lambda>order. order @ [val]) else ret ())
           | Inl _ \<Rightarrow> panic)))))))"

text \<open>After a loss of power an item that cannot be read any more is taken out of the \<open>VecDeque\<close>.\<close>

definition unless_present :: "nat \<Rightarrow> operation \<Rightarrow> ('g, unit) queue_fuzz_m \<Rightarrow> ('g, unit) queue_fuzz_m" where
  "unless_present address oper gone =
     (if oper \<noteq> Erase
      then bnd (fq_presence address) (\<lambda>present. if present \<noteq> Some True then gone else ret ())
      else ret ())"

definition fuzz_pop :: "('g, unit) queue_fuzz_m" where
  "fuzz_pop =
     bnd (on_fq (attempt (pop fuzz_flash))) (\<lambda>popped. case popped of
       Inr val \<Rightarrow>
         bnd (gets (\<lambda>t. front (fq_order t))) (\<lambda>oldest.
         sq (on_order tl) (assert_that (val = oldest)))
     | Inl (Storage (EarlyShutoff address oper)) \<Rightarrow> unless_present address oper (on_order tl)
     | Inl _ \<Rightarrow> panic)"

text \<open>\<open>False\<close> is the \<open>break\<close> out of the loop over the operations.\<close>

definition fuzz_peek :: "('g, bool) queue_fuzz_m" where
  "fuzz_peek =
     bnd (on_fq (attempt (peek fuzz_flash))) (\<lambda>peeked. case peeked of
       Inr val \<Rightarrow> bnd (gets (\<lambda>t. front (fq_order t))) (\<lambda>oldest. sq (assert_that (val = oldest)) (ret True))
     | Inl (Storage (EarlyShutoff _ Erase)) \<Rightarrow> ret False
     | Inl _ \<Rightarrow> panic)"

text \<open>Operations on the storage and the iterator in it, and on the rest of the state.\<close>

definition on_fq_iter ::
  "((mock_flash, unit) storage \<times> queue_iterator, unit, 'a) m \<Rightarrow> ('g queue_fuzz \<times> queue_iterator, unit, 'a) m"
where
  "on_fq_iter x = zoom (\<lambda>(t, it). (fq_storage t, it)) (\<lambda>(s, it) (t, _). (t\<lparr> fq_storage := s \<rparr>, it)) x"

definition remove_unwrap :: "nat \<Rightarrow> ('g, unit) queue_fuzz_m" where
  "remove_unwrap i =
     bnd (gets (\<lambda>t. length (fq_order t))) (\<lambda>n.
     sq (assert_that (i < n)) (on_order (remove_at i)))"

primrec fuzz_iterate_loop ::
  "bool list \<Rightarrow> nat \<Rightarrow> nat \<Rightarrow> ('g queue_fuzz \<times> queue_iterator, unit, unit) m"
where
  "fuzz_iterate_loop [] i popped_items = ret ()"
| "fuzz_iterate_loop (do_pop # pop_sequence) i popped_items =
     bnd (on_fq_iter (attempt (queue_iterator_next fuzz_flash))) (\<lambda>next_value.
     bnd (checked_minus i popped_items) (\<lambda>index.
     bnd (gets (\<lambda>t. fq_order (fst t))) (\<lambda>order. case next_value of
       Inr (Some entry) \<Rightarrow>
         sq (assert_that (index < length order \<and> item_data_buffer (fst entry) = order ! index))
         (if do_pop
          then bnd (on_fq_iter (attempt (entry_pop fuzz_flash entry))) (\<lambda>popped. case popped of
              Inr val \<Rightarrow>
                sq (assert_that (val = order ! index))
                (sq (lift_local (remove_unwrap index))
                (fuzz_iterate_loop pop_sequence (i + 1) (popped_items + 1)))
            | Inl (Storage (EarlyShutoff address oper)) \<Rightarrow>
                lift_local (unless_present address oper (remove_unwrap index))
            | Inl _ \<Rightarrow> panic)
          else fuzz_iterate_loop pop_sequence (i + 1) popped_items)
     | Inr None \<Rightarrow>
         sq (assert_that (\<not> index < length order))
         (fuzz_iterate_loop pop_sequence (i + 1) popped_items)
     | Inl (Storage (EarlyShutoff address oper)) \<Rightarrow>
         lift_local (unless_present address oper (remove_unwrap index))
     | Inl _ \<Rightarrow> panic)))"

definition fuzz_iterate :: "bool list \<Rightarrow> ('g, unit) queue_fuzz_m" where
  "fuzz_iterate pop_sequence =
     bnd (on_fq (attempt (queue_iterator_new fuzz_flash))) (\<lambda>created. case created of
       Inl _ \<Rightarrow> panic
     | Inr it \<Rightarrow> with_local it (fuzz_iterate_loop pop_sequence 0 0))"

primrec fuzz_queue_op :: "('g \<Rightarrow> u8 \<times> 'g) \<Rightarrow> queue_fuzz_op \<Rightarrow> ('g, bool) queue_fuzz_m" where
  "fuzz_queue_op rand (Op_Push value_len) = sq (fuzz_push rand value_len) (ret True)"
| "fuzz_queue_op rand Op_Pop = sq fuzz_pop (ret True)"
| "fuzz_queue_op rand Op_Peek = fuzz_peek"
| "fuzz_queue_op rand (Op_Iterate pop_sequence) = sq (fuzz_iterate pop_sequence) (ret True)"

primrec fuzz_queue_ops :: "('g \<Rightarrow> u8 \<times> 'g) \<Rightarrow> queue_fuzz_op list \<Rightarrow> ('g, unit) queue_fuzz_m" where
  "fuzz_queue_ops rand [] = ret ()"
| "fuzz_queue_ops rand (oper # opers) =
     bnd (fuzz_queue_op rand oper) (\<lambda>go_on. if go_on then fuzz_queue_ops rand opers else ret ())"

text \<open>What the target starts with; \<open>fuzz_queue\<close> is the target itself.\<close>

definition fuzz_queue_start ::
  "write_count_check \<Rightarrow> nat option \<Rightarrow> fuzz_cache_type \<Rightarrow> 'g \<Rightarrow> 'g queue_fuzz"
where
  "fuzz_queue_start check shutoff cache_type g =
     \<lparr> fq_storage = \<lparr> flash = mock_new 4 4 256 check shutoff, flash_range = fuzz_range,
         cache = fuzz_cache cache_type, data_buffer = replicate 256 0 \<rparr>,
       fq_order = [], fq_rng = g \<rparr>"

definition fuzz_queue ::
  "(64 word \<Rightarrow> 'g) \<Rightarrow> ('g \<Rightarrow> u8 \<times> 'g) \<Rightarrow> queue_fuzz_input \<Rightarrow> (unit, unit) outcome"
where
  "fuzz_queue seed_from_u64 rand input =
     fst (fuzz_queue_ops rand (qf_ops input)
       (fuzz_queue_start Twice (Some (unat (qf_fuel input))) (qf_cache_type input) (seed_from_u64 (qf_seed input))))"

section \<open>The comparisons hold\<close>

interpretation fq: multiwrite_nor_flash fuzz_flash "mock_ok 4" mdata by (rule fuzz_driver)

text \<open>The \<open>VecDeque\<close> is the queue the flash holds, and its items are as short as those that are pushed.\<close>

abbreviation fuzz_repr :: "(mock_flash, unit) storage \<Rightarrow> u8 list list \<Rightarrow> bool" where
  "fuzz_repr \<equiv> queue_repr fuzz_flash (mock_ok 4) mdata fuzz_range"

definition short_items :: "u8 list list \<Rightarrow> bool" where
  "short_items q \<longleftrightarrow> (\<forall>d \<in> set q. length d < 16)"

definition fuzz_agrees :: "'g queue_fuzz \<Rightarrow> bool" where
  "fuzz_agrees t \<longleftrightarrow> fuzz_repr (fq_storage t) (fq_order t) \<and> short_items (fq_order t)
     \<and> length (data_buffer (fq_storage t)) = 256"

lemma fuzz_config: "config_ok fuzz_flash fuzz_range" "header_slice_len fuzz_flash \<le> calculate_page_size fuzz_flash"
  "2 \<le> page_count fuzz_flash fuzz_range"
  unfolding fuzz_count by (simp_all add: config_ok_def fuzz_sizes)

lemma fuzz_item:
  assumes "n < 16"
  shows "round_up_to_alignment fuzz_flash n \<le> 256" "\<not> item_too_big fuzz_flash n"
proof -
  have "round_up_to_alignment fuzz_flash n \<le> n + 4"
    using next_multiple_of_le [of n 4] by (simp add: fuzz_sizes)
  then show "round_up_to_alignment fuzz_flash n \<le> 256" using assms by linarith
  show "\<not> item_too_big fuzz_flash n"
    using assms by (simp add: fuzz_sizes item_too_big_def data_address_def)
qed

lemma short_item_fits: "short_items q \<Longrightarrow> q \<noteq> [] \<Longrightarrow> round_up_to_alignment fuzz_flash (length (hd q)) \<le> 256"
  by (simp add: fuzz_item short_items_def)

lemma short_items_simps [simp]:
  "short_items []" "short_items (d # q) \<longleftrightarrow> length d < 16 \<and> short_items q"
  "short_items (p @ q) \<longleftrightarrow> short_items p \<and> short_items q"
  by (auto simp: short_items_def)

lemma short_items_tl: "short_items q \<Longrightarrow> short_items (tl q)"
  by (cases q) simp_all

lemma wp_on_fq [simp]:
  "wp (on_fq x) Q E t = wp x (\<lambda>a s. Q a (t\<lparr> fq_storage := s \<rparr>)) (\<lambda>e s. E e (t\<lparr> fq_storage := s \<rparr>)) (fq_storage t)"
  by (simp add: on_fq_def)

lemma wp_on_order [simp]: "wp (on_order f) Q E t = Q () (t\<lparr> fq_order := f (fq_order t) \<rparr>)"
  by (simp add: on_order_def)

lemma fuzz_repr_buffer [simp]: "fuzz_repr (s\<lparr> data_buffer := b \<rparr>) q = fuzz_repr s q"
  by (simp add: queue_repr_def flash_holds_def)

lemma wp_fuzz_push:
  assumes "fuzz_agrees t"
  shows "wp (fuzz_push rand value_len) (\<lambda>_. fuzz_agrees) no_err t"
proof -
  let ?n = "unat value_len mod 16"
  obtain val g where draw: "random_bytes rand ?n (fq_rng t) = (val, g)" by (cases "random_bytes rand ?n (fq_rng t)")
  have len: "length val < 16" using length_random_bytes [of rand ?n "fq_rng t"] unfolding draw by simp
  note agrees = assms [unfolded fuzz_agrees_def]
  note fit = fq.wp_max_fit_push [OF fuzz_config conjunct1 [OF agrees]]
  have same: "fq_storage (t\<lparr> fq_rng := g \<rparr>) = fq_storage t" by simp
  show ?thesis
    unfolding fuzz_push_def wp_bnd [of "gets f" for f] wp_gets draw prod.case wp_sq [of "modify f" for f] wp_modify
      wp_bnd [of "on_fq _"] wp_on_fq wp_attempt same
  proof (rule wp_mono [OF fit], goal_cases)
    case (1 max_fit s)
    let ?s = "s\<lparr> data_buffer := overwrite 0 val (data_buffer s) \<rparr>"
    have buffer: "length (data_buffer s) = 256" "length (overwrite 0 val (data_buffer s)) = 256"
      using 1 agrees len by (simp_all add: overwrite_def)
    have pushed: "if fit_allows max_fit (length val)
        then wp (push fuzz_flash val False) (\<lambda>_ u. fuzz_repr u (fq_order t @ [val])
          \<and> data_buffer u = overwrite 0 val (data_buffer s)) no_err ?s
        else wp (push fuzz_flash val False) (\<lambda>_ _. False)
          (\<lambda>e u. e = FullStorage \<and> fuzz_repr u (fq_order t) \<and> data_buffer u = overwrite 0 val (data_buffer s)) ?s"
      using 1 fuzz_item(2) [OF len] by blast
    show ?case
    proof (cases "fit_allows max_fit (length val)")
      case True
      then obtain n where n: "max_fit = Some n" "length val \<le> n" by (auto simp: fit_allows_def split: option.splits)
      show ?thesis using pushed True n len buffer agrees
        by (auto simp: fuzz_agrees_def elim!: wp_mono)
    next
      case False
      then have "case max_fit of Some n \<Rightarrow> \<not> length val \<le> n | None \<Rightarrow> True" by (simp add: fit_allows_def split: option.splits)
      then show ?thesis using pushed False len buffer agrees
        by (auto simp: fuzz_agrees_def elim!: wp_mono split: option.splits)
    qed
  qed simp
qed

lemma wp_fuzz_pop:
  assumes "fuzz_agrees t"
  shows "wp fuzz_pop (\<lambda>_. fuzz_agrees) no_err t"
proof -
  note agrees = assms [unfolded fuzz_agrees_def]
  show ?thesis
    unfolding fuzz_pop_def wp_bnd [of "on_fq _"] wp_on_fq wp_attempt
    by (rule wp_mono [OF fq.wp_pop [OF fuzz_config(1) conjunct1 [OF agrees]]])
      (use agrees short_item_fits [of "fq_order t"] short_items_tl [of "fq_order t"] in \<open>auto simp: fuzz_agrees_def front_def split: list.splits\<close>)
qed

lemma wp_fuzz_peek:
  assumes "fuzz_agrees t"
  shows "wp fuzz_peek (\<lambda>_. fuzz_agrees) no_err t"
proof -
  note agrees = assms [unfolded fuzz_agrees_def]
  show ?thesis
    unfolding fuzz_peek_def wp_bnd [of "on_fq _"] wp_on_fq wp_attempt
    by (rule wp_mono [OF fq.wp_peek [OF fuzz_config(1) conjunct1 [OF agrees]]])
      (use agrees short_item_fits [of "fq_order t"] short_items_tl [of "fq_order t"] in \<open>auto simp: fuzz_agrees_def front_def split: list.splits\<close>)
qed

lemma wp_on_fq_iter [simp]:
  "wp (on_fq_iter x) Q E (t, it) = wp x (\<lambda>a u. Q a (t\<lparr> fq_storage := fst u \<rparr>, snd u))
     (\<lambda>e u. E e (t\<lparr> fq_storage := fst u \<rparr>, snd u)) (fq_storage t, it)"
  by (simp add: on_fq_iter_def case_prod_beta)

lemma wp_remove_unwrap [simp]:
  "wp (remove_unwrap i) Q E t \<longleftrightarrow> i < length (fq_order t) \<and> Q () (t\<lparr> fq_order := remove_at i (fq_order t) \<rparr>)"
  by (simp add: remove_unwrap_def)

text \<open>
  Between two rounds: the items behind the iterator are those of the \<open>VecDeque\<close> from the index
  the target computes on, and at the end of the queue the index is behind the last item.
\<close>

definition fuzz_iterating :: "'g queue_fuzz \<times> queue_iterator \<Rightarrow> nat \<Rightarrow> nat \<Rightarrow> bool" where
  "fuzz_iterating u i popped \<longleftrightarrow> (\<exists>kept rest. fq_order (fst u) = kept @ rest
     \<and> fq.iterator_repr fuzz_range (fq_storage (fst u), snd u) (kept @ rest) rest
     \<and> short_items (kept @ rest) \<and> length (data_buffer (fq_storage (fst u))) = 256
     \<and> popped + length kept \<le> i \<and> (rest \<noteq> [] \<longrightarrow> popped + length kept = i))"

lemma fuzz_iteratingI:
  assumes "fq.iterator_repr fuzz_range (fq_storage t, it) (kept @ rest) rest" "fq_order t = kept @ rest"
    and "short_items (kept @ rest)" "length (data_buffer (fq_storage t)) = 256"
    and "popped + length kept \<le> i" "rest \<noteq> [] \<Longrightarrow> popped + length kept = i"
  shows "fuzz_iterating (t, it) i popped"
  unfolding fuzz_iterating_def using assms by (intro exI [of _ kept] exI [of _ rest]) simp

lemma fuzz_iterating_agrees: "fuzz_iterating u i popped \<Longrightarrow> fuzz_agrees (fst u)"
  unfolding fuzz_iterating_def fuzz_agrees_def using fq.iterator_queue by fastforce

lemma wp_fuzz_iterate_loop:
  assumes "fuzz_iterating (t, it) i popped"
  shows "wp (fuzz_iterate_loop ps i popped) (\<lambda>_ u. fuzz_agrees (fst u)) no_err (t, it)"
  using assms
proof (induction ps arbitrary: t it i popped)
  case Nil
  then show ?case using fuzz_iterating_agrees by fastforce
next
  case (Cons do_pop ps)
  obtain kept rest where order: "fq_order t = kept @ rest" and repr: "fq.iterator_repr fuzz_range (fq_storage t, it) (kept @ rest) rest"
    and short: "short_items (kept @ rest)" and buffer: "length (data_buffer (fq_storage t)) = 256"
    and index: "popped + length kept \<le> i" "rest \<noteq> [] \<longrightarrow> popped + length kept = i"
    using Cons.prems unfolding fuzz_iterating_def by auto
  show ?case
    unfolding fuzz_iterate_loop.simps wp_bnd [of "on_fq_iter _"] wp_on_fq_iter wp_attempt
  proof (rule wp_mono [OF fq.wp_queue_iterator_next [OF fuzz_config(1) repr]], goal_cases)
    case (1 res u)
    obtain s it' where u: "u = (s, it')" by (cases u)
    let ?t = "t\<lparr> fq_storage := s \<rparr>"
    show ?case
    proof (cases rest)
      case Nil
      then have "fuzz_iterating (?t, it') (Suc i) popped"
        using 1 order short buffer index unfolding u by (intro fuzz_iteratingI [where kept = kept and rest = "[]"]) simp_all
      from Cons.IH [OF this] show ?thesis using Nil 1 order index unfolding u by simp
    next
      case (Cons d ds)
      then obtain entry where res: "res = Some entry"
        and entry: "fq.entry_ok fuzz_range (kept @ d # ds) d ds (iter_previous_item_states it = AllPopped) entry (s, it')"
        using 1 unfolding u by auto
      have i: "i - popped = length kept" "popped \<le> i" using index Cons by auto
      have data: "item_data_buffer (fst entry) = d" using entry by (simp add: fq.entry_ok_def)
      have s: "length (data_buffer s) = 256" using 1 buffer unfolding u by simp
      have next_round: "wp (fuzz_iterate_loop ps (i + 1) popped) (\<lambda>_ u. fuzz_agrees (fst u)) no_err (?t, it')"
      proof (rule Cons.IH)
        have "fq.iterator_repr fuzz_range (s, it') (kept @ d # ds) ds"
          using entry unfolding fq.entry_ok_def by (blast intro: fq.found_iterator)
        then show "fuzz_iterating (?t, it') (i + 1) popped"
          using order short s index Cons by (intro fuzz_iteratingI [where kept = "kept @ [d]" and rest = ds]) simp_all
      qed
      have pop: "wp (entry_pop fuzz_flash entry) (\<lambda>val v. val = d
        \<and> wp (fuzz_iterate_loop ps (i + 1) (popped + 1)) (\<lambda>_ u. fuzz_agrees (fst u)) no_err
            (t\<lparr> fq_storage := fst v, fq_order := kept @ ds \<rparr>, snd v)) no_err (s, it')"
      proof (rule wp_mono [OF fq.wp_entry_pop [OF fuzz_config(1) entry]], goal_cases)
        case (1 val v)
        then obtain before where "kept @ d # ds = before @ d # ds" "fq.iterator_repr fuzz_range v (before @ ds) ds" by blast
        then have "fq.iterator_repr fuzz_range (fst v, snd v) (kept @ ds) ds" by simp
        then have "fuzz_iterating (t\<lparr> fq_storage := fst v, fq_order := kept @ ds \<rparr>, snd v) (i + 1) (popped + 1)"
          using short s index Cons 1 by (intro fuzz_iteratingI [where kept = kept and rest = ds]) simp_all
        from Cons.IH [OF this] show ?case using 1 by simp
      qed simp
      show ?thesis
      proof (cases do_pop)
        case True
        have remove: "remove_at (length kept) (kept @ d # ds) = kept @ ds" by (simp add: remove_at_def)
        show ?thesis
          using pop True order Cons i data remove unfolding u res by (auto elim!: wp_mono)
      next
        case False
        then show ?thesis using next_round order Cons i data unfolding u res by simp
      qed
    qed
  next
    case (2 e u)
    then have "rest \<noteq> []" "256 < round_up_to_alignment fuzz_flash (length (hd rest))" using buffer by auto
    moreover have "round_up_to_alignment fuzz_flash (length (hd rest)) \<le> 256" using short_item_fits short calculation(1) by simp
    ultimately show ?case by simp
  qed
qed

lemma wp_fuzz_iterate:
  assumes "fuzz_agrees t"
  shows "wp (fuzz_iterate ps) (\<lambda>_. fuzz_agrees) no_err t"
proof -
  note agrees = assms [unfolded fuzz_agrees_def]
  show ?thesis
    unfolding fuzz_iterate_def wp_bnd [of "on_fq _"] wp_on_fq wp_attempt
  proof (rule wp_mono [OF fq.wp_queue_iterator_new [OF fuzz_config(1) conjunct1 [OF agrees]]], goal_cases)
    case (1 it s)
    then have "fuzz_iterating (t\<lparr> fq_storage := s \<rparr>, it) 0 0"
      using agrees by (intro fuzz_iteratingI [where kept = "[]" and rest = "fq_order t"]) simp_all
    from wp_fuzz_iterate_loop [OF this] show ?case by simp
  qed simp
qed

lemma wp_fuzz_queue_ops:
  "fuzz_agrees t \<Longrightarrow> wp (fuzz_queue_ops rand opers) (\<lambda>_. fuzz_agrees) no_err t"
proof (induction opers arbitrary: t)
  case (Cons oper opers)
  have "wp (fuzz_queue_op rand oper) (\<lambda>_. fuzz_agrees) no_err t"
    by (cases oper) (simp_all add: wp_fuzz_push wp_fuzz_pop wp_fuzz_peek wp_fuzz_iterate Cons.prems)
  then show ?case
    unfolding fuzz_queue_ops.simps wp_bnd by (rule wp_mono) (use Cons.IH in simp_all)
qed simp

lemma fuzz_queue_start_agrees: "fuzz_agrees (fuzz_queue_start Disabled None cache_type g)"
proof -
  have "fuzz_repr (fq_storage (fuzz_queue_start Disabled None cache_type g)) []"
    by (rule fq.queue_repr_new [OF fuzz_config(1)])
      (simp_all add: fuzz_queue_start_def mock_new_def mock_ok_def bytes_at_def sub_list_def erased_def fuzz_cache_knows_nothing)
  then show ?thesis by (simp add: fuzz_agrees_def fuzz_queue_start_def)
qed

text \<open>
  C16: on a mock flash that neither counts writes nor loses power, none of the comparisons of the
  target fails: whatever it pushes, pops, peeks and iterates over, in any order, with any cache and
  any random bytes, it does not panic, and at the end the \<open>VecDeque\<close> is the queue on flash.
\<close>

theorem queue_fuzzing_passes:
  "wp (fuzz_queue_ops rand opers) (\<lambda>_ t. fuzz_repr (fq_storage t) (fq_order t)) no_err
     (fuzz_queue_start Disabled None cache_type g)"
  by (rule wp_mono [OF wp_fuzz_queue_ops [OF fuzz_queue_start_agrees]]) (simp_all add: fuzz_agrees_def)

end
