(* ===== verification/MapRepair.thy ===== *)
theory MapRepair
  imports MapProperties
begin

text \<open>
  A migration that was interrupted, by a reset between two of its writes: the page written to holds
  copies of some of the items of the page after it, which is still closed where the buffer should
  be. Fetching works as it is; the next store finds the buffer missing, reports corruption, and the
  repair does the migration again.
\<close>

definition map_interrupted ::
  "('s, 'e) nor_flash \<Rightarrow> ('s \<Rightarrow> bool) \<Rightarrow> ('s \<Rightarrow> u8 list) \<Rightarrow> 'k map_key \<Rightarrow> 'v map_value \<Rightarrow> (u8 list \<Rightarrow> bool) \<Rightarrow>
    flash_range \<Rightarrow> ('s, 'k) storage \<Rightarrow> ('k \<Rightarrow> 'v option) \<Rightarrow> bool"
where
  "map_interrupted F ok chip K V is_item r s m \<longleftrightarrow> (\<exists>ap y. map_at F ok chip K is_item r ap y 0 s
     \<and> fst (ap y) = PartialOpen \<and> m = map_of_entries K V (ring_entries F r ap y)
     \<and> contents K (entries_upto F r ap y (page_count F r - 1)) = contents K (ring_entries F r ap y))"

context map_store
begin

text \<open>The repair throws the copies away and migrates again.\<close>

lemma wp_map_try_repair:
  fixes s :: "('s, 'k) storage"
  assumes "mapped ap y 0 s" "fst (ap y) = PartialOpen"
    and "contents K (entries_upto F r ap y (page_count F r - 1)) = contents K (entries_of ap y)"
  shows "wp (map_try_repair F K) (\<lambda>_. stored_map (contents K (entries_of ap y)) (length (data_buffer s))) no_err s"
proof -
  let ?n = "page_count F r" and ?p = "Suc y mod page_count F r" and ?c = "contents K (entries_of ap y)"
  let ?s = "s\<lparr>cache := invalidate_cache_state (cache s)\<rparr>"
  let ?ap = "ap(y := (PartialOpen, []))"
  have s: "mapped ap y 0 ?s" by (rule mapped_invalidate [OF assms(1)])
  note m = mappedE [OF s]
  have y: "y < ?n" using shape_less(1) [OF m(2)] .
  note p = source_page [OF y]
  have nxt: "next_page F r y = ?p" by (simp add: next_page_def)
  have source: "fst (ap ?p) = Closed" using shape_closed [OF m(2), of 1] two_pages by simp
  have shape: "queue_shape ?n ?ap y 0" by (rule shape_youngest_update [OF m(2)]) simp
  have entries: "entries_of ?ap y = entries_upto F r ap y (?n - 1)" using entries_of_youngest [OF y, of ap] by simp
  have keys: "keys_sound (cached_keys ?s) locs" for locs
    using mappedE(5) [OF assms(1)] keys_sound_invalidate [of "cached_keys s"] by (auto simp: keys_sound_def)
  have emptied: "mapped ?ap y 0 t \<and> ?ap y = (PartialOpen, [])"
    if t: "holds r ?ap t" "data_buffer t = data_buffer s" "cached_keys t = cached_keys ?s" for t
  proof -
    have "entries_fit F is_item (length (data_buffer t)) (entries_of ?ap y)"
      using m(4) t(2) entries_of_last [OF y, of ap] unfolding entries entries_fit_def by auto
    then show ?thesis using t shape keys by (simp add: map_at_def)
  qed
  have redo: "wp (sq (open_page F y) (sq (partial_close_page F y) (migrate_items F K ?p y)))
      (\<lambda>_. stored_map ?c (length (data_buffer s))) no_err t"
    if t: "holds r ap t" "data_buffer t = data_buffer s" "cached_keys t = cached_keys ?s" for t
    unfolding wp_sq
  proof (rule wp_mono [OF wp_leaves [OF leaves_open_page wp_open_page [OF config(1) t(1) y]]], goal_cases)
    case (1 _ u)
    then have u: "holds r (ap(y := (Open, []))) u" "data_buffer u = data_buffer s" "cached_keys u = cached_keys ?s"
      using t by simp_all
    have pc: "partially_closed ((ap(y := (Open, []))) y) = (PartialOpen, [])" by (simp add: partially_closed_def)
    show ?case
    proof (rule wp_mono [OF wp_leaves [OF leaves_partial_close_page wp_partial_close_page [OF config(1) u(1) y]]], goal_cases)
      case (1 _ v)
      then have "holds r ?ap v" "data_buffer v = data_buffer s" "cached_keys v = cached_keys ?s" using u pc by simp_all
      note v = this emptied [OF this]
      show ?case
      proof (rule wp_mono [OF wp_migrate_items [OF conjunct1 [OF v(4)] conjunct2 [OF v(4)]]], goal_cases)
        case (1 _ w)
        then obtain ap' where "mapped ap' y 1 w" "contents K (entries_of ap' y) = contents K (entries_of ?ap y)" by blast
        then show ?case using 1 v(2) assms(3) entries stored_mapI [of ap' y 1 w] by simp
      qed simp
    qed simp
  qed simp
  have found: "wp (bnd (find_first_page F 0 PartialOpen) (\<lambda>partial_open. case partial_open of
       None \<Rightarrow> ret ()
     | Some partial_open_page \<Rightarrow>
         bnd (gets (\<lambda>s. next_page F (flash_range s) partial_open_page)) (\<lambda>buffer_page.
         bnd (get_page_state F buffer_page) (\<lambda>st.
         if is_open st then ret ()
         else sq (open_page F partial_open_page) (sq (partial_close_page F partial_open_page)
               (migrate_items F K buffer_page partial_open_page))))))
      (\<lambda>_. stored_map ?c (length (data_buffer s))) no_err t"
    if t: "holds r ap t" "data_buffer t = data_buffer s" "cached_keys t = cached_keys ?s" for t
    unfolding wp_bnd [of "find_first_page _ _ _"]
  proof (rule wp_mono [OF wp_leaves [OF leaves_find_first_page wp_find_first_page [OF config(1) t(1), of 0 PartialOpen]]], goal_cases)
    case (1 found u)
    then have u: "holds r ap u" "data_buffer u = data_buffer s" "cached_keys u = cached_keys ?s" and found: "found = Some y"
      using t find_youngest [OF m(2)] assms(2) by (simp_all add: get_pages_ring)
    have range: "flash_range u = r" using u(1) by (simp add: flash_holds_def)
    show ?case
      unfolding found option.case wp_bnd [of "gets f" for f] wp_gets range nxt wp_bnd [of "get_page_state _ _"]
      by (rule wp_mono [OF wp_leaves [OF leaves_get_page_state wp_get_page_state [OF config(1) u(1) p(1)]]])
        (use redo u source in \<open>simp_all add: is_open_def del: wp_sq\<close>)
  qed simp
  show ?thesis
    unfolding map_try_repair_def wp_sq [of "on_cache _"] wp_on_cache wp_sq [of "try_general_repair F"]
    by (rule wp_mono [OF wp_leaves [OF leaves_try_general_repair wp_general_repair [OF config(1) m(1)]]]) (rule found, simp_all)
qed

text \<open>Without a buffer, storing reports corruption and changes nothing.\<close>

lemma wp_store_without_buffer:
  fixes s :: "('s, 'k) storage"
  assumes "mapped ap y 0 s" "fst (ap y) = PartialOpen"
  shows "wp (store_item_inner F K V key val) (\<lambda>_ _. False)
    (\<lambda>e t. e = Corrupted \<and> mapped ap y 0 t \<and> length (data_buffer t) = length (data_buffer s)) s"
  unfolding store_item_inner_def wp_sq [of drop_dirty_cache]
proof (rule wp_mono [OF wp_drop_dirty [OF assms(1)]], goal_cases)
  case (1 _ t)
  then have t: "mapped ap y 0 t" "data_buffer t = data_buffer s" by simp_all
  note m = mappedE [OF t(1)]
  let ?n = "page_count F r" and ?p = "Suc y mod page_count F r"
  have y: "y < ?n" using shape_less(1) [OF m(2)] .
  note p = source_page [OF y]
  have nxt: "next_page F r y = ?p" by (simp add: next_page_def)
  have source: "fst (ap ?p) = Closed" using shape_closed [OF m(2), of 1] two_pages by simp
  obtain levels where levels: "length (get_pages F r 0) = Suc levels" using two_pages by (cases "page_count F r") (auto simp: get_pages_def)
  show ?case
    unfolding wp_bnd [of "gets f" for f] wp_gets m(3) levels store_levels.simps wp_bnd [of "find_first_page _ _ _"]
  proof (rule wp_mono [OF wp_leaves [OF leaves_find_first_page wp_find_first_page [OF config(1) m(1), of 0 PartialOpen]]], goal_cases)
    case (1 found u)
    then have u: "mapped ap y 0 u" "data_buffer u = data_buffer s" and found: "found = Some y"
      using t find_youngest [OF m(2)] assms(2) mapped_same [OF t(1)] by (simp_all add: get_pages_ring)
    note mu = mappedE [OF u(1)]
    have bad: "wp (store_in_page F K V key val y) (\<lambda>_ _. False)
        (\<lambda>e t. e = Corrupted \<and> mapped ap y 0 t \<and> length (data_buffer t) = length (data_buffer s)) u"
      unfolding store_in_page_def wp_bnd [of "gets f" for f] wp_gets mu(3) nxt wp_bnd [of "get_page_state _ _"]
      by (rule wp_mono [OF wp_leaves [OF leaves_get_page_state wp_get_page_state [OF config(1) mu(1) p(1)]]])
        (use source u mapped_same [OF u(1)] in \<open>auto simp: is_open_def\<close>)
    show ?case
      unfolding found option.case wp_bnd [of "store_in_page _ _ _ _ _ _"] by (rule wp_mono [OF bad]) simp_all
  qed simp
qed simp

lemma wp_store_interrupted:
  fixes s :: "('s, 'k) storage"
  assumes "mapped ap y 0 s" "fst (ap y) = PartialOpen"
    and "contents K (entries_upto F r ap y (page_count F r - 1)) = contents K (entries_of ap y)"
    and "kvalid key" "vvalid val" "d = kenc key @ venc val" "len = length (data_buffer s)"
    and "length d \<le> len \<Longrightarrow> round_up_to_alignment F (length d) \<le> len"
  defines "c \<equiv> contents K (entries_of ap y)"
  shows "wp (store_item F K V key val)
    (\<lambda>_ t. \<not> item_too_big F (length d) \<and> stored_map (c(key \<mapsto> d)) len t)
    (\<lambda>e t. (e = FullStorage \<or> e = ItemTooBig \<and> item_too_big F (length d)
        \<or> (\<exists>e'. e = SerializationError e') \<and> len < length d) \<and> stored_map c len t) s"
  unfolding store_item_def
proof (rule wp_run_repaired [OF wp_store_without_buffer [OF assms(1,2)], where R = "stored_map c len"], goal_cases)
  case (1 t)
  then have t: "mapped ap y 0 t" "length (data_buffer t) = len" using assms(7) by simp_all
  from wp_map_try_repair [OF t(1) assms(2,3)] show ?case
    by (rule wp_mono) (use t(2) in \<open>simp_all add: c_def\<close>)
next
  case (2 t)
  then show ?case by (rule wp_store_inner [OF _ assms(4-6,8)])
qed

end

section \<open>The property\<close>


text \<open>The first page was full, and of its items that of the key 2 was already moved.\<close>

definition interrupted_pages :: "nat \<Rightarrow> apage" where
  "interrupted_pages i = (if i = 0 then (Closed, [(True, [1, 10]), (True, [1, 11]), (True, [2, 20]), (True, [3, 30])])
     else (PartialOpen, [(True, [1, 11]), (True, [2, 20])]))"

abbreviation interrupted_storage :: "(mock_flash, u8) storage" where
  "interrupted_storage \<equiv> example_with interrupted_pages (KeyPointerCache_new 2 2) (replicate 8 0)"

lemma interrupted_map: "map_interrupted example_flash (mock_ok 4) mdata byte_key byte_value byte_item example_range
    interrupted_storage [1 \<mapsto> 11, 2 \<mapsto> 20, 3 \<mapsto> 30]"
proof -
  let ?source = "[(4, [1, 10]), (16, [1, 11]), (28, [2, 20]), (40, [3, 30])] :: map_entry list"
  let ?copies = "[(68, [1, 11]), (80, [2, 20])] :: map_entry list"
  have entries: "entries_upto example_flash example_range interrupted_pages 1 1 = ?source"
    "ring_entries example_flash example_range interrupted_pages 1 = ?source @ ?copies"
    unfolding ring_entries_def entries_upto_def example_count
    by (simp_all add: page_entries_def interrupted_pages_def slot_size_def page_data_start_def calculate_page_address_def
        example_sizes upt_conv_Cons)
  have shape: "queue_shape 2 interrupted_pages 1 0"
  proof -
    have "fst (interrupted_pages ((1 + i) mod 2)) = Closed" if "0 < i" "i < 2" for i
    proof -
      have "i = 1" using that by linarith
      then show ?thesis by (simp add: interrupted_pages_def)
    qed
    then show ?thesis unfolding queue_shape_def by (intro conjI allI impI) (simp_all add: interrupted_pages_def)
  qed
  have wf: "page_wf example_flash (interrupted_pages i)" for i
    by (simp add: page_wf_def interrupted_pages_def slots_size_def slot_size_def example_sizes)
  have cache: "cache_ok example_flash example_range interrupted_pages (KeyPointerCache_new 2 2)" by (rule cache_ok_unknown) simp
  have keys: "keys_sound (cached_keys interrupted_storage) locs" for locs
    using keys_sound_new by (simp add: KeyPointerCache_new_def numeral_2_eq_2)
  have fits: "entries_fit example_flash byte_item 8 (?source @ ?copies)"
    by (simp add: entries_fit_def byte_item_pair example_sizes)
  have "map_at example_flash (mock_ok 4) mdata byte_key byte_item example_range interrupted_pages 1 0 interrupted_storage"
    unfolding map_at_def example_count entries(2)
    using example_with_holds [OF wf wf cache] shape fits keys by simp
  moreover have "[1 \<mapsto> 11, 2 \<mapsto> 20, 3 \<mapsto> 30] = map_of_entries byte_key byte_value (?source @ ?copies)"
    by (auto simp: map_of_entries_def newest_Cons fun_eq_iff)
  moreover have "contents byte_key ?source = contents byte_key (?source @ ?copies)"
    by (auto simp: contents_def newest_Cons fun_eq_iff)
  moreover have "page_count example_flash example_range - 1 = 1" by (simp add: example_count)
  ultimately show ?thesis
    unfolding map_interrupted_def
    by (intro exI [of _ interrupted_pages] exI [of _ 1] conjI)
      (simp only:, simp add: interrupted_pages_def, simp_all only: entries)
qed


end
