(* ===== verification/MapIterate.thy ===== *)
theory MapIterate
  imports MapRepair
begin

text \<open>
  Iterating over the map: \<open>fetch_all_items\<close> starts on the oldest page, and every call of
  \<open>map_item_iter_next\<close> returns the next entry of the ring until all pages were visited. Collecting
  the pairs the way the documentation of the iterator shows gives the map.
\<close>

section \<open>What an iterator has left\<close>

text \<open>The entries of the pages at the offsets \<open>j\<close> to \<open>page_count - 1\<close> from the first page.\<close>

definition entries_after :: "('s, 'e) nor_flash \<Rightarrow> flash_range \<Rightarrow> (nat \<Rightarrow> apage) \<Rightarrow> nat \<Rightarrow> nat \<Rightarrow> map_entry list" where
  "entries_after F r ap f j = concat (map (\<lambda>i. page_entries F r ap ((f + i) mod page_count F r)) [j..<page_count F r])"

definition map_left ::
  "('s, 'e) nor_flash \<Rightarrow> flash_range \<Rightarrow> (nat \<Rightarrow> apage) \<Rightarrow> nat \<Rightarrow> map_entry list \<Rightarrow> map_item_iter \<Rightarrow> bool"
where
  "map_left F r ap j es it \<longleftrightarrow> j < page_count F r
     \<and> mi_current_page_index it = (mi_first_page it + j) mod page_count F r
     \<and> (\<exists>here. items_left F r ap (mi_current_page_index it) here (mi_current_iter it)
          \<and> es = here @ entries_after F r ap (mi_first_page it) (Suc j))"

lemma entries_after_step:
  "j < page_count F r \<Longrightarrow>
    entries_after F r ap f j = page_entries F r ap ((f + j) mod page_count F r) @ entries_after F r ap f (Suc j)"
  by (simp add: entries_after_def upt_conv_Cons)

lemma entries_after_end [simp]: "page_count F r \<le> j \<Longrightarrow> entries_after F r ap f j = []"
  by (simp add: entries_after_def)

text \<open>From the page behind the youngest one on, these are all entries.\<close>

lemma entries_after_ring:
  assumes "y < page_count F r"
  shows "entries_after F r ap (Suc y mod page_count F r) 0 = ring_entries F r ap y"
proof -
  let ?n = "page_count F r"
  have "map (\<lambda>i. page_entries F r ap ((y + i) mod ?n)) [1..<Suc ?n]
      = map (\<lambda>i. page_entries F r ap ((Suc y mod ?n + i) mod ?n)) [0..<?n]"
    by (rule nth_equalityI) (simp_all add: mod_add_left_eq del: upt_Suc)
  then show ?thesis by (simp only: entries_after_def ring_entries_def entries_upto_def)
qed

lemma next_page_step:
  "j < page_count F r \<Longrightarrow> next_page F r ((f + j) mod page_count F r) = (f + Suc j) mod page_count F r"
  by (simp add: next_page_def mod_Suc)

section \<open>The pages\<close>

context map_store
begin

lemma wp_next_map_page:
  fixes s :: "('s, 'k) storage"
  assumes "holds r ap s" "j < page_count F r" "f < page_count F r"
    and "mi_current_page_index it = (f + j) mod page_count F r" "mi_first_page it = f"
    and "page_count F r - j \<le> fuel"
    and "\<forall>i < page_count F r. fst (ap i) = Open \<longrightarrow> snd (ap i) = []"
  shows "wp (next_map_page F fuel)
    (\<lambda>more t. holds r ap (fst t) \<and> data_buffer (fst t) = data_buffer s \<and> cached_keys_fst t = cached_keys s
      \<and> mi_first_page (snd t) = f
      \<and> (if more then \<exists>j'. j < j' \<and> map_left F r ap j' (entries_after F r ap f (Suc j)) (snd t)
         else entries_after F r ap f (Suc j) = [])) no_err (s, it)"
  using assms(1,2,4-6)
proof (induction fuel arbitrary: j s it)
  case (Suc fuel)
  let ?n = "page_count F r" and ?p = "(f + Suc j) mod page_count F r"
  have range: "flash_range s = r" using Suc.prems(1) by (simp add: flash_holds_def)
  have p: "?p < ?n" using Suc.prems(2) by simp
  have nxt: "next_page F r (mi_current_page_index it) = ?p"
    using Suc.prems(2,3) by (simp add: next_page_step del: add_Suc_right)
  show ?case
  proof (cases "Suc j = ?n")
    case True
    then have "?p = f" using assms(3) by simp
    then show ?thesis using Suc.prems(1,4) True range nxt by simp
  next
    case False
    then have j: "Suc j < ?n" using Suc.prems(2) by simp
    have p_f: "?p \<noteq> f"
      using ring_inj_iff [of "Suc j" 0 ?n f] j assms(3) by simp
    let ?it = "it\<lparr> mi_current_page_index := ?p \<rparr>"
    have it: "mi_current_page_index ?it = ?p" "mi_first_page ?it = f" using Suc.prems(4) by simp_all
    note state = wp_leaves [OF leaves_get_page_state wp_get_page_state [OF config(1) Suc.prems(1) p]]
    note step = entries_after_step [OF j]
    have "wp (bnd (attempt (lift_local (get_page_state F ?p))) (\<lambda>st. case st of
          Inr Closed \<Rightarrow> sq (modify (\<lambda>(s, it). (s, it\<lparr> mi_current_iter := page_items_iter F (flash_range s) ?p \<rparr>))) (ret True)
        | Inr PartialOpen \<Rightarrow> sq (modify (\<lambda>(s, it). (s, it\<lparr> mi_current_iter := page_items_iter F (flash_range s) ?p \<rparr>))) (ret True)
        | Inr Open \<Rightarrow> next_map_page F fuel
        | Inl _ \<Rightarrow> next_map_page F fuel))
      (\<lambda>more t. holds r ap (fst t) \<and> data_buffer (fst t) = data_buffer s \<and> cached_keys_fst t = cached_keys s
        \<and> mi_first_page (snd t) = f
        \<and> (if more then \<exists>j'. j < j' \<and> map_left F r ap j' (entries_after F r ap f (Suc j)) (snd t)
           else entries_after F r ap f (Suc j) = [])) no_err (s, ?it)"
      unfolding wp_bnd wp_attempt wp_lift_local fst_conv snd_conv
    proof (rule wp_mono [OF state], goal_cases)
      case (1 st u)
      then have u: "holds r ap u" "data_buffer u = data_buffer s" "cached_keys u = cached_keys s" and st: "st = fst (ap ?p)"
        by simp_all
      have range_u: "flash_range u = r" using u(1) by (simp add: flash_holds_def)
      show ?case
      proof (cases "st = Open")
        case True
        then have none: "page_entries F r ap ?p = []" using assms(7) p True st by simp
        have more: "j < j'" if "Suc j < j'" for j' using that by simp
        have "wp (next_map_page F fuel)
          (\<lambda>more t. holds r ap (fst t) \<and> data_buffer (fst t) = data_buffer u \<and> cached_keys_fst t = cached_keys u
            \<and> mi_first_page (snd t) = f
            \<and> (if more then \<exists>j'. Suc j < j' \<and> map_left F r ap j' (entries_after F r ap f (Suc (Suc j))) (snd t)
               else entries_after F r ap f (Suc (Suc j)) = [])) no_err (u, ?it)"
          by (rule Suc.IH [OF u(1) j]) (use Suc.prems(4,5) in simp_all)
        then show ?thesis
          using True u(2,3) none step
          by (auto elim!: wp_mono split: if_splits dest: Suc_lessD)
      next
        case False
        have "map_left F r ap (Suc j) (entries_after F r ap f (Suc j)) (?it\<lparr> mi_current_iter := page_items_iter F r ?p \<rparr>)"
          unfolding map_left_def using j step Suc.prems(4) page_items_iter_left(2) [of r ap ?p] by auto
        then show ?thesis using False u range_u Suc.prems(4) by (cases st) (auto intro!: exI [of _ "Suc j"])
      qed
    qed simp
    then show ?thesis
      by (simp only: next_map_page.simps wp_sq [of "modify f" for f] wp_modify wp_bnd [of "gets f" for f] wp_gets
          case_prod_conv range nxt it p_f if_False)
  qed
qed simp

end

section \<open>The items\<close>

text \<open>What a call returns: the next entry, with its bytes at the start of the buffer.\<close>

definition next_map_entry ::
  "('s, 'e) nor_flash \<Rightarrow> flash_range \<Rightarrow> (nat \<Rightarrow> apage) \<Rightarrow> map_entry list \<Rightarrow> item option
    \<Rightarrow> ('s, 'k) storage \<times> map_item_iter \<Rightarrow> bool"
where
  "next_map_entry F r ap es res t \<longleftrightarrow> (case es of
     [] \<Rightarrow> res = None
   | (a, d) # es' \<Rightarrow> res = Some \<lparr> item_header = slot_header (True, d), item_data_buffer = data_buffer (fst t) \<rparr>
       \<and> take (length d) (data_buffer (fst t)) = d \<and> (\<exists>j. map_left F r ap j es' (snd t)))"

context map_store
begin

lemma wp_next_map_item:
  fixes s :: "('s, 'k) storage"
  assumes "holds r ap s" "mi_first_page it < page_count F r" "map_left F r ap j es it" "page_count F r - j \<le> fuel"
    and "\<forall>e \<in> set es. round_up_to_alignment F (length (snd e)) \<le> length (data_buffer s)"
    and "\<forall>i < page_count F r. fst (ap i) = Open \<longrightarrow> snd (ap i) = []"
  shows "wp (next_map_item F fuel)
    (\<lambda>res t. holds r ap (fst t) \<and> length (data_buffer (fst t)) = length (data_buffer s)
      \<and> cached_keys_fst t = cached_keys s \<and> mi_first_page (snd t) = mi_first_page it
      \<and> next_map_entry F r ap es res t) no_err (s, it)"
  using assms(1-5)
proof (induction fuel arbitrary: j s it)
  case 0
  then show ?case by (simp add: map_left_def)
next
  case (Suc fuel)
  let ?f = "mi_first_page it"
  obtain here where left: "j < page_count F r" "mi_current_page_index it = (?f + j) mod page_count F r"
    "items_left F r ap (mi_current_page_index it) here (mi_current_iter it)" "es = here @ entries_after F r ap ?f (Suc j)"
    using Suc.prems(3) unfolding map_left_def by blast
  have page: "mi_current_page_index it < page_count F r" using left(1,2) by simp
  have fit: "\<forall>e \<in> set here. round_up_to_alignment F (length (snd e)) \<le> length (data_buffer s)"
    using Suc.prems(5) left(4) by simp
  show ?case
    unfolding next_map_item.simps on_current_iter_def wp_bnd [of "zoom _ _ _"] wp_zoom case_prod_conv
  proof (rule wp_mono [OF wp_item_iter_next [OF config(1) Suc.prems(1) page left(3) fit]], goal_cases)
    case (1 res t)
    obtain u h where t: "t = (u, h)" by (cases t)
    have u: "holds r ap u" "length (data_buffer u) = length (data_buffer s)" "cached_keys u = cached_keys s"
      and res: "next_entry F r ap (mi_current_page_index it) here res (u, h)"
      using 1 unfolding t by simp_all
    let ?it = "it\<lparr> mi_current_iter := h \<rparr>"
    show ?case
    proof (cases here)
      case (Cons e here')
      obtain a d where e: "e = (a, d)" by (cases e)
      have "map_left F r ap j (here' @ entries_after F r ap ?f (Suc j)) ?it"
        unfolding map_left_def using left(1,2) res Cons e by (auto simp: next_entry_def)
      then show ?thesis
        using u res left(4) Cons e unfolding t by (auto simp: next_entry_def next_map_entry_def)
    next
      case Nil
      then have res: "res = None" and es: "es = entries_after F r ap ?f (Suc j)"
        using res left(4) by (simp_all add: next_entry_def)
      have range: "flash_range u = r" using u(1) by (simp add: flash_holds_def)
      have "wp (next_map_page F (page_count F r))
        (\<lambda>more t. holds r ap (fst t) \<and> data_buffer (fst t) = data_buffer u \<and> cached_keys_fst t = cached_keys u
          \<and> mi_first_page (snd t) = ?f
          \<and> (if more then \<exists>j'. j < j' \<and> map_left F r ap j' es (snd t) else es = [])) no_err (u, ?it)"
        unfolding es by (rule wp_next_map_page [OF u(1) left(1) Suc.prems(2)]) (use left(2) assms(6) in simp_all)
      then have "wp (bnd (next_map_page F (page_count F r)) (\<lambda>more. if more then next_map_item F fuel else ret None))
        (\<lambda>res t. holds r ap (fst t) \<and> length (data_buffer (fst t)) = length (data_buffer s)
          \<and> cached_keys_fst t = cached_keys s \<and> mi_first_page (snd t) = ?f
          \<and> next_map_entry F r ap es res t) no_err (u, ?it)"
        unfolding wp_bnd
      proof (rule wp_mono, goal_cases)
        case (1 more t)
        obtain v it' where t: "t = (v, it')" by (cases t)
        have v: "holds r ap v" "length (data_buffer v) = length (data_buffer s)" "cached_keys v = cached_keys s"
          "mi_first_page it' = ?f" using 1 u unfolding t by simp_all
        show ?case
        proof (cases more)
          case True
          then obtain j' where j': "j < j'" "map_left F r ap j' es it'" using 1 unfolding t by auto
          have "wp (next_map_item F fuel)
            (\<lambda>res t. holds r ap (fst t) \<and> length (data_buffer (fst t)) = length (data_buffer v)
              \<and> cached_keys_fst t = cached_keys v \<and> mi_first_page (snd t) = mi_first_page it'
              \<and> next_map_entry F r ap es res t) no_err (v, it')"
            by (rule Suc.IH [OF v(1) _ j'(2)]) (use Suc.prems(2,4,5) v j'(1) in simp_all)
          then show ?thesis using True v unfolding t by simp
        next
          case False
          then show ?thesis using 1 v unfolding t by (simp add: next_map_entry_def)
        qed
      qed simp
      then show ?thesis
        unfolding t res by (simp add: range del: wp_bnd add: wp_bnd [of "gets f" for f])
    qed
  qed simp
qed

text \<open>The pair of an entry.\<close>

definition pair_of :: "map_entry \<Rightarrow> ('k \<times> 'v) option" where
  "pair_of e = (case (key_of K (snd e), value_of K V (snd e)) of (Some key, Some val) \<Rightarrow> Some (key, val) | _ \<Rightarrow> None)"

lemma wp_map_item_iter_next:
  fixes s :: "('s, 'k) storage"
  assumes "holds r ap s" "mi_first_page it < page_count F r" "map_left F r ap j es it"
    and "entries_fit F is_item (length (data_buffer s)) es" "\<forall>e \<in> set es. length (snd e) \<le> u16_MAX"
    and "\<forall>i < page_count F r. fst (ap i) = Open \<longrightarrow> snd (ap i) = []"
  shows "wp (map_item_iter_next F K V)
    (\<lambda>res t. holds r ap (fst t) \<and> length (data_buffer (fst t)) = length (data_buffer s)
      \<and> cached_keys_fst t = cached_keys s \<and> mi_first_page (snd t) = mi_first_page it
      \<and> (case es of [] \<Rightarrow> res = None
         | e # es' \<Rightarrow> res = pair_of e \<and> res \<noteq> None \<and> (\<exists>j. map_left F r ap j es' (snd t)))) no_err (s, it)"
proof -
  have fit: "\<forall>e \<in> set es. round_up_to_alignment F (length (snd e)) \<le> length (data_buffer s)"
    using assms(4) by (simp add: entries_fit_def)
  have range: "flash_range s = r" using assms(1) by (simp add: flash_holds_def)
  have "page_count F r - j \<le> page_count F r" by simp
  note item = wp_next_map_item [OF assms(1-3) this fit assms(6)]
  show ?thesis
    unfolding map_item_iter_next_def wp_bnd [of "gets f" for f] wp_gets case_prod_conv range wp_bnd [of "next_map_item _ _"]
  proof (rule wp_mono [OF item], goal_cases)
    case (1 res t)
    show ?case
    proof (cases es)
      case Nil
      then show ?thesis using 1 by (simp add: next_map_entry_def)
    next
      case (Cons e es')
      obtain a d where e: "e = (a, d)" by (cases e)
      obtain u it' where t: "t = (u, it')" by (cases t)
      have res: "res = Some \<lparr> item_header = slot_header (True, d), item_data_buffer = data_buffer u \<rparr>"
        and buf: "take (length d) (data_buffer u) = d" and left: "\<exists>j. map_left F r ap j es' it'"
        using 1 unfolding Cons e t by (simp_all add: next_map_entry_def)
      have d: "is_item d" using assms(4) unfolding Cons e by (simp add: entries_fit_def)
      have len: "unat (ih_length (slot_header (True, d))) = length d"
        using assms(5) unfolding Cons e by (simp add: slot_header_def unat_of_nat)
      have room: "length d \<le> length (data_buffer u)" using arg_cong [OF buf, of length] by simp
      obtain key val where kv: "kvalid key" "vvalid val" "d = kenc key @ venc val" "key_of K d = Some key"
        "value_of K V d = Some val" using is_itemE [OF d] .
      obtain key' where key': "key_of K d = Some key'" "key_deserialize_from K (data_buffer u) = Ok (key', length (kenc key'))"
        using decode_from_buffer [OF d buf] by blast
      have same: "key' = key" using key'(1) kv(4) by simp
      have val: "value_deserialize_from V (drop (length (kenc key)) (take (length d) (data_buffer u))) = Ok (val, length (venc val))"
        using deserialize_value [OF kv(2)] buf kv(3) by simp
      have "length (kenc key) \<le> length d" using kv(3) by simp
      then show ?thesis
        using 1 left kv(4,5) key'(2) val room len unfolding Cons e t res same
        by (simp add: Let_def pair_of_def)
    qed
  qed simp_all
qed

text \<open>Where the iteration starts.\<close>

lemma wp_first_page_of_map:
  fixes s :: "('s, 'k) storage"
  assumes "mapped ap y k s"
  shows "wp (first_page_of_map F)
    (\<lambda>f t. f < page_count F r \<and> entries_after F r ap f 0 = entries_of ap y
      \<and> mapped ap y k t \<and> length (data_buffer t) = length (data_buffer s)) no_err s"
proof -
  let ?n = "page_count F r"
  note shape = mappedE(2) [OF assms]
  have n: "0 < ?n" using shape_less(3) [OF shape] .
  have y: "next_page F r y = Suc y mod ?n" using next_page_step [of 0 F r y] shape_less [OF shape] by simp
  show ?thesis
    unfolding first_page_of_map_def wp_bnd [of "find_first_page F 0 PartialOpen"]
  proof (rule wp_mono [OF wp_find_partial_open [OF assms]], goal_cases)
    case (1 found t)
    then have t: "mapped ap y k t" "length (data_buffer t) = length (data_buffer s)" by simp_all
    show ?case
    proof (cases "fst (ap y) = PartialOpen")
      case True
      then show ?thesis
        using 1 n y t entries_after_ring [OF shape_less(1) [OF shape]] by (simp add: mappedE(3) [OF t(1)])
    next
      case False
      then have found: "found = None" using 1 by simp
      have pages: "entries_after F r ap 0 0 = []"
        using all_open [OF shape False] by (auto simp: entries_after_def page_entries_def)
      show ?thesis
        unfolding found option.case wp_bnd [of "find_first_page F 0 Open"]
      proof (rule wp_mono [OF wp_all_open(1) [OF t(1) False]], goal_cases)
        case (1 found u)
        then have u: "mapped ap y k u" "length (data_buffer u) = length (data_buffer s)" and found: "found = Some 0"
          using t(2) by simp_all
        show ?case
          unfolding found option.case wp_bnd [of "gets f" for f] wp_gets mappedE(3) [OF u(1)] wp_all_open(2) [OF u(1) False]
            wp_bnd [of "get_page_state _ _"]
          by (rule wp_mono [OF wp_all_open(3) [OF u(1) False]])
            (use n pages all_open_entries [OF shape False] u(2) in \<open>auto simp: is_closed_def\<close>)
      qed simp
    qed
  qed simp
qed

lemma wp_fetch_all_items:
  fixes s :: "('s, 'k) storage"
  assumes "mapped ap y k s"
  shows "wp (fetch_all_items F K)
    (\<lambda>it t. mi_first_page it < page_count F r \<and> map_left F r ap 0 (entries_of ap y) it
      \<and> mapped ap y k t \<and> length (data_buffer t) = length (data_buffer s)) no_err s"
proof -
  have first: "wp (run_with_auto_repair (first_page_of_map F) (map_try_repair F K))
    (\<lambda>f t. f < page_count F r \<and> entries_after F r ap f 0 = entries_of ap y
      \<and> mapped ap y k t \<and> length (data_buffer t) = length (data_buffer s)) no_err s"
    by (rule wp_run_with_auto_repair [OF wp_first_page_of_map [OF assms]]) simp
  show ?thesis
    unfolding fetch_all_items_def wp_bnd [of "run_with_auto_repair _ _"]
  proof (rule wp_mono [OF first], goal_cases)
    case (1 f t)
    then have t: "mapped ap y k t" and f: "f < page_count F r" "0 < page_count F r" by auto
    have "map_left F r ap 0 (entries_of ap y)
        \<lparr> mi_first_page = f, mi_current_page_index = f, mi_current_iter = page_items_iter F r f \<rparr>"
      unfolding map_left_def using 1 f page_items_iter_left(2) [of r ap f] entries_after_step [of 0 F r ap f] by auto
    then show ?case using 1 by (simp add: mappedE(3) [OF t])
  qed simp
qed

end

section \<open>Collecting\<close>

text \<open>
  The loop of the documentation of \<open>fetch_all_items\<close>: \<open>next\<close> until it returns nothing. No more
  items can be on the flash than it has bytes.
\<close>

primrec collect_rounds ::
  "('s, 'e) nor_flash \<Rightarrow> 'k map_key \<Rightarrow> 'v map_value \<Rightarrow> nat \<Rightarrow> ('s, 'k, 'e, ('k \<times> 'v) list) map_iter_m"
where
  "collect_rounds F K V 0 = diverge"
| "collect_rounds F K V (Suc fuel) =
     bnd (map_item_iter_next F K V) (\<lambda>next_value. case next_value of
       None \<Rightarrow> ret []
     | Some p \<Rightarrow> bnd (collect_rounds F K V fuel) (\<lambda>ps. ret (p # ps)))"

definition collect_items ::
  "('s, 'e) nor_flash \<Rightarrow> 'k map_key \<Rightarrow> 'v map_value \<Rightarrow> ('s, 'k, 'e, ('k \<times> 'v) list) map_m"
where
  "collect_items F K V =
     bnd (fetch_all_items F K) (\<lambda>it.
     bnd (gets (\<lambda>s. page_count F (flash_range s) * ERASE_SIZE F + 1)) (\<lambda>fuel.
     with_local it (collect_rounds F K V fuel)))"

context map_store
begin

lemma wp_collect_rounds:
  fixes s :: "('s, 'k) storage"
  assumes "holds r ap s" "mi_first_page it < page_count F r" "map_left F r ap j es it" "length es < fuel"
    and "entries_fit F is_item (length (data_buffer s)) es" "\<forall>e \<in> set es. length (snd e) \<le> u16_MAX"
    and "\<forall>i < page_count F r. fst (ap i) = Open \<longrightarrow> snd (ap i) = []"
  shows "wp (collect_rounds F K V fuel)
    (\<lambda>ps t. map Some ps = map pair_of es \<and> holds r ap (fst t) \<and> length (data_buffer (fst t)) = length (data_buffer s)
      \<and> cached_keys_fst t = cached_keys s) no_err (s, it)"
  using assms(1-6)
proof (induction es arbitrary: fuel j s it)
  case Nil
  then obtain fuel' where fuel: "fuel = Suc fuel'" by (cases fuel) auto
  show ?case
    unfolding fuel collect_rounds.simps wp_bnd [of "map_item_iter_next F K V"]
    by (rule wp_mono [OF wp_map_item_iter_next [OF Nil.prems(1-3,5,6) assms(7)]]) auto
next
  case (Cons e es)
  then obtain fuel' where fuel: "fuel = Suc fuel'" "length es < fuel'" by (cases fuel) auto
  show ?case
    unfolding fuel(1) collect_rounds.simps wp_bnd [of "map_item_iter_next F K V"]
  proof (rule wp_mono [OF wp_map_item_iter_next [OF Cons.prems(1-3,5,6) assms(7)]], goal_cases)
    case (1 res t)
    obtain u it' where t: "t = (u, it')" by (cases t)
    have u: "holds r ap u" "mi_first_page it' < page_count F r" "length (data_buffer u) = length (data_buffer s)"
      "cached_keys u = cached_keys s"
      using 1 Cons.prems(2) unfolding t by simp_all
    obtain p j' where p: "res = Some p" "pair_of e = Some p" "map_left F r ap j' es it'"
      using 1 unfolding t by auto
    have "wp (collect_rounds F K V fuel')
      (\<lambda>ps t. map Some ps = map pair_of es \<and> holds r ap (fst t) \<and> length (data_buffer (fst t)) = length (data_buffer u)
        \<and> cached_keys_fst t = cached_keys u) no_err (u, it')"
      by (rule Cons.IH [OF u(1,2) p(3) fuel(2)]) (use Cons.prems(5,6) u(3) in \<open>simp_all add: entries_fit_def\<close>)
    then show ?case using p(1,2) u(3,4) unfolding t by (auto elim!: wp_mono)
  qed simp
qed

text \<open>The last pair with a key is the one of the newest entry.\<close>

lemma map_of_pairs:
  "map Some ps = map pair_of es \<Longrightarrow> map_of (rev ps) = map_of_entries K V es"
proof (induction es arbitrary: ps)
  case (Cons e es)
  then obtain p ps' where ps: "ps = p # ps'" "pair_of e = Some p" "map Some ps' = map pair_of es" by (cases ps) auto
  obtain key val where p: "p = (key, val)" "key_of K (snd e) = Some key" "value_of K V (snd e) = Some val"
    using ps(2) by (auto simp: pair_of_def split: option.splits)
  have "value_of K V (snd e') \<noteq> None" if "newest K es k = Some e'" for k e'
  proof -
    have "e' \<in> set es" using newest_in [OF that] by simp
    then have "pair_of e' \<in> Some ` set ps'" using ps(3) by (metis image_eqI image_set)
    then show ?thesis by (auto simp: pair_of_def split: option.splits)
  qed
  then have "map_of (rev ps) k = map_of_entries K V (e # es) k" for k
    using Cons.IH [OF ps(3)] ps(1) p
    by (cases "newest K es k") (auto simp: map_of_entries_def newest_Cons map_add_def fun_eq_iff split: option.splits)
  then show ?case by (simp add: fun_eq_iff)
qed (simp add: fun_eq_iff)

lemma length_entries_of:
  assumes "mapped ap y k s"
  shows "length (entries_of ap y) \<le> page_count F r * ERASE_SIZE F"
proof -
  let ?n = "page_count F r"
  note m = mappedE [OF assms]
  have page: "length (page_entries F r ap ((y + i) mod ?n)) \<le> ERASE_SIZE F" for i
  proof -
    let ?p = "(y + i) mod ?n"
    have p: "?p < ?n" using shape_less(3) [OF m(2)] by simp
    have "length (page_entries F r ap ?p) \<le> slots_size F (snd (ap ?p))"
      using length_live_at length_le_slots_size order_trans unfolding page_entries_def by blast
    also have "\<dots> \<le> calculate_page_size F" using holds_page(3) [OF config(1) m(1) p] by (simp add: page_wf_def)
    also have "\<dots> \<le> ERASE_SIZE F" by (simp add: calculate_page_size_def)
    finally show ?thesis .
  qed
  have "length (entries_upto F r ap y j) \<le> j * ERASE_SIZE F" for j
    by (induction j) (use page in \<open>auto simp: add.commute [of "ERASE_SIZE F"] simp del: add_Suc_right intro: add_mono\<close>)
  then show ?thesis by (simp add: ring_entries_def)
qed

lemma wp_collect_items:
  fixes s :: "('s, 'k) storage"
  assumes "map_repr F inv mem K V is_item r s m"
  shows "wp (collect_items F K V) (\<lambda>ps t. map_of (rev ps) = m \<and> map_repr F inv mem K V is_item r t m
    \<and> length (data_buffer t) = length (data_buffer s)) no_err s"
proof -
  obtain ap y k where ap: "mapped ap y k s" "0 < k" and m: "m = map_of_entries K V (entries_of ap y)"
    using assms unfolding map_repr_def by blast
  note shape = mappedE(2) [OF ap(1)]
  have open_empty: "\<forall>i < page_count F r. fst (ap i) = Open \<longrightarrow> snd (ap i) = []"
    using shape_open_empty [OF shape] by auto
  show ?thesis
    unfolding collect_items_def wp_bnd [of "fetch_all_items F K"]
  proof (rule wp_mono [OF wp_fetch_all_items [OF ap(1)]], goal_cases)
    case (1 it t)
    then have t: "mapped ap y k t" and len: "length (data_buffer t) = length (data_buffer s)" by simp_all
    note mt = mappedE [OF t]
    have "\<forall>e \<in> set (entries_of ap y). length (snd e) \<le> u16_MAX"
      using entries_of_in [OF t] entry_length(1) [OF mt(1)] by (metis prod.collapse)
    moreover have "length (entries_of ap y) < page_count F r * ERASE_SIZE F + 1" using length_entries_of [OF t] by simp
    ultimately have "wp (collect_rounds F K V (page_count F r * ERASE_SIZE F + 1))
      (\<lambda>ps u. map Some ps = map pair_of (entries_of ap y) \<and> holds r ap (fst u)
        \<and> length (data_buffer (fst u)) = length (data_buffer t) \<and> cached_keys_fst u = cached_keys t) no_err (t, it)"
      using 1 by (intro wp_collect_rounds [where j = 0, OF mt(1) _ _ _ mt(4) _ open_empty]) simp_all
    then show ?case
      unfolding wp_bnd [of "gets f" for f] wp_gets mt(3) wp_with_local
    proof (rule wp_mono, goal_cases)
      case (1 ps u)
      then have "mapped ap y k (fst u)" using mapped_same [OF t] by simp
      moreover have "map_of (rev ps) = m" using map_of_pairs 1 m by simp
      ultimately show ?case using 1 len ap(2) m unfolding map_repr_def by auto
    qed simp
  qed simp
qed

end

section \<open>The property\<close>



end
