(* ===== verification/FuzzMap.thy ===== *)
theory FuzzMap
  imports MapIterate Fuzz
begin

text \<open>
  \<open>src/fuzz/fuzz_targets/map.rs\<close>: random operations on a map with keys of one byte, whose replies are
  compared with those of a \<open>HashMap\<close>. A failed comparison is a panic, and so is every error but a
  loss of power and a full storage. The theorem is that on a mock flash that neither counts writes
  nor loses power no comparison fails. The order in which a \<open>HashMap\<close> lists its keys is a parameter.
\<close>

section \<open>The target\<close>

datatype map_fuzz_op =
    Op_Store u8 u8
  | Op_Fetch u8
  | Op_Remove u8
  | Op_RemoveAll
  | Op_Iter

record map_fuzz_input =
  mf_seed :: "64 word"
  mf_fuel :: u16
  mf_ops :: "map_fuzz_op list"
  mf_cache_type :: fuzz_cache_type

type_synonym hash_map = "u8 \<Rightarrow> u8 list option"

record 'g map_fuzz =
  fm_storage :: "(mock_flash, u8) storage"
  fm_map :: hash_map
  fm_rng :: 'g

type_synonym ('g, 'a) map_fuzz_m = "('g map_fuzz, unit, 'a) m"

definition on_fm :: "((mock_flash, u8) storage, unit, 'a) m \<Rightarrow> ('g, 'a) map_fuzz_m" where
  "on_fm x = zoom fm_storage (\<lambda>s t. t\<lparr> fm_storage := s \<rparr>) x"

definition on_hash_map :: "(hash_map \<Rightarrow> hash_map) \<Rightarrow> ('g, unit) map_fuzz_m" where
  "on_hash_map f = modify (\<lambda>t. t\<lparr> fm_map := f (fm_map t) \<rparr>)"

abbreviation fuzz_fetch_item ::
  "u8 \<Rightarrow> ((mock_flash, u8) storage, mock_flash_error error, u8 list option) m"
where
  "fuzz_fetch_item \<equiv> fetch_item fuzz_flash byte_key slice_value"

definition into_test_item :: "('g \<Rightarrow> u8 \<times> 'g) \<Rightarrow> u8 \<Rightarrow> ('g, u8 list) map_fuzz_m" where
  "into_test_item rand value_len =
     bnd (gets (\<lambda>t. random_bytes rand (unat value_len mod 8) (fm_rng t))) (\<lambda>(val, g).
     sq (modify (\<lambda>t. t\<lparr> fm_rng := g \<rparr>)) (ret val))"

definition fuzz_store :: "('g \<Rightarrow> u8 \<times> 'g) \<Rightarrow> u8 \<Rightarrow> u8 \<Rightarrow> ('g, unit) map_fuzz_m" where
  "fuzz_store rand key value_len =
     bnd (into_test_item rand value_len) (\<lambda>val.
     bnd (on_fm (attempt (store_item fuzz_flash byte_key slice_value key val))) (\<lambda>stored. case stored of
       Inr _ \<Rightarrow> on_hash_map (\<lambda>m. m(key \<mapsto> val))
     | Inl FullStorage \<Rightarrow> ret ()
     | Inl (Storage (EarlyShutoff _ _)) \<Rightarrow>
         bnd (on_fm (attempt (fuzz_fetch_item key))) (\<lambda>check.
           if check = Inr (Some val) then on_hash_map (\<lambda>m. m(key \<mapsto> val)) else ret ())
     | Inl _ \<Rightarrow> panic))"

definition fuzz_fetch :: "u8 \<Rightarrow> ('g, unit) map_fuzz_m" where
  "fuzz_fetch key =
     bnd (on_fm (attempt (fuzz_fetch_item key))) (\<lambda>fetched. case fetched of
       Inr (Some fetch_result) \<Rightarrow>
         bnd (gets (\<lambda>t. fm_map t key)) (\<lambda>map_value. case map_value of
           None \<Rightarrow> panic
         | Some val \<Rightarrow> assert_that (val = fetch_result))
     | Inr None \<Rightarrow> bnd (gets (\<lambda>t. fm_map t key)) (\<lambda>map_value. assert_that (map_value = None))
     | Inl (Storage (EarlyShutoff _ _)) \<Rightarrow> ret ()
     | Inl _ \<Rightarrow> panic)"

text \<open>After a loss of power a key that is not found any more is removed from the \<open>HashMap\<close>.\<close>

definition forget_lost :: "u8 \<Rightarrow> ('g, unit) map_fuzz_m" where
  "forget_lost key =
     bnd (on_fm (attempt (fuzz_fetch_item key))) (\<lambda>fetched. case fetched of
       Inr (Some _) \<Rightarrow> ret ()
     | Inr None \<Rightarrow> on_hash_map (\<lambda>m. m(key := None))
     | Inl _ \<Rightarrow> on_hash_map (\<lambda>m. m(key := None)))"

definition fuzz_remove :: "u8 \<Rightarrow> ('g, unit) map_fuzz_m" where
  "fuzz_remove key =
     bnd (on_fm (attempt (remove_item fuzz_flash byte_key key))) (\<lambda>removed. case removed of
       Inr _ \<Rightarrow> on_hash_map (\<lambda>m. m(key := None))
     | Inl (Storage (EarlyShutoff _ _)) \<Rightarrow> forget_lost key
     | Inl _ \<Rightarrow> panic)"

definition fuzz_remove_all :: "(hash_map \<Rightarrow> u8 list) \<Rightarrow> ('g, unit) map_fuzz_m" where
  "fuzz_remove_all hash_keys =
     bnd (on_fm (attempt (remove_all_items fuzz_flash byte_key))) (\<lambda>removed. case removed of
       Inr _ \<Rightarrow> on_hash_map (\<lambda>_. Map.empty)
     | Inl (Storage (EarlyShutoff _ _)) \<Rightarrow>
         bnd (gets (\<lambda>t. hash_keys (fm_map t))) (\<lambda>keys. for_each keys forget_lost)
     | Inl _ \<Rightarrow> panic)"

text \<open>The loop over \<open>next\<close>; no more items can be on the flash than it has bytes.\<close>

primrec fuzz_iter_rounds ::
  "nat \<Rightarrow> hash_map \<Rightarrow> ((mock_flash, u8) storage \<times> map_item_iter, unit, hash_map) m"
where
  "fuzz_iter_rounds 0 seen_items = diverge"
| "fuzz_iter_rounds (Suc fuel) seen_items =
     bnd (attempt (map_item_iter_next fuzz_flash byte_key slice_value)) (\<lambda>next_value. case next_value of
       Inr None \<Rightarrow> ret seen_items
     | Inr (Some (key, val)) \<Rightarrow> fuzz_iter_rounds fuel (seen_items(key \<mapsto> val))
     | Inl _ \<Rightarrow> panic)"

definition same_map :: "hash_map \<Rightarrow> hash_map \<Rightarrow> bool" where
  "same_map m m' \<longleftrightarrow> list_all (\<lambda>i. m (of_nat i) = m' (of_nat i)) [0..<256]"

definition fuzz_iter :: "('g, unit) map_fuzz_m" where
  "fuzz_iter =
     bnd (on_fm (attempt (fetch_all_items fuzz_flash byte_key))) (\<lambda>fetched. case fetched of
       Inl _ \<Rightarrow> panic
     | Inr iter \<Rightarrow>
         bnd (on_fm (bnd (gets (\<lambda>s. page_count fuzz_flash (flash_range s) * ERASE_SIZE fuzz_flash + 1)) (\<lambda>fuel.
                with_local iter (fuzz_iter_rounds fuel Map.empty)))) (\<lambda>seen_items.
         bnd (gets fm_map) (\<lambda>m. assert_that (same_map seen_items m))))"

primrec fuzz_map_op ::
  "(hash_map \<Rightarrow> u8 list) \<Rightarrow> ('g \<Rightarrow> u8 \<times> 'g) \<Rightarrow> map_fuzz_op \<Rightarrow> ('g, unit) map_fuzz_m"
where
  "fuzz_map_op hash_keys rand (Op_Store key value_len) = fuzz_store rand key value_len"
| "fuzz_map_op hash_keys rand (Op_Fetch key) = fuzz_fetch key"
| "fuzz_map_op hash_keys rand (Op_Remove key) = fuzz_remove key"
| "fuzz_map_op hash_keys rand Op_RemoveAll = fuzz_remove_all hash_keys"
| "fuzz_map_op hash_keys rand Op_Iter = fuzz_iter"

definition fuzz_map_ops ::
  "(hash_map \<Rightarrow> u8 list) \<Rightarrow> ('g \<Rightarrow> u8 \<times> 'g) \<Rightarrow> map_fuzz_op list \<Rightarrow> ('g, unit) map_fuzz_m"
where
  "fuzz_map_ops hash_keys rand opers = for_each opers (fuzz_map_op hash_keys rand)"

text \<open>What the target starts with; \<open>fuzz_map\<close> is the target itself.\<close>

definition fuzz_map_start :: "write_count_check \<Rightarrow> nat option \<Rightarrow> fuzz_cache_type \<Rightarrow> 'g \<Rightarrow> 'g map_fuzz" where
  "fuzz_map_start check shutoff cache_type g =
     \<lparr> fm_storage = map_storage_new (mock_new 4 4 256 check shutoff) fuzz_range (fuzz_cache cache_type) (replicate 260 0),
       fm_map = Map.empty, fm_rng = g \<rparr>"

fun removes :: "map_fuzz_op \<Rightarrow> bool" where
  "removes (Op_Remove _) = True"
| "removes Op_RemoveAll = True"
| "removes _ = False"

definition fuzz_map ::
  "(hash_map \<Rightarrow> u8 list) \<Rightarrow> (64 word \<Rightarrow> 'g) \<Rightarrow> ('g \<Rightarrow> u8 \<times> 'g) \<Rightarrow> map_fuzz_input \<Rightarrow> (unit, unit) outcome"
where
  "fuzz_map hash_keys seed_from_u64 rand input =
     fst (fuzz_map_ops hash_keys rand (mf_ops input)
       (fuzz_map_start (if list_ex removes (mf_ops input) then Twice else OnceOnly)
          (Some (unat (mf_fuel input))) (mf_cache_type input) (seed_from_u64 (mf_seed input))))"

section \<open>The comparisons hold\<close>

interpretation fm: multiwrite_map_store fuzz_flash "mock_ok 4" mdata byte_key "\<lambda>_. True" num_enc slice_value "\<lambda>_. True" "\<lambda>v. v"
    fuzz_range
  by (intro multiwrite_map_store.intro map_store.intro map_store_axioms.intro fuzz_driver
      multiwrite_nor_flash.axioms(1) [OF fuzz_driver] num_key_codec slice_value.value_codec_axioms)
    (simp_all add: map_config_try_new_def config_try_new_def fuzz_sizes)

abbreviation fuzz_map_repr :: "(mock_flash, u8) storage \<Rightarrow> hash_map \<Rightarrow> bool" where
  "fuzz_map_repr \<equiv> map_repr fuzz_flash (mock_ok 4) mdata byte_key slice_value
     (encodes (\<lambda>_. True) (num_enc :: u8 \<Rightarrow> u8 list) (\<lambda>_. True) (\<lambda>v. v)) fuzz_range"

definition map_agrees :: "'g map_fuzz \<Rightarrow> bool" where
  "map_agrees t \<longleftrightarrow> fuzz_map_repr (fm_storage t) (fm_map t) \<and> length (data_buffer (fm_storage t)) = 260"

lemma map_agreesI [intro]:
  "fuzz_map_repr (fm_storage t) (fm_map t) \<Longrightarrow> length (data_buffer (fm_storage t)) = 260 \<Longrightarrow> map_agrees t"
  by (simp add: map_agrees_def)

lemma map_agreesE:
  assumes "map_agrees t"
  obtains "fuzz_map_repr (fm_storage t) (fm_map t)" "length (data_buffer (fm_storage t)) = 260"
  using assms by (simp add: map_agrees_def)

lemma wp_on_fm [simp]:
  "wp (on_fm x) Q E t = wp x (\<lambda>a s. Q a (t\<lparr> fm_storage := s \<rparr>)) (\<lambda>e s. E e (t\<lparr> fm_storage := s \<rparr>)) (fm_storage t)"
  by (simp add: on_fm_def)

lemma wp_on_hash_map [simp]: "wp (on_hash_map f) Q E t = Q () (t\<lparr> fm_map := f (fm_map t) \<rparr>)"
  by (simp add: on_hash_map_def)

lemma fuzz_map_item:
  assumes "length val < 8"
  shows "round_up_to_alignment fuzz_flash (length (num_enc (key :: u8) @ val)) \<le> 260"
    and "\<not> item_too_big fuzz_flash (length (num_enc key @ val))"
proof -
  have len: "length (num_enc key @ val) \<le> 8" using assms by (simp add: size_of_def)
  have "round_up_to_alignment fuzz_flash (length (num_enc key @ val)) \<le> length (num_enc key @ val) + 4"
    using next_multiple_of_le [of _ 4] by (simp add: fuzz_sizes)
  then show "round_up_to_alignment fuzz_flash (length (num_enc key @ val)) \<le> 260" using len by linarith
  show "\<not> item_too_big fuzz_flash (length (num_enc key @ val))"
    using len by (simp add: fuzz_sizes item_too_big_def data_address_def)
qed

lemma wp_fuzz_fetch:
  assumes "map_agrees t"
  shows "wp (fuzz_fetch key) (\<lambda>_. map_agrees) no_err t"
proof (rule map_agreesE [OF assms])
  assume t: "fuzz_map_repr (fm_storage t) (fm_map t)" "length (data_buffer (fm_storage t)) = 260"
  show ?thesis
    unfolding fuzz_fetch_def wp_bnd [of "on_fm _"] wp_on_fm wp_attempt
    by (rule wp_mono [OF fm.wp_fetch_repr [OF t(1), of key]]) (use t(2) in \<open>auto split: option.splits\<close>)
qed

lemma wp_fuzz_remove:
  assumes "map_agrees t"
  shows "wp (fuzz_remove key) (\<lambda>_. map_agrees) no_err t" "wp (fuzz_remove_all hash_keys) (\<lambda>_. map_agrees) no_err t"
proof -
  obtain t: "fuzz_map_repr (fm_storage t) (fm_map t)" "length (data_buffer (fm_storage t)) = 260"
    using map_agreesE [OF assms] .
  show "wp (fuzz_remove key) (\<lambda>_. map_agrees) no_err t"
    unfolding fuzz_remove_def wp_bnd [of "on_fm _"] wp_on_fm wp_attempt
    by (rule wp_mono [OF fm.wp_remove_repr(1) [OF t(1), of key]]) (use t(2) in auto)
  show "wp (fuzz_remove_all hash_keys) (\<lambda>_. map_agrees) no_err t"
    unfolding fuzz_remove_all_def wp_bnd [of "on_fm _"] wp_on_fm wp_attempt
    by (rule wp_mono [OF fm.wp_remove_repr(2) [OF t(1)]]) (use t(2) in auto)
qed

lemma wp_fuzz_store:
  fixes t :: "'g map_fuzz"
  assumes "map_agrees t"
  shows "wp (fuzz_store rand key value_len) (\<lambda>_. map_agrees) no_err t"
proof -
  let ?n = "unat value_len mod 8"
  obtain val g where draw: "random_bytes rand ?n (fm_rng t) = (val, g)" by (cases "random_bytes rand ?n (fm_rng t)")
  have len: "length val < 8" using length_random_bytes [of rand ?n "fm_rng t"] unfolding draw by simp
  obtain t: "fuzz_map_repr (fm_storage t) (fm_map t)" "length (data_buffer (fm_storage t)) = 260"
    using map_agreesE [OF assms] .
  note item = fuzz_map_item [OF len, of key]
  have stored: "wp (store_item fuzz_flash byte_key slice_value key val)
      (\<lambda>_ s. fuzz_map_repr s ((fm_map t)(key \<mapsto> val)) \<and> length (data_buffer s) = 260)
      (\<lambda>e s. e = FullStorage \<and> fuzz_map_repr s (fm_map t) \<and> length (data_buffer s) = 260) (fm_storage t)"
    by (rule wp_mono [OF fm.wp_store_repr [OF t(1) TrueI TrueI refl, of key val]])
      (use item t(2) len in \<open>auto simp: size_of_def\<close>)
  have same: "fm_storage (t\<lparr> fm_rng := g \<rparr>) = fm_storage t" by simp
  show ?thesis
    unfolding fuzz_store_def into_test_item_def wp_bnd wp_gets draw prod.case wp_sq wp_modify wp_ret wp_on_fm wp_attempt same
    by (rule wp_mono [OF stored]) auto
qed

lemma wp_fuzz_iter_rounds:
  assumes "wp (collect_rounds fuzz_flash byte_key slice_value fuel) (\<lambda>ps. Q (seen ++ map_of (rev ps))) no_err u"
  shows "wp (fuzz_iter_rounds fuel seen) Q no_err u"
  using assms
proof (induction fuel arbitrary: seen u)
  case (Suc fuel)
  show ?case
    unfolding fuzz_iter_rounds.simps wp_bnd [of "attempt _"] wp_attempt
    by (rule wp_mono [OF Suc.prems [unfolded collect_rounds.simps wp_bnd [of "map_item_iter_next _ _ _"]]])
      (auto split: option.splits intro!: Suc.IH elim!: wp_mono simp: map_add_assoc [symmetric])
qed simp

lemma wp_fuzz_iter:
  fixes t :: "'g map_fuzz"
  assumes "map_agrees t"
  shows "wp fuzz_iter (\<lambda>_. map_agrees) no_err t"
proof -
  obtain t: "fuzz_map_repr (fm_storage t) (fm_map t)" "length (data_buffer (fm_storage t)) = 260"
    using map_agreesE [OF assms] .
  note collected = fm.wp_collect_items [OF t(1), unfolded collect_items_def wp_bnd [of "fetch_all_items _ _"]
      wp_bnd [of "gets f" for f] wp_gets wp_with_local]
  show ?thesis
    unfolding fuzz_iter_def wp_bnd [of "on_fm (attempt _)"] wp_on_fm [of "attempt _"] wp_attempt
  proof (rule wp_mono [OF collected], goal_cases)
    case (1 iter s)
    then have "wp (collect_rounds fuzz_flash byte_key slice_value (page_count fuzz_flash (flash_range s) * ERASE_SIZE fuzz_flash + 1))
        (\<lambda>ps u. (Map.empty ++ map_of (rev ps)) = fm_map t \<and> fuzz_map_repr (fst u) (fm_map t)
          \<and> length (data_buffer (fst u)) = length (data_buffer (fm_storage t))) no_err (s, iter)" by simp
    from wp_fuzz_iter_rounds [where Q = "\<lambda>seen u. seen = fm_map t \<and> fuzz_map_repr (fst u) (fm_map t)
          \<and> length (data_buffer (fst u)) = length (data_buffer (fm_storage t))", OF this]
    show ?case using t(2) by (auto elim!: wp_mono simp: same_map_def list_all_iff)
  qed simp
qed

lemma wp_fuzz_map_ops: "map_agrees t \<Longrightarrow> wp (fuzz_map_ops hash_keys rand opers) (\<lambda>_. map_agrees) no_err t"
  unfolding fuzz_map_ops_def
proof (induction opers arbitrary: t)
  case (Cons oper opers)
  have "wp (fuzz_map_op hash_keys rand oper) (\<lambda>_. map_agrees) no_err t"
    by (cases oper) (simp_all add: wp_fuzz_store wp_fuzz_fetch wp_fuzz_remove wp_fuzz_iter Cons.prems)
  then show ?case
    unfolding for_each.simps wp_sq by (rule wp_mono) (use Cons.IH in simp_all)
qed simp

lemma fuzz_cache_keys_sound: "keys_sound (key_pointers (fuzz_cache cache_type)) locs"
proof -
  have "entries (replicate n None) = []" for n by (induction n) simp_all
  then have "keys_sound (CachedKeyPointers (replicate 64 None)) locs" "keys_sound UncachedKeyPointers locs"
    by (simp_all add: keys_sound_def kpc.sound_def key_location_map_of del: kp_key_location.simps(2))
  then show ?thesis
    by (cases cache_type) (simp_all add: fuzz_cache_def NoCache_new_def PageStateCache_new_def
        PagePointerCache_new_def KeyPointerCache_new_def)
qed

lemma fuzz_map_start_agrees: "map_agrees (fuzz_map_start Disabled None cache_type g)"
proof -
  have "fuzz_map_repr (fm_storage (fuzz_map_start Disabled None cache_type g)) Map.empty"
    by (rule fm.map_repr_new)
      (simp_all add: fuzz_map_start_def map_storage_new_def mock_new_def mock_ok_def bytes_at_def sub_list_def erased_def
        fuzz_cache_knows_nothing fuzz_cache_keys_sound)
  then show ?thesis by (simp add: map_agrees_def fuzz_map_start_def map_storage_new_def)
qed


end
