(* ===== verification/Spec2Isabelle.thy ===== *)
theory Spec2Isabelle
  imports QueueStore QueueSpace ItemProperties Codecs MapRoom CacheImpls FuzzQueue FuzzMap
begin

text \<open>
  Verification of \<open>sequential-storage\<close>, a Rust crate that keeps a key-value map or a fifo queue on NOR
  flash, with as little wear and RAM as possible. This theory imports the development; the theorems
  are in the theories it names.

  \<^bold>\<open>The program.\<close> A range of flash pages is a ring. A page starts and ends with a marker word: none is
  written on an open page, the first on a partially open one, both on a closed one. Between them lie
  items, each a header (a checksum of the data, the length, a checksum of the length) and its data.
  \<open>GenericStorage\<close> of \<open>src/src/lib.rs\<close> holds the flash driver, the range and a cache of what is known
  about the pages, and has the operations on page states; \<open>src/src/item.rs\<close> has those on items.
  \<open>QueueStorage\<close> (\<open>src/src/queue/mod.rs\<close>) and \<open>MapStorage\<close> (\<open>src/src/map.rs\<close>) are built on both. A queue
  pushes to the youngest page and erases items in place when it pops them; a map appends the new
  value of a key, and moves the items of the oldest page that are still the newest of their key before
  it erases that page. \<open>BufferedQueue\<close> and \<open>SharedRamRing\<close> (\<open>src/src/queue/buffered.rs\<close>) put a ring of
  bytes in RAM before a queue. A public operation drops the cache first if the last one left it dirty,
  and when it reports corruption it is repaired and tried once more.

  \<^bold>\<open>How the code is modelled.\<close> A computation maps a state to an outcome and a state (\<open>Prelude\<close>): a value, an
  \<open>Err\<close>, a panic, or not ending. \<open>bnd\<close> and \<open>sq\<close> are the code's sequencing with \<open>?\<close>, which keeps the state
  reached so far; \<open>wp x Q E s\<close> says that \<open>x\<close> ends without a panic from \<open>s\<close>, with \<open>Q\<close> of its value or \<open>E\<close> of its
  error, so every theorem stated with it includes termination and absence of panics. The buffer a
  caller passes to an operation is a field of the state. Addresses and sizes are naturals, the bytes,
  lengths and checksums words. \<open>async\<close> functions are run to their end.

  \<^bold>\<open>The theories.\<close>

  \<^item> \<open>Prelude\<close>: outcomes, the combinators and their weakest preconditions, bytes, alignment.
  \<^item> \<open>NorFlash\<close>: the driver is a parameter, a record with the sizes and the three functions of the
    traits of \<open>embedded-storage-async\<close>. The locales \<open>nor_flash\<close> and \<open>multiwrite_nor_flash\<close> are the
    documented contract of these traits: reads return what is there, erasing sets all bits, and what is
    erased can be written, or, for the second, everything, which clears bits. As the trait bounds of the
    code say, only popping and removing need the second. \<open>MockFlash\<close> models \<open>src/src/mock_flash.rs\<close> and is the interpretation of both.
  \<^item> \<open>Layout\<close>: the address arithmetic of \<open>lib.rs\<close> and \<open>item.rs\<close> and the configurations.
  \<^item> \<open>PageStatesCache\<close>, \<open>PagePointersCache\<close>, \<open>KeyPointersCache\<close>: the three caches of \<open>src/src/cache\<close>, each
    with a locale for its contract and the interpretation on the code's model. \<open>Cache\<close> puts them
    together as \<open>cache/mod.rs\<close> does. \<open>CacheImpls\<close> has the types of \<open>array_impl.rs\<close> and \<open>heap_impl.rs\<close> field by
    field and proves, through the locale \<open>cache_type\<close>, that each answers as the record of \<open>Cache\<close>.
  \<^item> \<open>Storage\<close>: \<open>GenericStorage\<close>, the page states and the general repair. \<open>Checksum\<close>: the two checksums.
    \<open>Item\<close>: reading, writing, erasing and iterating over items.
  \<^item> \<open>PageModel\<close> and \<open>FlashState\<close>: the abstract view. A page is its state and a list of slots, live or
    erased; \<open>flash_holds\<close> relates a storage to its pages and its cache to both, and for every operation
    of \<open>Storage\<close> and \<open>Item\<close> there is a lemma that says what it does to the pages. \<open>AnyFlash\<close>: what can be
    said when the flash holds anything. \<open>ItemProperties\<close>: the theorems on single items and pages.
  \<^item> \<open>Queue\<close>: the operations of the queue. \<open>QueueRing\<close>, \<open>QueuePush\<close>, \<open>QueuePop\<close>: how the ring of pages
    represents a list (\<open>queue_repr\<close>) and that pushing, iterating and popping act on the list.
    \<open>QueueFifo\<close>: the theorems on the public operations; \<open>QueueSpace\<close>: \<open>find_max_fit\<close> and \<open>space_left\<close>.
  \<^item> \<open>RamRing\<close>, \<open>BufferedQueue\<close>, \<open>SharedRamRing\<close>: the ring in RAM, the queue with the ring before it, and the
    ring shared with an interrupt, whose interleavings are a step relation. They rely on a storage in
    the locale \<open>fifo_storage\<close>; \<open>QueueStore\<close> proves that the queue on flash meets it and holds the theorems.
  \<^item> \<open>Serialization\<close> and \<open>Codecs\<close>: the traits \<open>Key\<close> and \<open>Value\<close> and their implementations in \<open>map.rs\<close>,
    \<open>alloc_impl.rs\<close>, \<open>heapless_impl.rs\<close>, \<open>heapless_09_impl.rs\<close> and \<open>arrayvec_impl.rs\<close>, with the locales
    \<open>key_codec\<close> and \<open>value_codec\<close>, which most of them interpret. The containers of \<open>heapless\<close> and \<open>arrayvec\<close>
    and the functions of \<open>postcard\<close> are parameters.
  \<^item> \<open>MapStorage\<close>: the operations of the map. \<open>MapFrame\<close>, \<open>MapModel\<close>, \<open>MapFetch\<close>, \<open>MapMigrate\<close>, \<open>MapStore\<close>,
    \<open>MapRemove\<close>: how the pages represent a map (\<open>map_repr\<close>) and what each operation does to it, in the
    locale \<open>map_store\<close>. \<open>MapProperties\<close>: the theorems; \<open>MapIterate\<close>, \<open>MapRepair\<close>, \<open>MapRoom\<close>: iterating, the
    repair of an interrupted migration, and that storing succeeds while there is room.
  \<^item> \<open>Fuzz\<close>, \<open>FuzzQueue\<close>, \<open>FuzzMap\<close>: the fuzz targets, with their reactions to a loss of power.
  \<^item> \<open>Example\<close>: two pages of 16 words on the mock flash, on which the witnesses apply the theorems.

  \<^bold>\<open>Bounds on loops.\<close> A loop without a structural argument takes a number of rounds and has the outcome
  \<open>Diverge\<close> when they are used up, which \<open>wp\<close> excludes, so that each bound is proved to be enough.
  \<open>traverse\<close> needs none: every header and every corrupted word moves the address on. Loops over
  the items of a page have one round for every byte left on it (\<open>item_iter_rounds\<close>, \<open>iter_fuel\<close>), the loop
  of the queue iterator \<open>next_fuel\<close>, which is one for every byte and two more of every page and of one
  extra page. Storing goes round the ring once (\<open>store_levels\<close>, as \<open>recursion_level\<close> does in the code),
  draining has a round for every item in the ring and one more, and collecting the map one for
  every byte of the range.

  \<^bold>\<open>What the theorems need.\<close> The driver keeps its contract. The configuration is one that \<open>try_new\<close> accepts,
  and a page has room for a header; for the map a page has at least four words and the range ends
  below \<open>2^32\<close>. The storage starts as an erased flash with a new cache, or from anything that holds a
  queue or a map; the operations keep that. Buffers hold the items rounded up to words.

  \<^bold>\<open>Not modelled.\<close> A loss of power in the middle of an operation is in the mock flash and in the fuzz
  targets, but the theorems on the queue and the map are about a driver that does not fail; of
  interruptions they cover a flash with any contents (\<open>AnyFlash\<close>), a migration that stopped between two
  items (\<open>MapRepair\<close>) and the loss of the cache. The same holds for the counting of writes: the theorems
  on the mock flash switch it off. Dropping a future halfway, the executor, and the mutex and signal
  of \<open>embassy-sync\<close> are not modelled, but for the points at which a task of the shared ring can be
  interrupted. Left out are \<open>print_items\<close> and the \<open>Debug\<close>, \<open>Display\<close> and \<open>defmt\<close> output, backtraces, the
  assertions and \<open>#[cfg(test)]\<close> code of the crate's own tests, the accessors \<open>destroy\<close>, \<open>flash\<close> and
  \<open>flash_range\<close>, conversions of errors, the check for the alignment of buffers in RAM and the
  floating-point averages of \<open>mock_flash.rs\<close>, the fuzz target \<open>random-flash\<close>, which only prints, and
  the example firmware.
\<close>

end
